(* ===== verification/Prelude.thy ===== *)
theory Prelude
  imports Main "HOL-Library.Word" "HOL-Library.Sublist"
begin

text \<open>
  Shared vocabulary of the development: the machine integers of the C sources, the
  result type of code that may abort, and the generic facts on lists, options and
  words the component theories rely on.
\<close>

unbundle bit_operations_syntax

section \<open>Machine integers and errors\<close>

type_synonym u8 = "8 word"
type_synonym u16 = "16 word"
type_synonym u32 = "32 word"
type_synonym u64 = "64 word"
type_synonym arts_guid_t = "64 word"

abbreviation NULL_GUID :: arts_guid_t where
  "NULL_GUID \<equiv> 0"

text \<open>
  What ends a call other than a return: \<^verbatim>\<open>ARTS_ERROR\<close> prints and aborts
  the process, \<^verbatim>\<open>assert\<close> fails, a null pointer is dereferenced, an access
  falls outside its object, a division has divisor zero, or a loop spins on a
  condition that the modelled state never makes true.  \<open>Out_Of_Fuel\<close> is the value of a
  bounded recursion at its bound; it stands for no behaviour of the code.
\<close>

datatype arts_error =
    ARTS_ERROR
  | Assert_Failed
  | Null_Deref
  | Out_Of_Bounds
  | Div_By_Zero
  | Spins_Forever
  | Out_Of_Fuel

type_synonym 'a res = "arts_error + 'a"

fun rbind :: "'a res \<Rightarrow> ('a \<Rightarrow> 'b res) \<Rightarrow> 'b res" where
  "rbind (Inl e) f = Inl e"
| "rbind (Inr x) f = f x"

named_theorems arts_defs \<open>unfolding equations of the operations\<close>
named_theorems word_facts \<open>facts on machine words\<close>

lemma rbind_eq_Inr [simp]: "rbind m f = Inr y \<longleftrightarrow> (\<exists>x. m = Inr x \<and> f x = Inr y)"
  by (cases m) auto

lemma rbind_eq_Inl: "rbind m f = Inl e \<longleftrightarrow> m = Inl e \<or> (\<exists>x. m = Inr x \<and> f x = Inl e)"
  by (cases m) auto

lemma if_Inl_eq_Inr [simp]:
  "(if b then Inl e else m) = Inr x \<longleftrightarrow> \<not> b \<and> m = Inr x"
  "(if b then m else Inl e) = Inr x \<longleftrightarrow> b \<and> m = Inr x"
  by auto

section \<open>Words\<close>

lemma unat_and_mask [word_facts]:
  "unat (w AND mask n :: 'a::len word) = unat w mod 2 ^ n"
  by (simp flip: take_bit_eq_mask add: unsigned_take_bit_eq) (simp add: take_bit_eq_mod)

lemma unat_add_lt [word_facts]:
  "unat a + unat b < 2 ^ LENGTH('a::len) \<Longrightarrow> unat (a + b :: 'a word) = unat a + unat b"
  by (simp add: unat_word_ariths)

lemma unat_mult_lt [word_facts]:
  "unat a * unat b < 2 ^ LENGTH('a::len) \<Longrightarrow> unat (a * b :: 'a word) = unat a * unat b"
  by (simp add: unat_word_ariths)

lemma unat_sub_le [word_facts]:
  "unat b \<le> unat a \<Longrightarrow> unat (a - b :: 'a::len word) = unat a - unat b"
  by (simp add: unat_sub word_le_nat_alt)

lemma unat_ucast_up [word_facts]:
  assumes "LENGTH('a::len) \<le> LENGTH('b::len)"
  shows "unat (ucast (a :: 'a word) :: 'b word) = unat a"
proof -
  have "unat a < 2 ^ LENGTH('a)" by (rule unsigned_less)
  also have "\<dots> \<le> 2 ^ LENGTH('b)" using assms by (simp add: power_increasing)
  finally show ?thesis by (simp add: unsigned_ucast_eq take_bit_nat_eq_self)
qed

lemma unat_of_nat_lt [word_facts]:
  "n < 2 ^ LENGTH('a::len) \<Longrightarrow> unat (of_nat n :: 'a word) = n"
  by (simp add: unsigned_of_nat take_bit_nat_eq_self)

lemma sint_small [word_facts]:
  assumes "unat (w :: u32) < 2 ^ 31"
  shows "sint w = int (unat w)"
proof -
  have "int (unat w) < int (2 ^ 31)" using assms by (simp only: of_nat_less_iff)
  then have "uint w < 2 ^ 31" by simp
  moreover have "- (2 ^ 31) \<le> uint w" by (rule order_trans [OF _ unsigned_greater_eq]) simp
  ultimately have "signed_take_bit 31 (uint w) = uint w" by (rule signed_take_bit_int_eq_self [rotated])
  then have "sint w = uint w" unfolding sint_uint by simp
  then show ?thesis by simp
qed

section \<open>Block arithmetic\<close>

lemma block_add:
  assumes "x mod M + c < (M :: nat)"
  shows "(x + c) div M = x div M" "(x + c) mod M = x mod M + c"
proof -
  have "x + c = M * (x div M) + (x mod M + c)" using mult_div_mod_eq [of M x] by simp
  moreover have "M \<noteq> 0" using assms by auto
  ultimately show "(x + c) div M = x div M" "(x + c) mod M = x mod M + c"
    using assms by (metis div_mult_self4 div_less add_0 add.right_neutral, metis mod_mult_self4 mod_less)
qed

lemma block_sub:
  assumes "c \<le> x mod (M :: nat)" "0 < M"
  shows "(x - c) div M = x div M" "(x - c) mod M = x mod M - c"
proof -
  have eq: "x - c = M * (x div M) + (x mod M - c)" using mult_div_mod_eq [of M x] assms(1) by linarith
  have "x mod M - c < M" using assms(2) by (simp add: less_imp_diff_less)
  then show "(x - c) div M = x div M" "(x - c) mod M = x mod M - c"
    unfolding eq using assms(2) by simp_all
qed

text \<open>A loop over a list whose body may fail.\<close>

fun each :: "('a \<Rightarrow> 's \<Rightarrow> 's res) \<Rightarrow> 'a list \<Rightarrow> 's \<Rightarrow> 's res" where
  "each f [] st = Inr st"
| "each f (x # xs) st = rbind (f x st) (each f xs)"

lemma each_append: "each f (xs @ ys) st = rbind (each f xs st) (each f ys)"
proof (induction xs arbitrary: st)
  case (Cons x xs)
  then show ?case by (cases "f x st") simp_all
qed simp

end
