(* ===== verification/Guid.thy ===== *)
theory Guid
  imports Prelude
begin

text \<open>
  Globally unique identifiers: the packed 64-bit layout of
  \<^verbatim>\<open>gas/guid.h\<close> and the key generator of \<^verbatim>\<open>gas/guid.c\<close>.
  A GUID holds an 8-bit type, a 16-bit rank and a 40-bit key.  During node start the
  keys are handed out downwards from \<open>2 ^ 40\<close>; afterwards every thread owns a block
  of \<^verbatim>\<open>keys_per_thread\<close> keys and one counter per rank and type.
\<close>

section \<open>Layout\<close>

datatype arts_type_t =
    ARTS_NULL | ARTS_EDT | ARTS_EVENT | ARTS_EPOCH | ARTS_CALLBACK | ARTS_BUFFER
  | ARTS_DB | ARTS_LAST_TYPE

fun type_code :: "arts_type_t \<Rightarrow> u32" where
  "type_code ARTS_NULL = 0"
| "type_code ARTS_EDT = 1"
| "type_code ARTS_EVENT = 2"
| "type_code ARTS_EPOCH = 3"
| "type_code ARTS_CALLBACK = 4"
| "type_code ARTS_BUFFER = 5"
| "type_code ARTS_DB = 6"
| "type_code ARTS_LAST_TYPE = 7"

definition ARTS_GUID_KEY_MASK :: u64 where
  "ARTS_GUID_KEY_MASK = push_bit 40 1 - 1"

definition ARTS_GUID_RANK_MASK :: u64 where
  "ARTS_GUID_RANK_MASK = push_bit 16 1 - 1"

definition ARTS_GUID_TYPE_MASK :: u64 where
  "ARTS_GUID_TYPE_MASK = push_bit 8 1 - 1"

definition ARTS_GUID_GET_KEY :: "arts_guid_t \<Rightarrow> u64" where
  "ARTS_GUID_GET_KEY g = g AND ARTS_GUID_KEY_MASK"

definition ARTS_GUID_GET_RANK :: "arts_guid_t \<Rightarrow> u64" where
  "ARTS_GUID_GET_RANK g = drop_bit 40 g AND ARTS_GUID_RANK_MASK"

definition ARTS_GUID_GET_TYPE :: "arts_guid_t \<Rightarrow> u64" where
  "ARTS_GUID_GET_TYPE g = drop_bit 56 g AND ARTS_GUID_TYPE_MASK"

definition ARTS_GUID_MAKE :: "u64 \<Rightarrow> u64 \<Rightarrow> u64 \<Rightarrow> arts_guid_t" where
  "ARTS_GUID_MAKE ty rank key =
     (key AND ARTS_GUID_KEY_MASK)
     OR push_bit 40 (rank AND ARTS_GUID_RANK_MASK)
     OR push_bit 56 (ty AND ARTS_GUID_TYPE_MASK)"

section \<open>Key generator\<close>

datatype arts_thread_role = ARTS_ROLE_WORKER | ARTS_ROLE_RECEIVER | ARTS_ROLE_SENDER

record node_cfg =
  worker_thread_count :: u32
  arts_global_rank_count :: u32
  arts_global_rank_id :: u32
  gpu :: u32

record thread_info =
  thread_id :: nat
  role :: arts_thread_role

record guid_state =
  num_tables :: u64
  keys_per_thread :: u64
  global_guid_on :: u64
  min_global_guid_thread :: u64
  max_global_guid_thread :: u64
  global_guid_thread_id :: "nat \<Rightarrow> u64"
  keys :: "nat \<Rightarrow> u64 list option"

definition guid_state_init :: guid_state where
  "guid_state_init =
     \<lparr> num_tables = 0, keys_per_thread = 0, global_guid_on = 0,
       min_global_guid_thread = 0, max_global_guid_thread = 0,
       global_guid_thread_id = (\<lambda>_. 0), keys = (\<lambda>_. None) \<rparr>"

definition set_global_guid_on :: "guid_state \<Rightarrow> guid_state" where
  "set_global_guid_on s = s\<lparr>global_guid_on := push_bit 40 1\<rparr>"

text \<open>The index of a counter in the key array of a thread, in 32-bit arithmetic.\<close>

definition arts_guid_generator_get_key :: "u32 \<Rightarrow> u32 \<Rightarrow> nat" where
  "arts_guid_generator_get_key route ty = unat (route * type_code ARTS_LAST_TYPE + ty)"

definition arts_guid_create_for_rank_internal ::
    "thread_info \<Rightarrow> u32 \<Rightarrow> u32 \<Rightarrow> u32 \<Rightarrow> guid_state \<Rightarrow> (guid_state \<times> arts_guid_t) res" where
  "arts_guid_create_for_rank_internal th route ty guid_count s =
     (if global_guid_on s \<noteq> 0 then
        (if global_guid_on s > ucast guid_count then
           let key = global_guid_on s - ucast guid_count
           in Inr (s\<lparr>global_guid_on := global_guid_on s - ucast guid_count\<rparr>,
                   ARTS_GUID_MAKE (ucast ty) (ucast route) key)
         else Inl ARTS_ERROR)
      else
        (case keys s (thread_id th) of
           None \<Rightarrow> Inl Null_Deref
         | Some ks \<Rightarrow>
             let i = arts_guid_generator_get_key route ty in
             if length ks \<le> i then Inl Out_Of_Bounds
             else
               let value = ks ! i in
               if value + ucast guid_count < keys_per_thread s then
                 let key = value + keys_per_thread s * global_guid_thread_id s (thread_id th)
                 in Inr (s\<lparr>keys := (keys s)(thread_id th \<mapsto> ks[i := value + ucast guid_count])\<rparr>,
                         ARTS_GUID_MAKE (ucast ty) (ucast route) key)
               else Inl ARTS_ERROR))"

definition arts_guid_create_for_rank ::
    "thread_info \<Rightarrow> u32 \<Rightarrow> u32 \<Rightarrow> guid_state \<Rightarrow> (guid_state \<times> arts_guid_t) res" where
  "arts_guid_create_for_rank th route ty s = arts_guid_create_for_rank_internal th route ty 1 s"

definition set_guid_generator_after_parallel_start ::
    "node_cfg \<Rightarrow> guid_state \<Rightarrow> guid_state res" where
  "set_guid_generator_after_parallel_start cfg s =
     (let num_of_tables = worker_thread_count cfg + 1;
          d = (ucast num_of_tables :: u64) * ucast (arts_global_rank_count cfg)
      in if d = 0 then Inl Div_By_Zero
         else Inr (s\<lparr>keys_per_thread := global_guid_on s div d, global_guid_on := 0\<rparr>))"

definition arts_guid_key_generator_init ::
    "node_cfg \<Rightarrow> thread_info \<Rightarrow> guid_state \<Rightarrow> guid_state" where
  "arts_guid_key_generator_init cfg th s =
     (let single = (arts_global_rank_count cfg = 1);
          nt = (if single then ucast (worker_thread_count cfg)
                else ucast (worker_thread_count cfg + 1));
          local_id = (if role th = ARTS_ROLE_WORKER then of_nat (thread_id th)
                      else ucast (worker_thread_count cfg));
          mn = nt * ucast (arts_global_rank_id cfg);
          mx = (if single then mn + nt else mn + nt - 1)
      in s\<lparr> num_tables := nt,
            min_global_guid_thread := mn,
            max_global_guid_thread := mx,
            global_guid_thread_id := (global_guid_thread_id s)(thread_id th := mn + local_id),
            keys := (keys s)(thread_id th \<mapsto>
              replicate (unat (type_code ARTS_LAST_TYPE * arts_global_rank_count cfg)) 1) \<rparr>)"

definition arts_guid_get_type :: "arts_guid_t \<Rightarrow> u32" where
  "arts_guid_get_type g = ucast (ARTS_GUID_GET_TYPE g)"

definition arts_guid_get_rank :: "arts_guid_t \<Rightarrow> u32" where
  "arts_guid_get_rank g = ucast (ARTS_GUID_GET_RANK g)"

definition arts_guid_is_local :: "node_cfg \<Rightarrow> arts_guid_t \<Rightarrow> bool" where
  "arts_guid_is_local cfg g \<longleftrightarrow> arts_global_rank_id cfg = arts_guid_get_rank g"

definition arts_guid_get_key :: "arts_guid_t \<Rightarrow> u64" where
  "arts_guid_get_key g = ARTS_GUID_GET_KEY g"

section \<open>Reservation\<close>

abbreviation ARTS_HINT_CURRENT_NODE :: u32 where
  "ARTS_HINT_CURRENT_NODE \<equiv> - 1"

definition valid_type :: "arts_type_t \<Rightarrow> bool" where
  "valid_type ty \<longleftrightarrow>
     type_code ARTS_NULL < type_code ty \<and> type_code ty < type_code ARTS_LAST_TYPE"

definition arts_guid_reserve ::
    "node_cfg \<Rightarrow> thread_info \<Rightarrow> arts_type_t \<Rightarrow> u32 \<Rightarrow> guid_state \<Rightarrow> (guid_state \<times> arts_guid_t) res" where
  "arts_guid_reserve cfg th ty route s =
     (let route = (if route = ARTS_HINT_CURRENT_NODE then arts_global_rank_id cfg else route)
      in if arts_global_rank_count cfg = 0 then Inl Div_By_Zero
         else
           let route = route mod arts_global_rank_count cfg
           in if valid_type ty then arts_guid_create_for_rank_internal th route (type_code ty) 1 s
              else Inr (s, NULL_GUID))"

text \<open>
  The loop of \<^verbatim>\<open>arts_guid_reserve_round_robin\<close> from index \<open>i\<close> on; it
  returns the entries of the array from there.
\<close>

fun reserve_round_robin_loop ::
    "node_cfg \<Rightarrow> thread_info \<Rightarrow> arts_type_t \<Rightarrow> nat \<Rightarrow> nat \<Rightarrow> guid_state
      \<Rightarrow> (guid_state \<times> arts_guid_t list) res" where
  "reserve_round_robin_loop cfg th ty i 0 s = Inr (s, [])"
| "reserve_round_robin_loop cfg th ty i (Suc n) s =
     (if arts_global_rank_count cfg = 0 then Inl Div_By_Zero
      else
        rbind (arts_guid_create_for_rank th (of_nat i mod arts_global_rank_count cfg) (type_code ty) s)
          (\<lambda>(s', g). rbind (reserve_round_robin_loop cfg th ty (Suc i) n s')
            (\<lambda>(s'', gs). Inr (s'', g # gs))))"

definition arts_guid_reserve_round_robin ::
    "node_cfg \<Rightarrow> thread_info \<Rightarrow> u32 \<Rightarrow> arts_type_t \<Rightarrow> guid_state
      \<Rightarrow> (guid_state \<times> arts_guid_t list option) res" where
  "arts_guid_reserve_round_robin cfg th sz ty s =
     (if valid_type ty then
        rbind (reserve_round_robin_loop cfg th ty 0 (unat sz) s) (\<lambda>(s', gs). Inr (s', Some gs))
      else Inr (s, None))"

definition arts_guid_reserve_range ::
    "node_cfg \<Rightarrow> thread_info \<Rightarrow> arts_type_t \<Rightarrow> u32 \<Rightarrow> u32 \<Rightarrow> guid_state
      \<Rightarrow> (guid_state \<times> arts_guid_t) res" where
  "arts_guid_reserve_range cfg th ty sz route s =
     (let route = (if route = ARTS_HINT_CURRENT_NODE then arts_global_rank_id cfg else route)
      in if sz \<noteq> 0 \<and> valid_type ty
         then arts_guid_create_for_rank_internal th route (type_code ty) sz s
         else Inr (s, NULL_GUID))"

text \<open>The alignment loop of \<^verbatim>\<open>arts_guid_reserve_range_hash\<close>: at most \<open>n\<close> increments.\<close>

fun hash_align :: "u32 \<Rightarrow> nat \<Rightarrow> arts_guid_t \<Rightarrow> arts_guid_t" where
  "hash_align hash_size 0 start = start"
| "hash_align hash_size (Suc n) start =
     (if ARTS_GUID_GET_KEY start mod ucast hash_size = 0 then start
      else hash_align hash_size n (start + 1))"

definition arts_guid_reserve_range_hash ::
    "thread_info \<Rightarrow> arts_type_t \<Rightarrow> u32 \<Rightarrow> u32 \<Rightarrow> u32 \<Rightarrow> guid_state
      \<Rightarrow> (guid_state \<times> arts_guid_t) res" where
  "arts_guid_reserve_range_hash th ty sz route hash_size s =
     (if sz \<noteq> 0 \<and> valid_type ty then
        rbind (arts_guid_create_for_rank_internal th route (type_code ty) (sz + hash_size) s)
          (\<lambda>(s', start). Inr (s', hash_align hash_size (unat hash_size) start))
      else Inr (s, NULL_GUID))"

definition arts_guid_from_index :: "arts_guid_t \<Rightarrow> u32 \<Rightarrow> arts_guid_t" where
  "arts_guid_from_index range_guid idx = range_guid + ucast idx"

definition arts_guid_index_from :: "arts_guid_t \<Rightarrow> arts_guid_t \<Rightarrow> int" where
  "arts_guid_index_from range_guid guid =
     (if ARTS_GUID_GET_TYPE range_guid \<noteq> ARTS_GUID_GET_TYPE guid then - 1
      else if ARTS_GUID_GET_RANK range_guid \<noteq> ARTS_GUID_GET_RANK guid then - 1
      else
        let start_key = ARTS_GUID_GET_KEY range_guid;
            check_key = ARTS_GUID_GET_KEY guid
        in if check_key < start_key then - 1
           else sint (ucast (check_key - start_key) :: u32))"

definition arts_guid_hash_key :: "node_cfg \<Rightarrow> arts_guid_t \<Rightarrow> u64 res" where
  "arts_guid_hash_key cfg guid =
     (if gpu cfg = 0 then Inl Div_By_Zero else Inr (arts_guid_get_key guid mod ucast (gpu cfg)))"

section \<open>Runs of the generator on a cluster\<close>

text \<open>
  A request is a call of the generator by a worker of a node.  A cluster is the
  generator state of every node; a run serves requests in any order.
\<close>

record guid_req =
  req_node :: nat
  req_thread :: nat
  req_route :: u32
  req_type :: arts_type_t
  req_count :: u32

type_synonym cluster = "nat \<Rightarrow> guid_state"

definition worker :: "nat \<Rightarrow> thread_info" where
  "worker t = \<lparr>thread_id = t, role = ARTS_ROLE_WORKER\<rparr>"

definition node_of :: "node_cfg \<Rightarrow> nat \<Rightarrow> node_cfg" where
  "node_of cfg n = cfg\<lparr>arts_global_rank_id := of_nat n\<rparr>"

text \<open>
  A node after start: every worker initialised its keys, the node reserved
  GUIDs until \<^verbatim>\<open>global_guid_on\<close> was \<open>on\<close>, and the generator switched to
  per-thread blocks.
\<close>

definition started_node :: "node_cfg \<Rightarrow> u64 \<Rightarrow> guid_state res" where
  "started_node cfg on =
     set_guid_generator_after_parallel_start cfg
       (fold (\<lambda>t. arts_guid_key_generator_init cfg (worker t)) [0..<unat (worker_thread_count cfg)]
         (guid_state_init\<lparr>global_guid_on := on\<rparr>))"

fun create_run :: "guid_req list \<Rightarrow> cluster \<Rightarrow> (cluster \<times> arts_guid_t list) res" where
  "create_run [] cl = Inr (cl, [])"
| "create_run (q # qs) cl =
     rbind (arts_guid_create_for_rank_internal (worker (req_thread q)) (req_route q)
              (type_code (req_type q)) (req_count q) (cl (req_node q)))
       (\<lambda>(s, g). rbind (create_run qs (cl(req_node q := s)))
         (\<lambda>(cl', gs). Inr (cl', g # gs)))"

definition guid_range :: "arts_guid_t \<Rightarrow> u32 \<Rightarrow> arts_guid_t set" where
  "guid_range g n = (\<lambda>i. g + of_nat i) ` {..<unat n}"

section \<open>Field access\<close>

lemma guid_masks [simp]:
  "ARTS_GUID_KEY_MASK = mask 40" "ARTS_GUID_RANK_MASK = mask 16" "ARTS_GUID_TYPE_MASK = mask 8"
  by (simp_all add: ARTS_GUID_KEY_MASK_def ARTS_GUID_RANK_MASK_def ARTS_GUID_TYPE_MASK_def
      mask_eq_decr_exp push_bit_eq_mult)

lemma guid_get_make [simp]:
  "ARTS_GUID_GET_KEY (ARTS_GUID_MAKE ty r k) = k AND mask 40"
  "ARTS_GUID_GET_RANK (ARTS_GUID_MAKE ty r k) = r AND mask 16"
  "ARTS_GUID_GET_TYPE (ARTS_GUID_MAKE ty r k) = ty AND mask 8"
  unfolding ARTS_GUID_GET_KEY_def ARTS_GUID_GET_RANK_def ARTS_GUID_GET_TYPE_def ARTS_GUID_MAKE_def guid_masks
  by (rule bit_word_eqI; force simp: bit_simps)+

lemma guid_make_get [simp]:
  "ARTS_GUID_MAKE (ARTS_GUID_GET_TYPE g) (ARTS_GUID_GET_RANK g) (ARTS_GUID_GET_KEY g) = g"
  unfolding ARTS_GUID_GET_KEY_def ARTS_GUID_GET_RANK_def ARTS_GUID_GET_TYPE_def ARTS_GUID_MAKE_def guid_masks
proof (rule bit_word_eqI, goal_cases)
  case (1 n)
  then show ?case by (cases "n < 56") (auto simp: bit_simps)
qed

lemma guid_make_split:
  "ARTS_GUID_MAKE ty r k = (k AND mask 40) + ARTS_GUID_MAKE ty r 0"
proof -
  have "(k AND mask 40) + ARTS_GUID_MAKE ty r 0 = (k AND mask 40) OR ARTS_GUID_MAKE ty r 0"
    unfolding ARTS_GUID_MAKE_def guid_masks
    by (rule disjunctive_add_eq_or, rule bit_word_eqI) (auto simp: bit_simps)
  then show ?thesis by (simp add: ARTS_GUID_MAKE_def or.assoc)
qed

lemma guid_make_add:
  assumes "unat k + i < 2 ^ 40"
  shows "ARTS_GUID_MAKE ty r k + of_nat i = ARTS_GUID_MAKE ty r (k + of_nat i)"
proof -
  have i: "unat (of_nat i :: u64) = i" using assms by (intro unat_of_nat_lt) simp
  have sum: "unat (k + of_nat i) = unat k + i"
    using assms by (subst unat_add_lt) (simp_all add: i)
  have "(k + of_nat i) AND mask 40 = (k AND mask 40) + of_nat i"
    using assms sum i by (simp add: word_unat_eq_iff unat_add_lt unat_and_mask)
  then show ?thesis by (subst (1 2) guid_make_split) simp
qed

lemma guid_make_inj:
  assumes "ARTS_GUID_MAKE ty r k = ARTS_GUID_MAKE ty' r' k'"
    and "unat k < 2 ^ 40" "unat k' < 2 ^ 40" "unat r < 2 ^ 16" "unat r' < 2 ^ 16"
      "unat ty < 2 ^ 8" "unat ty' < 2 ^ 8"
  shows "ty = ty' \<and> r = r' \<and> k = k'"
proof -
  have "k AND mask 40 = k' AND mask 40" "r AND mask 16 = r' AND mask 16"
    "ty AND mask 8 = ty' AND mask 8"
    using assms(1) by (metis guid_get_make)+
  then have "unat k = unat k'" "unat r = unat r'" "unat ty = unat ty'"
    using assms(2-) by (metis unat_and_mask mod_less)+
  then show ?thesis by (simp add: word_unat_eq_iff)
qed

section \<open>Invariant of a started node\<close>

definition cluster_cfg :: "node_cfg \<Rightarrow> bool" where
  "cluster_cfg cfg \<longleftrightarrow>
     0 < arts_global_rank_count cfg \<and> unat (arts_global_rank_count cfg) \<le> 2 ^ 16 \<and>
     unat (worker_thread_count cfg) + 1 < 2 ^ 32"

abbreviation nworkers :: "node_cfg \<Rightarrow> nat" where
  "nworkers cfg \<equiv> unat (worker_thread_count cfg)"

abbreviation nranks :: "node_cfg \<Rightarrow> nat" where
  "nranks cfg \<equiv> unat (arts_global_rank_count cfg)"

definition ntables :: "node_cfg \<Rightarrow> nat" where
  "ntables cfg = (if arts_global_rank_count cfg = 1 then nworkers cfg else nworkers cfg + 1)"

definition gid :: "node_cfg \<Rightarrow> nat \<Rightarrow> nat \<Rightarrow> nat" where
  "gid cfg n t = ntables cfg * n + t"

definition thread_ok :: "node_cfg \<Rightarrow> nat \<Rightarrow> guid_state \<Rightarrow> nat \<Rightarrow> bool" where
  "thread_ok cfg n s t \<longleftrightarrow>
     unat (global_guid_thread_id s t) = gid cfg n t \<and>
     (case keys s t of None \<Rightarrow> False
      | Some ks \<Rightarrow> length ks = 7 * nranks cfg \<and> (\<forall>v\<in>set ks. unat v \<le> 2 ^ 40))"

definition node_ok :: "node_cfg \<Rightarrow> u64 \<Rightarrow> nat \<Rightarrow> guid_state \<Rightarrow> bool" where
  "node_ok cfg K n s \<longleftrightarrow>
     global_guid_on s = 0 \<and> keys_per_thread s = K \<and>
     unat K * ((nworkers cfg + 1) * nranks cfg) \<le> 2 ^ 40 \<and>
     (\<forall>t < nworkers cfg. thread_ok cfg n s t)"

definition counter :: "guid_state \<Rightarrow> nat \<Rightarrow> u32 \<Rightarrow> arts_type_t \<Rightarrow> nat" where
  "counter s t route ty =
     (case keys s t of None \<Rightarrow> 0
      | Some ks \<Rightarrow> unat (ks ! (unat route * 7 + unat (type_code ty))))"

lemma type_code_lt: "unat (type_code ty) < 8"
  by (cases ty) simp_all

lemma type_code_inj [simp]: "type_code a = type_code b \<longleftrightarrow> a = b"
  by (cases a; cases b) simp_all

lemma valid_type_code: "valid_type ty \<Longrightarrow> unat (type_code ty) < 7"
  by (cases ty) (simp_all add: valid_type_def)

lemma key_index:
  assumes "unat route < 2 ^ 16"
  shows "arts_guid_generator_get_key route (type_code ty) = unat route * 7 + unat (type_code ty)"
proof -
  have "unat (route * 7) = unat route * 7"
    using assms by (subst unat_mult_lt) simp_all
  then show ?thesis
    using assms type_code_lt [of ty]
    by (simp add: arts_guid_generator_get_key_def) (subst unat_add_lt; simp)
qed

lemma key_index_inj:
  assumes "a * 7 + x = b * 7 + (y :: nat)" "x < 7" "y < 7"
  shows "a = b \<and> x = y"
  using assms by presburger

lemma gid_lt:
  assumes "n < nranks cfg" "t < nworkers cfg"
  shows "gid cfg n t + 1 \<le> (nworkers cfg + 1) * nranks cfg"
proof -
  have "gid cfg n t + 1 \<le> (nworkers cfg + 1) * (n + 1)"
    using assms by (auto simp: gid_def ntables_def algebra_simps)
  also have "\<dots> \<le> (nworkers cfg + 1) * nranks cfg"
    using assms(1) by (intro mult_le_mono) auto
  finally show ?thesis .
qed

lemma gid_inj:
  assumes "gid cfg n t = gid cfg n' t'" "t < nworkers cfg" "t' < nworkers cfg"
  shows "n = n' \<and> t = t'"
proof -
  have "t < ntables cfg" "t' < ntables cfg" using assms by (auto simp: ntables_def)
  then show ?thesis
    using assms(1) unfolding gid_def
    by (metis add.commute div_mult_self2 div_less mod_mult_self2 mod_less add_0 less_nat_zero_code)
qed

lemma init_thread_ok:
  assumes cfg: "cluster_cfg cfg" and n: "n < nranks cfg" and t: "t < nworkers cfg"
  shows "thread_ok cfg n (arts_guid_key_generator_init (node_of cfg n) (worker t) s) t"
proof -
  have r: "unat (of_nat n :: u32) = n" using cfg n by (intro unat_of_nat_lt) (simp add: cluster_cfg_def)
  have len: "unat (7 * arts_global_rank_count cfg) = 7 * nranks cfg"
    using cfg by (subst unat_mult_lt) (simp_all add: cluster_cfg_def)
  have w1: "unat (worker_thread_count cfg + 1) = nworkers cfg + 1"
    using cfg by (subst unat_add_lt) (simp_all add: cluster_cfg_def)
  let ?nt = "(if arts_global_rank_count cfg = 1 then ucast (worker_thread_count cfg)
      else ucast (worker_thread_count cfg + 1)) :: u64"
  have nt: "unat ?nt = ntables cfg" by (simp add: ntables_def unat_ucast_up w1)
  have nr: "unat (ucast (of_nat n :: u32) :: u64) = n" by (simp add: unat_ucast_up r)
  have nb: "ntables cfg \<le> 2 ^ 32" "n < 2 ^ 16"
    using cfg n by (auto simp: ntables_def cluster_cfg_def)
  have "ntables cfg * n \<le> 2 ^ 32 * 2 ^ 16" using nb by (intro mult_le_mono) auto
  moreover have "t < 2 ^ 32" using t cfg by (simp add: cluster_cfg_def)
  ultimately have "unat (?nt * ucast (of_nat n :: u32) + of_nat t) = gid cfg n t"
    by (subst unat_add_lt) (simp_all add: unat_mult_lt nt nr unat_of_nat_lt gid_def)
  then show ?thesis
    by (simp add: thread_ok_def arts_guid_key_generator_init_def worker_def node_of_def Let_def len
        split: if_splits)
qed

lemma init_other_thread:
  "t' \<noteq> t \<Longrightarrow>
   thread_ok cfg n (arts_guid_key_generator_init c (worker t) s) t' = thread_ok cfg n s t'"
  by (simp add: thread_ok_def arts_guid_key_generator_init_def worker_def Let_def)

lemma init_keeps_on [simp]:
  "global_guid_on (fold (\<lambda>t. arts_guid_key_generator_init c (worker t)) ts s) = global_guid_on s"
  by (induction ts arbitrary: s) (simp_all add: arts_guid_key_generator_init_def Let_def)

lemma init_all_threads:
  assumes "cluster_cfg cfg" "n < nranks cfg" "m \<le> nworkers cfg"
  shows "\<forall>t < m. thread_ok cfg n
      (fold (\<lambda>t. arts_guid_key_generator_init (node_of cfg n) (worker t)) [0..<m] s) t"
  using assms(3)
proof (induction m)
  case (Suc m)
  then show ?case
    using assms init_thread_ok [of cfg n m] by (auto simp: less_Suc_eq init_other_thread)
qed simp

lemma started_node_ok:
  assumes cfg: "cluster_cfg cfg" and n: "n < nranks cfg" and on: "unat on \<le> 2 ^ 40"
    and st: "started_node (node_of cfg n) on = Inr s"
  shows "node_ok cfg (on div (ucast (worker_thread_count cfg + 1) * ucast (arts_global_rank_count cfg))) n s"
proof -
  let ?d = "ucast (worker_thread_count cfg + 1) * ucast (arts_global_rank_count cfg) :: u64"
  have w1: "unat (worker_thread_count cfg + 1) = nworkers cfg + 1"
    using cfg by (subst unat_add_lt) (simp_all add: cluster_cfg_def)
  have "(nworkers cfg + 1) * nranks cfg \<le> 2 ^ 32 * 2 ^ 16"
    using cfg by (intro mult_le_mono) (simp_all add: cluster_cfg_def)
  then have d: "unat ?d = (nworkers cfg + 1) * nranks cfg"
    by (subst unat_mult_lt) (simp_all add: unat_ucast_up w1)
  have "unat on div unat ?d * unat ?d \<le> 2 ^ 40"
    using on by (rule order_trans [OF div_times_less_eq_dividend])
  then have K: "unat (on div ?d) * unat ?d \<le> 2 ^ 40" by (simp only: unat_div)
  define s0 where "s0 = fold (\<lambda>t. arts_guid_key_generator_init (node_of cfg n) (worker t))
      [0..<nworkers cfg] (guid_state_init\<lparr>global_guid_on := on\<rparr>)"
  have s0: "global_guid_on s0 = on" "\<forall>t < nworkers cfg. thread_ok cfg n s0 t"
    unfolding s0_def using init_all_threads [OF cfg n order_refl] by simp_all
  have "set_guid_generator_after_parallel_start (node_of cfg n) s0 = Inr s"
    using st by (simp add: started_node_def s0_def node_of_def)
  then have "s = s0\<lparr>keys_per_thread := on div ?d, global_guid_on := 0\<rparr>"
    using s0 by (simp add: set_guid_generator_after_parallel_start_def Let_def node_of_def)
  then show ?thesis using K s0 by (simp add: node_ok_def d thread_ok_def)
qed

lemma create_ok:
  assumes ok: "node_ok cfg K n s" and t: "t < nworkers cfg" and n: "n < nranks cfg"
    and route: "unat route < nranks cfg" "nranks cfg \<le> 2 ^ 16" and ty: "valid_type ty"
    and create: "arts_guid_create_for_rank_internal (worker t) route (type_code ty) c s = Inr (s', g)"
  shows "node_ok cfg K n s'"
    and "counter s t route ty + unat c < unat K"
    and "counter s' t route ty = counter s t route ty + unat c"
    and "\<And>t' r' ty'. unat r' < nranks cfg \<Longrightarrow> valid_type ty' \<Longrightarrow> (t', r', ty') \<noteq> (t, route, ty) \<Longrightarrow>
           counter s' t' r' ty' = counter s t' r' ty'"
    and "g = ARTS_GUID_MAKE (ucast (type_code ty)) (ucast route)
               (of_nat (counter s t route ty + unat K * gid cfg n t))"
proof -
  let ?i = "unat route * 7 + unat (type_code ty)"
  have idx: "arts_guid_generator_get_key route (type_code ty) = ?i"
    using route by (intro key_index) simp
  obtain ks where ks: "keys s t = Some ks" "length ks = 7 * nranks cfg" "\<forall>v\<in>set ks. unat v \<le> 2 ^ 40"
    and g: "unat (global_guid_thread_id s t) = gid cfg n t"
    using ok t by (auto simp: node_ok_def thread_ok_def split: option.splits)
  have K: "unat K \<le> 2 ^ 40"
  proof -
    have "unat K * 1 \<le> unat K * ((nworkers cfg + 1) * nranks cfg)" using n by (intro mult_le_mono) auto
    also have "\<dots> \<le> 2 ^ 40" using ok by (simp add: node_ok_def)
    finally show ?thesis by simp
  qed
  have i: "?i < length ks"
    using route valid_type_code [OF ty] ks(2) by linarith
  have on: "global_guid_on s = 0" and kpt: "keys_per_thread s = K" using ok by (auto simp: node_ok_def)
  have c: "unat (ucast c :: u64) = unat c" "unat c < 2 ^ 32"
    using unsigned_less [of c] by (simp_all add: unat_ucast_up)
  have v: "unat (ks ! ?i) \<le> 2 ^ 40" using ks i by simp
  have sum: "unat (ks ! ?i + ucast c) = unat (ks ! ?i) + unat c"
    using c v by (subst unat_add_lt) simp_all
  have s': "s' = s\<lparr>keys := (keys s)(t \<mapsto> ks[?i := ks ! ?i + ucast c])\<rparr>"
    and lt: "ks ! ?i + ucast c < K"
    and gd: "g = ARTS_GUID_MAKE (ucast (type_code ty)) (ucast route) (ks ! ?i + K * global_guid_thread_id s t)"
    using create ks(1) on kpt idx i by (auto simp: arts_guid_create_for_rank_internal_def worker_def Let_def split: if_splits)
  have lt': "unat (ks ! ?i) + unat c < unat K" using lt sum by (simp add: word_less_nat_alt)
  have cnt: "counter s t route ty = unat (ks ! ?i)" by (simp add: counter_def ks)
  show "counter s t route ty + unat c < unat K" using lt' cnt by simp
  show "counter s' t route ty = counter s t route ty + unat c"
    using i sum by (simp add: counter_def s' ks)
  show "counter s' t' r' ty' = counter s t' r' ty'"
    if "unat r' < nranks cfg" "valid_type ty'" "(t', r', ty') \<noteq> (t, route, ty)" for t' r' ty'
  proof (cases "t' = t")
    case True
    then have "unat r' * 7 + unat (type_code ty') \<noteq> ?i"
      using that key_index_inj valid_type_code [OF ty] valid_type_code [of ty']
      by (metis word_unat_eq_iff type_code_inj)
    then show ?thesis using True by (simp add: counter_def s' ks)
  qed (simp add: counter_def s')
  have "thread_ok cfg n s' t'" if "t' < nworkers cfg" for t'
  proof (cases "t' = t")
    case True
    have "\<forall>v\<in>set (ks[?i := ks ! ?i + ucast c]). unat v \<le> 2 ^ 40"
      using ks(3) lt' K sum set_update_subset_insert [of ks ?i "ks ! ?i + ucast c"] by force
    then show ?thesis using True g ks by (simp add: thread_ok_def s')
  next
    case False
    then show ?thesis using ok that by (simp add: node_ok_def thread_ok_def s')
  qed
  then show "node_ok cfg K n s'" using ok by (simp add: node_ok_def s')
  show "g = ARTS_GUID_MAKE (ucast (type_code ty)) (ucast route)
               (of_nat (counter s t route ty + unat K * gid cfg n t))"
    using gd by (simp add: cnt flip: g)
qed

section \<open>Uniqueness\<close>

definition req_ok :: "node_cfg \<Rightarrow> guid_req \<Rightarrow> bool" where
  "req_ok cfg q \<longleftrightarrow>
     req_node q < nranks cfg \<and> req_thread q < nworkers cfg \<and>
     unat (req_route q) < nranks cfg \<and> valid_type (req_type q)"

definition issued :: "node_cfg \<Rightarrow> nat \<Rightarrow> guid_req \<Rightarrow> nat \<Rightarrow> arts_guid_t \<Rightarrow> bool" where
  "issued cfg K q v g \<longleftrightarrow>
     v + unat (req_count q) < K \<and>
     g = ARTS_GUID_MAKE (ucast (type_code (req_type q))) (ucast (req_route q))
           (of_nat (v + K * gid cfg (req_node q) (req_thread q)))"

lemma issued_elem:
  assumes q: "req_ok cfg q" and cfg: "unat K * ((nworkers cfg + 1) * nranks cfg) \<le> 2 ^ 40"
    and g: "issued cfg (unat K) q v g" and x: "x \<in> guid_range g (req_count q)"
  shows "\<exists>k. v \<le> k \<and> k < v + unat (req_count q) \<and> k < unat K \<and>
     k + unat K * gid cfg (req_node q) (req_thread q) < 2 ^ 40 \<and>
     x = ARTS_GUID_MAKE (ucast (type_code (req_type q))) (ucast (req_route q))
           (of_nat (k + unat K * gid cfg (req_node q) (req_thread q)))"
proof -
  let ?a = "gid cfg (req_node q) (req_thread q)"
  obtain i where i: "i < unat (req_count q)" "x = g + of_nat i"
    using x by (auto simp: guid_range_def)
  have vK: "v + i < unat K" using i g by (simp add: issued_def)
  have "unat K * (?a + 1) \<le> unat K * ((nworkers cfg + 1) * nranks cfg)"
    using q by (intro mult_le_mono gid_lt) (auto simp: req_ok_def)
  then have bound: "v + i + unat K * ?a < 2 ^ 40" using cfg vK by (simp add: algebra_simps)
  then have "unat (of_nat (v + unat K * ?a) :: u64) = v + unat K * ?a"
    by (intro unat_of_nat_lt) simp
  then have "x = ARTS_GUID_MAKE (ucast (type_code (req_type q))) (ucast (req_route q))
       (of_nat (v + i + unat K * ?a))"
    using g i bound by (simp only: issued_def) (subst guid_make_add; simp add: algebra_simps)
  then show ?thesis using i vK bound by (intro exI [of _ "v + i"]) simp
qed

lemma block_separation:
  assumes "k + K * a = k' + K * (a' :: nat)" "k < K" "k' < K"
  shows "k = k' \<and> a = a'"
proof -
  have "(k + K * a) div K = a" "(k' + K * a') div K = a'" using assms(2,3) by simp_all
  then have "a = a'" using assms(1) by simp
  then show ?thesis using assms(1) by simp
qed

lemma ucast_u64_inj: "ucast (a :: u32) = (ucast b :: u64) \<Longrightarrow> a = b"
  using unat_ucast_up [where 'a = 32 and 'b = 64, of a] unat_ucast_up [where 'a = 32 and 'b = 64, of b]
  by (simp add: word_unat_eq_iff)

lemma issued_disjoint:
  assumes q: "req_ok cfg q" "req_ok cfg q'" and R: "nranks cfg \<le> 2 ^ 16"
    and K: "unat K * ((nworkers cfg + 1) * nranks cfg) \<le> 2 ^ 40"
    and g: "issued cfg (unat K) q v g" "issued cfg (unat K) q' v' g'"
    and sep: "(req_node q, req_thread q, req_route q, req_type q)
                = (req_node q', req_thread q', req_route q', req_type q') \<Longrightarrow> v + unat (req_count q) \<le> v'"
  shows "guid_range g (req_count q) \<inter> guid_range g' (req_count q') = {}"
proof (rule ccontr)
  assume "\<not> ?thesis"
  then obtain x where x: "x \<in> guid_range g (req_count q)" "x \<in> guid_range g' (req_count q')" by auto
  let ?a = "gid cfg (req_node q) (req_thread q)" and ?a' = "gid cfg (req_node q') (req_thread q')"
  obtain k where k: "v \<le> k" "k < v + unat (req_count q)" "k < unat K" "k + unat K * ?a < 2 ^ 40"
    "x = ARTS_GUID_MAKE (ucast (type_code (req_type q))) (ucast (req_route q)) (of_nat (k + unat K * ?a))"
    using issued_elem [OF q(1) K g(1) x(1)] by blast
  obtain k' where k': "v' \<le> k'" "k' < unat K" "k' + unat K * ?a' < 2 ^ 40"
    "x = ARTS_GUID_MAKE (ucast (type_code (req_type q'))) (ucast (req_route q')) (of_nat (k' + unat K * ?a'))"
    using issued_elem [OF q(2) K g(2) x(2)] by blast
  have bnd: "unat (ucast r :: u64) < 2 ^ 16" if "unat (r :: u32) < nranks cfg" for r
    using that R by (simp add: unat_ucast_up)
  have tb: "unat (ucast (type_code ty) :: u64) < 2 ^ 8" for ty
    using type_code_lt [of ty] by (simp add: unat_ucast_up)
  have nat: "unat (of_nat (k + unat K * ?a) :: u64) = k + unat K * ?a"
      "unat (of_nat (k' + unat K * ?a') :: u64) = k' + unat K * ?a'"
    using k(4) k'(3) by (intro unat_of_nat_lt; simp)+
  have eqs: "ucast (type_code (req_type q)) = (ucast (type_code (req_type q')) :: u64)
      \<and> ucast (req_route q) = (ucast (req_route q') :: u64)
      \<and> of_nat (k + unat K * ?a) = (of_nat (k' + unat K * ?a') :: u64)"
    using k(4,5) k'(3,4) q bnd tb nat by (intro guid_make_inj) (simp_all add: req_ok_def)
  then have "req_type q = req_type q'" "req_route q = req_route q'"
    using ucast_u64_inj type_code_inj by blast+
  moreover have "k + unat K * ?a = k' + unat K * ?a'" using eqs nat by metis
  then have "k = k'" "?a = ?a'" using block_separation k(3) k'(2) by blast+
  moreover have "req_node q = req_node q' \<and> req_thread q = req_thread q'"
    using gid_inj [OF \<open>?a = ?a'\<close>] q by (simp add: req_ok_def)
  ultimately show False using sep k k' by simp
qed

definition req_counter :: "cluster \<Rightarrow> guid_req \<Rightarrow> nat" where
  "req_counter cl q = counter (cl (req_node q)) (req_thread q) (req_route q) (req_type q)"

definition cluster_ok :: "node_cfg \<Rightarrow> u64 \<Rightarrow> cluster \<Rightarrow> bool" where
  "cluster_ok cfg K cl \<longleftrightarrow> (\<forall>n < nranks cfg. node_ok cfg K n (cl n))"

definition same_slot :: "guid_req \<Rightarrow> guid_req \<Rightarrow> bool" where
  "same_slot q p \<longleftrightarrow> (req_node q, req_thread q, req_route q, req_type q)
                   = (req_node p, req_thread p, req_route p, req_type p)"

abbreviation create :: "guid_req \<Rightarrow> cluster \<Rightarrow> (guid_state \<times> arts_guid_t) res" where
  "create q cl \<equiv> arts_guid_create_for_rank_internal (worker (req_thread q)) (req_route q)
      (type_code (req_type q)) (req_count q) (cl (req_node q))"

lemma cluster_ok_bound:
  "cluster_ok cfg K cl \<Longrightarrow> req_ok cfg q \<Longrightarrow> unat K * ((nworkers cfg + 1) * nranks cfg) \<le> 2 ^ 40"
  by (auto simp: cluster_ok_def node_ok_def req_ok_def)

lemma create_step:
  assumes cfg: "cluster_cfg cfg" and ok: "cluster_ok cfg K cl" and q: "req_ok cfg q"
    and c: "create q cl = Inr (s, g)"
  shows "cluster_ok cfg K (cl(req_node q := s))"
    and "issued cfg (unat K) q (req_counter cl q) g"
    and "\<And>p. req_ok cfg p \<Longrightarrow> req_counter (cl(req_node q := s)) p =
           (if same_slot q p then req_counter cl q + unat (req_count q) else req_counter cl p)"
proof -
  note st = create_ok [where n = "req_node q" and cfg = cfg and K = K, OF _ _ _ _ _ _ c]
  have pre: "node_ok cfg K (req_node q) (cl (req_node q))" "req_thread q < nworkers cfg" "req_node q < nranks cfg"
    "unat (req_route q) < nranks cfg" "nranks cfg \<le> 2 ^ 16" "valid_type (req_type q)"
    using q cfg ok by (simp_all add: req_ok_def cluster_cfg_def cluster_ok_def)
  show "cluster_ok cfg K (cl(req_node q := s))"
    using ok st(1) [OF pre] by (simp add: cluster_ok_def)
  show "issued cfg (unat K) q (req_counter cl q) g"
    using st(2) [OF pre] st(5) [OF pre] by (simp add: issued_def req_counter_def)
  show "req_counter (cl(req_node q := s)) p =
           (if same_slot q p then req_counter cl q + unat (req_count q) else req_counter cl p)"
    if "req_ok cfg p" for p
    using st(3) [OF pre] st(4) [OF pre, of "req_route p" "req_type p" "req_thread p"] that
    by (auto simp: req_counter_def same_slot_def req_ok_def)
qed

lemma create_run_issued:
  assumes "cluster_cfg cfg" "cluster_ok cfg K cl" "\<forall>q\<in>set qs. req_ok cfg q"
    and "create_run qs cl = Inr (cl', gs)"
  shows "list_all2 (\<lambda>q g. \<exists>v \<ge> req_counter cl q. issued cfg (unat K) q v g) qs gs"
  using assms(2-)
proof (induction qs arbitrary: cl gs)
  case (Cons q qs)
  then obtain s g gs' where c: "create q cl = Inr (s, g)"
    and r: "create_run qs (cl(req_node q := s)) = Inr (cl', gs')" and gs: "gs = g # gs'" by auto
  have q: "req_ok cfg q" using Cons.prems(2) by simp
  note st = create_step [OF assms(1) Cons.prems(1) q c]
  have "list_all2 (\<lambda>p g. \<exists>v \<ge> req_counter (cl(req_node q := s)) p. issued cfg (unat K) p v g) qs gs'"
    by (rule Cons.IH [OF st(1) _ r]) (use Cons.prems(2) in simp)
  moreover have "req_counter cl p \<le> req_counter (cl(req_node q := s)) p" if "req_ok cfg p" for p
    using st(3) [OF that] by (auto simp: same_slot_def req_counter_def)
  ultimately have "list_all2 (\<lambda>p g. \<exists>v \<ge> req_counter cl p. issued cfg (unat K) p v g) qs gs'"
    using Cons.prems(2) by (elim list.rel_mono_strong) (auto intro: order_trans)
  then show ?case using st(2) gs by auto
qed simp

lemma create_run_disjoint:
  assumes "cluster_cfg cfg" "cluster_ok cfg K cl" "\<forall>q\<in>set qs. req_ok cfg q"
    and "create_run qs cl = Inr (cl', gs)"
  shows "sorted_wrt (\<lambda>(q, g) (p, h). guid_range g (req_count q) \<inter> guid_range h (req_count p) = {}) (zip qs gs)"
  using assms(2-)
proof (induction qs arbitrary: cl gs)
  case (Cons q qs)
  then obtain s g gs' where c: "create q cl = Inr (s, g)"
    and r: "create_run qs (cl(req_node q := s)) = Inr (cl', gs')" and gs: "gs = g # gs'" by auto
  have q: "req_ok cfg q" and tl: "\<forall>q\<in>set qs. req_ok cfg q" using Cons.prems(2) by simp_all
  note st = create_step [OF assms(1) Cons.prems(1) q c]
  have later: "list_all2 (\<lambda>p h. \<exists>v \<ge> req_counter (cl(req_node q := s)) p. issued cfg (unat K) p v h) qs gs'"
    by (rule create_run_issued [OF assms(1) st(1) tl r])
  have "guid_range g (req_count q) \<inter> guid_range h (req_count p) = {}" if mem: "(p, h) \<in> set (zip qs gs')" for p h
  proof -
    have p: "req_ok cfg p" using mem tl by (meson set_zip_leftD)
    obtain v where v: "req_counter (cl(req_node q := s)) p \<le> v" "issued cfg (unat K) p v h"
      using later mem by (fastforce simp: list_all2_iff)
    show ?thesis
      using st(3) [OF p] v assms(1)
      by (intro issued_disjoint [OF q p _ cluster_ok_bound [OF Cons.prems(1) q] st(2) v(2)])
         (simp_all add: same_slot_def cluster_cfg_def)
  qed
  then show ?case using Cons.IH [OF st(1) tl r] gs by auto
qed simp

section \<open>The start phase\<close>

lemma guid_range_keys:
  assumes "k + unat c \<le> 2 ^ 40" "x \<in> guid_range (ARTS_GUID_MAKE ty r (of_nat k)) c"
  shows "k \<le> unat (ARTS_GUID_GET_KEY x) \<and> unat (ARTS_GUID_GET_KEY x) < k + unat c"
proof -
  obtain i where i: "i < unat c" "x = ARTS_GUID_MAKE ty r (of_nat k) + of_nat i"
    using assms(2) by (auto simp: guid_range_def)
  have k: "unat (of_nat k :: u64) = k" using assms(1) by (intro unat_of_nat_lt) simp
  have "x = ARTS_GUID_MAKE ty r (of_nat (k + i))"
    using i assms(1) k by (simp add: guid_make_add)
  then have "unat (ARTS_GUID_GET_KEY x) = unat (of_nat (k + i) :: u64) mod 2 ^ 40"
    by (simp only: guid_get_make unat_and_mask)
  also have "\<dots> = k + i"
    using i assms(1) by (subst unat_of_nat_lt) simp_all
  finally show ?thesis using i by simp
qed

definition start_keys :: "nat \<Rightarrow> nat \<Rightarrow> guid_req \<Rightarrow> arts_guid_t \<Rightarrow> bool" where
  "start_keys lo hi q g \<longleftrightarrow>
     (\<forall>x \<in> guid_range g (req_count q). lo \<le> unat (ARTS_GUID_GET_KEY x) \<and> unat (ARTS_GUID_GET_KEY x) < hi)"

abbreviation on_of :: "cluster \<Rightarrow> nat \<Rightarrow> nat" where
  "on_of cl n \<equiv> unat (global_guid_on (cl n))"

lemma start_step:
  assumes on: "global_guid_on (cl n) \<noteq> 0" "on_of cl n \<le> 2 ^ 40" and q: "req_node q = n"
    and c: "create q cl = Inr (s, g)"
  shows "global_guid_on s \<noteq> 0" "unat (global_guid_on s) \<le> on_of cl n"
    and "start_keys (unat (global_guid_on s)) (on_of cl n) q g"
proof -
  have cc: "unat (ucast (req_count q) :: u64) = unat (req_count q)" by (simp add: unat_ucast_up)
  have lt: "unat (req_count q) < on_of cl n"
    and s: "global_guid_on s = global_guid_on (cl n) - ucast (req_count q)"
    and g: "g = ARTS_GUID_MAKE (ucast (type_code (req_type q))) (ucast (req_route q)) (global_guid_on s)"
    using c on q cc by (auto simp: arts_guid_create_for_rank_internal_def Let_def word_less_nat_alt split: if_splits)
  have u: "unat (global_guid_on s) = on_of cl n - unat (req_count q)"
    using lt by (simp add: s unat_sub_le cc)
  show "global_guid_on s \<noteq> 0" "unat (global_guid_on s) \<le> on_of cl n"
    using u lt by (auto simp: unat_eq_0 [symmetric])
  have "g = ARTS_GUID_MAKE (ucast (type_code (req_type q))) (ucast (req_route q)) (of_nat (unat (global_guid_on s)))"
    by (simp add: g)
  then show "start_keys (unat (global_guid_on s)) (on_of cl n) q g"
    using guid_range_keys [of "unat (global_guid_on s)" "req_count q"] u lt on(2)
    by (auto simp: start_keys_def)
qed

lemma start_run:
  assumes "create_run ps cl = Inr (cl', hs)" "\<forall>p\<in>set ps. req_node p = n"
    and "global_guid_on (cl n) \<noteq> 0" "on_of cl n \<le> 2 ^ 40"
  shows "global_guid_on (cl' n) \<noteq> 0 \<and> on_of cl' n \<le> on_of cl n \<and>
    list_all2 (start_keys (on_of cl' n) (on_of cl n)) ps hs \<and>
    sorted_wrt (\<lambda>(q, g) (p, h). guid_range g (req_count q) \<inter> guid_range h (req_count p) = {}) (zip ps hs)"
  using assms
proof (induction ps arbitrary: cl hs)
  case (Cons p ps)
  then obtain s g hs' where c: "create p cl = Inr (s, g)"
    and r: "create_run ps (cl(req_node p := s)) = Inr (cl', hs')" and hs: "hs = g # hs'" by auto
  have n: "req_node p = n" using Cons.prems(2) by simp
  note st = start_step [OF Cons.prems(3,4) n c]
  note IH = Cons.IH [OF r _ _ _, unfolded n fun_upd_same]
  have ih: "global_guid_on (cl' n) \<noteq> 0" "on_of cl' n \<le> unat (global_guid_on s)"
    "list_all2 (start_keys (on_of cl' n) (unat (global_guid_on s))) ps hs'"
    "sorted_wrt (\<lambda>(q, g) (p, h). guid_range g (req_count q) \<inter> guid_range h (req_count p) = {}) (zip ps hs')"
    using IH st Cons.prems by simp_all
  have wide: "list_all2 (start_keys (on_of cl' n) (on_of cl n)) ps hs'"
    using ih(3) st(2) by (elim list.rel_mono_strong) (auto simp: start_keys_def)
  have "guid_range g (req_count p) \<inter> guid_range h (req_count q) = {}" if "(q, h) \<in> set (zip ps hs')" for q h
    using ih(3) st(3) that by (force simp: list_all2_iff start_keys_def)
  moreover have "start_keys (on_of cl' n) (on_of cl n) p g"
    using st(3) ih(2) by (auto simp: start_keys_def)
  ultimately show ?case using ih st(2) wide hs by auto
qed simp

lemma issued_key_lt:
  assumes q: "req_ok cfg q" and K: "unat K * ((nworkers cfg + 1) * nranks cfg) \<le> M" "M \<le> 2 ^ 40"
    and g: "issued cfg (unat K) q v g" and x: "x \<in> guid_range g (req_count q)"
  shows "unat (ARTS_GUID_GET_KEY x) < M"
proof -
  let ?a = "gid cfg (req_node q) (req_thread q)"
  have "unat K * (?a + 1) \<le> unat K * ((nworkers cfg + 1) * nranks cfg)"
    using q by (intro mult_le_mono gid_lt) (auto simp: req_ok_def)
  moreover have "v + unat (req_count q) < unat K" using g by (simp add: issued_def)
  ultimately have b: "v + unat K * ?a + unat (req_count q) < M" using K(1) by (simp add: algebra_simps)
  then show ?thesis
    using guid_range_keys [of "v + unat K * ?a" "req_count q" x] g x K(2) by (force simp: issued_def)
qed

definition started_cluster :: "node_cfg \<Rightarrow> u64 \<Rightarrow> cluster \<Rightarrow> bool" where
  "started_cluster cfg on cl \<longleftrightarrow> (\<forall>n < nranks cfg. started_node (node_of cfg n) on = Inr (cl n))"

lemma started_cluster_ok:
  assumes "cluster_cfg cfg" "unat on \<le> 2 ^ 40" "started_cluster cfg on cl"
  obtains K where "cluster_ok cfg K cl" "unat K * ((nworkers cfg + 1) * nranks cfg) \<le> unat on"
proof
  let ?d = "ucast (worker_thread_count cfg + 1) * ucast (arts_global_rank_count cfg) :: u64"
  show "cluster_ok cfg (on div ?d) cl"
    using started_node_ok [OF assms(1) _ assms(2)] assms(3) by (simp add: cluster_ok_def started_cluster_def)
  have w1: "unat (worker_thread_count cfg + 1) = nworkers cfg + 1"
    using assms(1) by (subst unat_add_lt) (simp_all add: cluster_cfg_def)
  have "(nworkers cfg + 1) * nranks cfg \<le> 2 ^ 32 * 2 ^ 16"
    using assms(1) by (intro mult_le_mono) (simp_all add: cluster_cfg_def)
  then have d: "unat ?d = (nworkers cfg + 1) * nranks cfg"
    by (subst unat_mult_lt) (simp_all add: unat_ucast_up w1)
  show "unat (on div ?d) * ((nworkers cfg + 1) * nranks cfg) \<le> unat on"
    unfolding d [symmetric] unat_div by (rule div_times_less_eq_dividend)
qed

section \<open>Ranges and alignment\<close>

lemma guid_get_add:
  assumes "unat (ARTS_GUID_GET_KEY g) + i < 2 ^ 40"
  shows "ARTS_GUID_GET_KEY (g + of_nat i) = ARTS_GUID_GET_KEY g + of_nat i"
    and "unat (ARTS_GUID_GET_KEY (g + of_nat i)) = unat (ARTS_GUID_GET_KEY g) + i"
    and "ARTS_GUID_GET_RANK (g + of_nat i) = ARTS_GUID_GET_RANK g"
    and "ARTS_GUID_GET_TYPE (g + of_nat i) = ARTS_GUID_GET_TYPE g"
proof -
  let ?k = "ARTS_GUID_GET_KEY g"
  have i: "unat (of_nat i :: u64) = i" using assms by (intro unat_of_nat_lt) simp
  have sum: "unat (?k + of_nat i) = unat ?k + i" using assms by (subst unat_add_lt) (simp_all add: i)
  have eq: "g + of_nat i = ARTS_GUID_MAKE (ARTS_GUID_GET_TYPE g) (ARTS_GUID_GET_RANK g) (?k + of_nat i)"
    using guid_make_add [OF assms, of "ARTS_GUID_GET_TYPE g" "ARTS_GUID_GET_RANK g"] by simp
  show k: "ARTS_GUID_GET_KEY (g + of_nat i) = ?k + of_nat i"
    using assms sum unfolding eq by (simp add: word_unat_eq_iff unat_and_mask)
  show "unat (ARTS_GUID_GET_KEY (g + of_nat i)) = unat ?k + i" by (simp add: k sum)
  show "ARTS_GUID_GET_RANK (g + of_nat i) = ARTS_GUID_GET_RANK g"
    "ARTS_GUID_GET_TYPE (g + of_nat i) = ARTS_GUID_GET_TYPE g"
    unfolding eq guid_get_make by (simp_all add: ARTS_GUID_GET_RANK_def ARTS_GUID_GET_TYPE_def and.assoc)
qed

lemma hash_align_offset:
  assumes "unat (ARTS_GUID_GET_KEY g) + n < 2 ^ 40" "m \<le> n"
    and "unat h dvd unat (ARTS_GUID_GET_KEY g) + m"
  shows "\<exists>i \<le> n. hash_align h n g = g + of_nat i \<and>
           unat h dvd unat (ARTS_GUID_GET_KEY (hash_align h n g))"
  using assms
proof (induction n arbitrary: g m)
  case (Suc n)
  have test: "ARTS_GUID_GET_KEY g mod ucast h = 0 \<longleftrightarrow> unat h dvd unat (ARTS_GUID_GET_KEY g)"
    by (simp only: word_unat_eq_iff unat_mod unat_ucast_up) (simp add: unat_ucast_up dvd_eq_mod_eq_0)
  show ?case
  proof (cases "unat h dvd unat (ARTS_GUID_GET_KEY g)")
    case True
    then show ?thesis using test by (intro exI [of _ 0]) simp
  next
    case False
    then obtain m' where m: "m = Suc m'" using Suc.prems(3) by (cases m) auto
    have k: "unat (ARTS_GUID_GET_KEY (g + 1)) = unat (ARTS_GUID_GET_KEY g) + 1"
      using guid_get_add(2) [of g 1] Suc.prems(1) by simp
    then obtain i where "i \<le> n" "hash_align h n (g + 1) = g + 1 + of_nat i"
      "unat h dvd unat (ARTS_GUID_GET_KEY (hash_align h n (g + 1)))"
      using Suc.IH [of "g + 1" m'] Suc.prems m by auto
    then show ?thesis using False test by (intro exI [of _ "Suc i"]) (simp add: algebra_simps)
  qed
qed simp

lemma next_multiple:
  assumes "0 < (h :: nat)"
  shows "\<exists>m < h. h dvd k + m"
proof (cases "k mod h = 0")
  case True
  then show ?thesis using assms by (auto intro: exI [of _ 0])
next
  case False
  have "k mod h < h" using assms by simp
  moreover have "k + (h - k mod h) = h * (k div h + 1)"
    using \<open>k mod h < h\<close> minus_mod_eq_mult_div [of k h] mod_less_eq_dividend [of k h]
    by (simp only: distrib_left mult_1_right)
  ultimately show ?thesis using False by (intro exI [of _ "h - k mod h"]) simp
qed

text \<open>A cluster of two nodes with two workers each, and requests on it.\<close>

definition demo_cfg :: node_cfg where
  "demo_cfg = \<lparr>worker_thread_count = 2, arts_global_rank_count = 2, arts_global_rank_id = 0, gpu = 0\<rparr>"

definition demo_req :: "nat \<Rightarrow> nat \<Rightarrow> u32 \<Rightarrow> guid_req" where
  "demo_req n t c = \<lparr>req_node = n, req_thread = t, req_route = 1, req_type = ARTS_DB, req_count = c\<rparr>"

definition demo_reqs :: "guid_req list" where
  "demo_reqs = [demo_req 0 0 3, demo_req 1 1 2, demo_req 0 0 4]"

definition demo_start :: "guid_req list" where
  "demo_start = [demo_req 0 0 5, demo_req 0 0 6]"

definition demo_on :: u64 where
  "demo_on = 1099511627765"

definition demo_cluster :: cluster where
  "demo_cluster n = (case started_node (node_of demo_cfg n) demo_on of Inr s \<Rightarrow> s | Inl _ \<Rightarrow> guid_state_init)"

section \<open>Properties\<close>

lemma run_result:
  "map_sum id snd (create_run qs cl) = Inr gs \<Longrightarrow> \<exists>cl'. create_run qs cl = Inr (cl', gs)"
  by (cases "create_run qs cl") auto

lemma demo_run:
  "map_sum id snd (create_run demo_reqs demo_cluster) =
     Inr [432346663739195393, 432347396746947233, 432346663739195396]"
  by code_simp

lemma demo_start_run:
  "map_sum id (map_prod (\<lambda>cl. global_guid_on (cl 0)) id)
     (create_run demo_start (\<lambda>_. set_global_guid_on guid_state_init)) =
     Inr (demo_on, [432347763250823163, 432347763250823157])"
  by code_simp

lemma demo_started: "started_cluster demo_cfg demo_on demo_cluster"
proof -
  have "started_node (node_of demo_cfg n) demo_on = Inr (demo_cluster n)" for n
    by (simp add: demo_cluster_def started_node_def set_guid_generator_after_parallel_start_def
        node_of_def demo_cfg_def Let_def)
  then show ?thesis by (simp add: started_cluster_def)
qed

lemma demo_cfg_ok: "cluster_cfg demo_cfg" "unat demo_on \<le> 2 ^ 40" "\<forall>q\<in>set demo_reqs. req_ok demo_cfg q"
  by (simp_all add: cluster_cfg_def demo_cfg_def demo_on_def demo_reqs_def demo_req_def req_ok_def valid_type_def)

text \<open>
  C7.  After node start, the GUID ranges that the workers of all nodes create, in any
  interleaving and for any routes, types and counts, are pairwise disjoint: no
  identifier of the cluster is issued twice.
\<close>

theorem guids_unique_after_start:
  assumes "cluster_cfg cfg" "unat on \<le> 2 ^ 40" "started_cluster cfg on cl"
    and "\<forall>q\<in>set qs. req_ok cfg q" "create_run qs cl = Inr (cl', gs)"
    and "i < j" "j < length qs"
  shows "guid_range (gs ! i) (req_count (qs ! i)) \<inter> guid_range (gs ! j) (req_count (qs ! j)) = {}"
proof -
  obtain K where ok: "cluster_ok cfg K cl" using started_cluster_ok [OF assms(1-3)] by blast
  have len: "length gs = length qs"
    using create_run_issued [OF assms(1) ok assms(4,5)] by (simp add: list_all2_lengthD)
  show ?thesis
    using create_run_disjoint [OF assms(1) ok assms(4,5)] assms(6,7) len
    by (auto simp: sorted_wrt_iff_nth_less)
qed

theorem guids_unique_after_start_witness:
  "guid_range 432346663739195393 3 \<inter> guid_range 432346663739195396 4 = {}"
proof -
  obtain cl' where "create_run demo_reqs demo_cluster
      = Inr (cl', [432346663739195393, 432347396746947233, 432346663739195396])"
    using run_result [OF demo_run] by blast
  from guids_unique_after_start [OF demo_cfg_ok(1,2) demo_started demo_cfg_ok(3) this, of 0 2]
  show ?thesis by (simp add: demo_reqs_def demo_req_def)
qed

text \<open>
  C14.  The GUIDs a node reserves during its start phase, counting down from
  \<open>2 ^ 40\<close>, are pairwise disjoint, and no worker of any node issues one of them after
  the switch to per-thread key blocks.
\<close>

theorem start_guids_never_reissued:
  assumes "cluster_cfg cfg"
    and "create_run ps (\<lambda>_. set_global_guid_on guid_state_init) = Inr (cl0, hs)"
    and "\<forall>p\<in>set ps. req_node p = n"
    and "started_cluster cfg (global_guid_on (cl0 n)) cl"
    and "\<forall>q\<in>set qs. req_ok cfg q" "create_run qs cl = Inr (cl', gs)"
  shows "(\<forall>i j. i < j \<and> j < length ps \<longrightarrow>
            guid_range (hs ! i) (req_count (ps ! i)) \<inter> guid_range (hs ! j) (req_count (ps ! j)) = {}) \<and>
         (\<forall>i j. i < length ps \<and> j < length qs \<longrightarrow>
            guid_range (hs ! i) (req_count (ps ! i)) \<inter> guid_range (gs ! j) (req_count (qs ! j)) = {})"
proof -
  let ?on = "global_guid_on (cl0 n)"
  have on0: "on_of (\<lambda>_. set_global_guid_on guid_state_init) n = 2 ^ 40"
    by (simp add: set_global_guid_on_def push_bit_eq_mult)
  have ne: "global_guid_on (set_global_guid_on guid_state_init) \<noteq> 0"
    by (simp add: set_global_guid_on_def push_bit_eq_mult)
  have st: "unat ?on \<le> 2 ^ 40" "list_all2 (start_keys (unat ?on) (2 ^ 40)) ps hs"
    "sorted_wrt (\<lambda>(q, g) (p, h). guid_range g (req_count q) \<inter> guid_range h (req_count p) = {}) (zip ps hs)"
    using start_run [OF assms(2,3) ne] on0 by simp_all
  obtain K where ok: "cluster_ok cfg K cl" and K: "unat K * ((nworkers cfg + 1) * nranks cfg) \<le> unat ?on"
    using started_cluster_ok [OF assms(1) st(1) assms(4)] by blast
  have iss: "list_all2 (\<lambda>q g. \<exists>v \<ge> req_counter cl q. issued cfg (unat K) q v g) qs gs"
    by (rule create_run_issued [OF assms(1) ok assms(5,6)])
  have "guid_range (hs ! i) (req_count (ps ! i)) \<inter> guid_range (gs ! j) (req_count (qs ! j)) = {}"
    if ij: "i < length ps" "j < length qs" for i j
  proof -
    have "start_keys (unat ?on) (2 ^ 40) (ps ! i) (hs ! i)" using st(2) ij by (simp add: list_all2_conv_all_nth)
    moreover obtain v where "issued cfg (unat K) (qs ! j) v (gs ! j)"
      using iss ij by (auto simp: list_all2_conv_all_nth)
    moreover have "req_ok cfg (qs ! j)" using assms(5) ij by simp
    ultimately show ?thesis
      using issued_key_lt [OF _ K st(1)] by (fastforce simp: start_keys_def)
  qed
  moreover have "length hs = length ps" using st(2) by (simp add: list_all2_lengthD)
  ultimately show ?thesis using st(3) by (auto simp: sorted_wrt_iff_nth_less)
qed

theorem start_guids_never_reissued_witness:
  "guid_range 432347763250823163 5 \<inter> guid_range 432347763250823157 6 = {} \<and>
   guid_range 432347763250823157 6 \<inter> guid_range 432347396746947233 2 = {}"
proof -
  obtain cl0 where c0: "create_run demo_start (\<lambda>_. set_global_guid_on guid_state_init)
      = Inr (cl0, [432347763250823163, 432347763250823157])" "global_guid_on (cl0 0) = demo_on"
    using demo_start_run by (cases "create_run demo_start (\<lambda>_. set_global_guid_on guid_state_init)") auto
  obtain cl' where c1: "create_run demo_reqs demo_cluster
      = Inr (cl', [432346663739195393, 432347396746947233, 432346663739195396])"
    using run_result [OF demo_run] by blast
  have n: "\<forall>p\<in>set demo_start. req_node p = 0" by (simp add: demo_start_def demo_req_def)
  note main = start_guids_never_reissued [OF demo_cfg_ok(1) c0(1) n _ demo_cfg_ok(3) c1,
      unfolded c0(2), OF demo_started]
  from main [THEN conjunct1, rule_format, of 0 1] main [THEN conjunct2, rule_format, of 1 1]
  show ?thesis by (simp add: demo_start_def demo_reqs_def demo_req_def)
qed

text \<open>
  The GUID layout is a bijection with its three fields: packing reads back type,
  rank and key truncated to 8, 16 and 40 bits, and packing the fields of any GUID
  gives that GUID.
\<close>

theorem guid_layout_roundtrip:
  "unat (ARTS_GUID_GET_TYPE (ARTS_GUID_MAKE ty r k)) = unat ty mod 2 ^ 8 \<and>
   unat (ARTS_GUID_GET_RANK (ARTS_GUID_MAKE ty r k)) = unat r mod 2 ^ 16 \<and>
   unat (ARTS_GUID_GET_KEY (ARTS_GUID_MAKE ty r k)) = unat k mod 2 ^ 40 \<and>
   ARTS_GUID_MAKE (ARTS_GUID_GET_TYPE g) (ARTS_GUID_GET_RANK g) (ARTS_GUID_GET_KEY g) = g"
  by (simp only: guid_get_make unat_and_mask guid_make_get)



text \<open>
  C16.  A hash-aligned reservation returns a start whose key is a multiple of
  \<^verbatim>\<open>hash_size\<close>, and the \<open>size\<close> GUIDs from there lie inside the range the generator
  handed out for this call.
\<close>

theorem reserve_range_hash_aligned:
  assumes "arts_guid_create_for_rank_internal th route (type_code ty) (sz + h) s = Inr (s', start)"
    and "valid_type ty" "sz \<noteq> 0" "h \<noteq> 0" "unat sz + unat h < 2 ^ 32"
    and "unat (ARTS_GUID_GET_KEY start) + unat (sz + h) \<le> 2 ^ 40"
  shows "\<exists>g. arts_guid_reserve_range_hash th ty sz route h s = Inr (s', g) \<and>
           unat h dvd unat (ARTS_GUID_GET_KEY g) \<and>
           guid_range g sz \<subseteq> guid_range start (sz + h)"
proof -
  have n: "unat (sz + h) = unat sz + unat h" using assms(5) by (simp add: unat_add_lt)
  have pos: "0 < unat h" "0 < unat sz" using assms(3,4) by (simp_all add: unat_gt_0)
  obtain m where "m < unat h" "unat h dvd unat (ARTS_GUID_GET_KEY start) + m"
    using next_multiple [OF pos(1)] by blast
  then obtain i where i: "i \<le> unat h" "hash_align h (unat h) start = start + of_nat i"
    "unat h dvd unat (ARTS_GUID_GET_KEY (hash_align h (unat h) start))"
    using hash_align_offset [of start "unat h" m h] assms(6) n pos by auto
  have "guid_range (start + of_nat i) sz \<subseteq> guid_range start (sz + h)"
  proof
    fix x assume "x \<in> guid_range (start + of_nat i) sz"
    then obtain j where "j < unat sz" "x = start + of_nat (i + j)" by (auto simp: guid_range_def algebra_simps)
    then show "x \<in> guid_range start (sz + h)" using i(1) n unfolding guid_range_def by (intro image_eqI [of _ _ "i + j"]) auto
  qed
  then show ?thesis using assms(1-3) i by (simp add: arts_guid_reserve_range_hash_def)
qed

theorem reserve_range_hash_aligned_witness:
  "\<exists>s' g. arts_guid_reserve_range_hash (worker 0) ARTS_DB 10 1 8 (demo_cluster 0) = Inr (s', g) \<and>
     8 dvd unat (ARTS_GUID_GET_KEY g)"
proof -
  have "map_sum id snd (arts_guid_create_for_rank_internal (worker 0) 1 (type_code ARTS_DB) (10 + 8) (demo_cluster 0))
      = Inr 432346663739195393" by code_simp
  then obtain s' where "arts_guid_create_for_rank_internal (worker 0) 1 (type_code ARTS_DB) (10 + 8) (demo_cluster 0)
      = Inr (s', 432346663739195393)"
    by (cases "arts_guid_create_for_rank_internal (worker 0) 1 (type_code ARTS_DB) (10 + 8) (demo_cluster 0)") auto
  from reserve_range_hash_aligned [OF this]
  show ?thesis by (auto simp: valid_type_def ARTS_GUID_GET_KEY_def unat_and_mask)
qed

end
