(* ===== verification/Atomics.thy ===== *)
theory Atomics
  imports Prelude
begin

text \<open>
  The atomic read-modify-write primitives of \<^verbatim>\<open>utils/atomics.c\<close> as functions
  from the old memory cell to the new one and the returned value, and the two lock
  protocols built on them as step relations over any number of threads.  Each atomic
  access is one step; accesses of different threads interleave arbitrarily
  (sequentially consistent memory).
\<close>

section \<open>Read-modify-write primitives\<close>

definition arts_atomic_swap :: "u32 \<Rightarrow> u32 \<Rightarrow> u32 \<times> u32" where
  "arts_atomic_swap dest swap_in = (swap_in, dest)"

definition arts_atomic_swap_u64 :: "u64 \<Rightarrow> u64 \<Rightarrow> u64 \<times> u64" where
  "arts_atomic_swap_u64 dest swap_in = (swap_in, dest)"

definition arts_atomic_swap_ptr :: "'p option \<Rightarrow> 'p option \<Rightarrow> 'p option \<times> 'p option" where
  "arts_atomic_swap_ptr dest swap_in = (swap_in, dest)"

definition arts_atomic_add :: "u32 \<Rightarrow> u32 \<Rightarrow> u32 \<times> u32" where
  "arts_atomic_add dest add_val = (dest + add_val, dest + add_val)"

definition arts_atomic_fetch_add :: "u32 \<Rightarrow> u32 \<Rightarrow> u32 \<times> u32" where
  "arts_atomic_fetch_add dest add_val = (dest + add_val, dest)"

definition arts_atomic_fetch_add_u64 :: "u64 \<Rightarrow> u64 \<Rightarrow> u64 \<times> u64" where
  "arts_atomic_fetch_add_u64 dest add_val = (dest + add_val, dest)"

definition arts_atomic_fetch_sub_u64 :: "u64 \<Rightarrow> u64 \<Rightarrow> u64 \<times> u64" where
  "arts_atomic_fetch_sub_u64 dest sub_val = (dest - sub_val, dest)"

definition arts_atomic_add_u64 :: "u64 \<Rightarrow> u64 \<Rightarrow> u64 \<times> u64" where
  "arts_atomic_add_u64 dest add_val = (dest + add_val, dest + add_val)"

definition arts_atomic_sub_u64 :: "u64 \<Rightarrow> u64 \<Rightarrow> u64 \<times> u64" where
  "arts_atomic_sub_u64 dest sub_val = (dest - sub_val, dest - sub_val)"

definition arts_atomic_sub :: "u32 \<Rightarrow> u32 \<Rightarrow> u32 \<times> u32" where
  "arts_atomic_sub dest sub_val = (dest - sub_val, dest - sub_val)"

definition arts_atomic_cswap :: "u32 \<Rightarrow> u32 \<Rightarrow> u32 \<Rightarrow> u32 \<times> u32" where
  "arts_atomic_cswap dest old_val swap_in = (if dest = old_val then swap_in else dest, dest)"

definition arts_atomic_cswap_u64 :: "u64 \<Rightarrow> u64 \<Rightarrow> u64 \<Rightarrow> u64 \<times> u64" where
  "arts_atomic_cswap_u64 dest old_val swap_in = (if dest = old_val then swap_in else dest, dest)"

definition arts_atomic_cswap_ptr :: "'p option \<Rightarrow> 'p option \<Rightarrow> 'p option \<Rightarrow> 'p option \<times> 'p option" where
  "arts_atomic_cswap_ptr dest old_val swap_in = (if dest = old_val then swap_in else dest, dest)"

definition arts_atomic_swap_bool :: "bool \<Rightarrow> bool \<Rightarrow> bool \<times> bool" where
  "arts_atomic_swap_bool dest value = (value, dest)"

definition arts_atomic_fetch_and_u64 :: "u64 \<Rightarrow> u64 \<Rightarrow> u64 \<times> u64" where
  "arts_atomic_fetch_and_u64 dest v = (dest AND v, dest)"

definition arts_atomic_fetch_or_u64 :: "u64 \<Rightarrow> u64 \<Rightarrow> u64 \<times> u64" where
  "arts_atomic_fetch_or_u64 dest v = (dest OR v, dest)"

definition arts_atomic_fetch_x_or_u64 :: "u64 \<Rightarrow> u64 \<Rightarrow> u64 \<times> u64" where
  "arts_atomic_fetch_x_or_u64 dest v = (dest XOR v, dest)"

definition arts_atomic_fetch_or :: "u32 \<Rightarrow> u32 \<Rightarrow> u32 \<times> u32" where
  "arts_atomic_fetch_or dest v = (dest OR v, dest)"

definition arts_atomic_fetch_and :: "u32 \<Rightarrow> u32 \<Rightarrow> u32 \<times> u32" where
  "arts_atomic_fetch_and dest v = (dest AND v, dest)"

lemmas atomic_defs [arts_defs] =
  arts_atomic_swap_def arts_atomic_swap_u64_def arts_atomic_swap_ptr_def arts_atomic_add_def
  arts_atomic_fetch_add_def arts_atomic_fetch_add_u64_def arts_atomic_fetch_sub_u64_def
  arts_atomic_add_u64_def arts_atomic_sub_u64_def arts_atomic_sub_def arts_atomic_cswap_def
  arts_atomic_cswap_u64_def arts_atomic_cswap_ptr_def arts_atomic_swap_bool_def
  arts_atomic_fetch_and_u64_def arts_atomic_fetch_or_u64_def arts_atomic_fetch_x_or_u64_def
  arts_atomic_fetch_or_def arts_atomic_fetch_and_def

section \<open>The spin lock\<close>

text \<open>
  Sequential view: with no other thread running, \<^verbatim>\<open>arts_lock\<close> takes a free lock
  at once and spins forever on a taken one.
\<close>

definition arts_lock :: "u32 \<Rightarrow> u32 res" where
  "arts_lock lock =
     (case arts_atomic_cswap lock 0 1 of
        (lock', old) \<Rightarrow> if lock = 0 \<and> old = 0 then Inr lock' else Inl Spins_Forever)"

definition arts_unlock :: "u32 \<Rightarrow> u32" where
  "arts_unlock lock = 0"

definition arts_try_lock :: "u32 \<Rightarrow> u32 \<times> bool" where
  "arts_try_lock lock = (case arts_atomic_cswap lock 0 1 of (lock', old) \<Rightarrow> (lock', old = 0))"

text \<open>
  Concurrent view: the program counter of a thread inside \<^verbatim>\<open>arts_lock\<close>,
  \<^verbatim>\<open>arts_try_lock\<close> and \<^verbatim>\<open>arts_unlock\<close>.  \<open>L_Load\<close> is about to load the lock,
  \<open>L_Cas\<close> about to swap it, \<open>L_Spin\<close> inside the back-off loop.
\<close>

datatype lock_pc =
    L_Idle
  | L_Load u32
  | L_Cas u32
  | L_Spin u32 u32
  | L_Held

record lock_sys =
  lock :: u32
  pc :: "nat \<Rightarrow> lock_pc"

definition lock_init :: lock_sys where
  "lock_init = \<lparr>lock = 0, pc = (\<lambda>_. L_Idle)\<rparr>"

definition next_backoff :: "u32 \<Rightarrow> u32" where
  "next_backoff b = (if b < 64 then push_bit 1 b else b)"

inductive lock_step :: "nat \<Rightarrow> lock_sys \<Rightarrow> lock_sys \<Rightarrow> bool" for t where
  lock_call: "pc s t = L_Idle \<Longrightarrow> lock_step t s (s\<lparr>pc := (pc s)(t := L_Load 1)\<rparr>)"
| lock_load_free: "pc s t = L_Load b \<Longrightarrow> lock s = 0 \<Longrightarrow> lock_step t s (s\<lparr>pc := (pc s)(t := L_Cas b)\<rparr>)"
| lock_load_busy: "pc s t = L_Load b \<Longrightarrow> lock s \<noteq> 0 \<Longrightarrow> lock_step t s (s\<lparr>pc := (pc s)(t := L_Spin 0 b)\<rparr>)"
| lock_cas_won: "pc s t = L_Cas b \<Longrightarrow> arts_atomic_cswap (lock s) 0 1 = (l, 0) \<Longrightarrow>
    lock_step t s (s\<lparr>lock := l, pc := (pc s)(t := L_Held)\<rparr>)"
| lock_cas_lost: "pc s t = L_Cas b \<Longrightarrow> arts_atomic_cswap (lock s) 0 1 = (l, v) \<Longrightarrow> v \<noteq> 0 \<Longrightarrow>
    lock_step t s (s\<lparr>lock := l, pc := (pc s)(t := L_Spin 0 b)\<rparr>)"
| lock_pause: "pc s t = L_Spin i b \<Longrightarrow> i < b \<Longrightarrow> lock_step t s (s\<lparr>pc := (pc s)(t := L_Spin (i + 1) b)\<rparr>)"
| lock_retry: "pc s t = L_Spin i b \<Longrightarrow> \<not> i < b \<Longrightarrow>
    lock_step t s (s\<lparr>pc := (pc s)(t := L_Load (next_backoff b))\<rparr>)"
| lock_try: "pc s t = L_Idle \<Longrightarrow> arts_try_lock (lock s) = (l, got) \<Longrightarrow>
    lock_step t s (s\<lparr>lock := l, pc := (pc s)(t := if got then L_Held else L_Idle)\<rparr>)"
| lock_release: "pc s t = L_Held \<Longrightarrow>
    lock_step t s (s\<lparr>lock := arts_unlock (lock s), pc := (pc s)(t := L_Idle)\<rparr>)"

inductive lock_reachable :: "lock_sys \<Rightarrow> bool" where
  lock_start: "lock_reachable lock_init"
| lock_move: "lock_reachable s \<Longrightarrow> lock_step t s s' \<Longrightarrow> lock_reachable s'"

text \<open>The holder of the lock determines its word and every thread's claim to hold it.\<close>

definition held_by :: "nat option \<Rightarrow> lock_sys \<Rightarrow> bool" where
  "held_by h s \<longleftrightarrow> lock s = (if h = None then 0 else 1) \<and> (\<forall>t. pc s t = L_Held \<longleftrightarrow> h = Some t)"

lemma held_by_step:
  assumes "lock_step t s s'" "held_by h s"
  shows "held_by (if pc s' t = L_Held then Some t else if pc s t = L_Held then None else h) s'"
proof -
  have t: "pc s t = L_Held \<longleftrightarrow> h = Some t" using assms(2) by (simp add: held_by_def)
  from assms(1) show ?thesis
    using assms(2) t
    by cases (auto simp: held_by_def arts_atomic_cswap_def arts_try_lock_def arts_unlock_def split: if_splits)
qed

lemma lock_reachable_held: "lock_reachable s \<Longrightarrow> \<exists>h. held_by h s"
proof (induction rule: lock_reachable.induct)
  case lock_start
  then show ?case by (intro exI [of _ None]) (simp add: held_by_def lock_init_def)
next
  case (lock_move s t s')
  then show ?case using held_by_step by blast
qed

definition backoff_ok :: "u32 \<Rightarrow> bool" where
  "backoff_ok b \<longleftrightarrow> b \<in> {1, 2, 4, 8, 16, 32, 64}"

fun pc_backoff :: "lock_pc \<Rightarrow> bool" where
  "pc_backoff (L_Load b) = backoff_ok b"
| "pc_backoff (L_Cas b) = backoff_ok b"
| "pc_backoff (L_Spin i b) = (backoff_ok b \<and> i \<le> b)"
| "pc_backoff _ = True"

lemma next_backoff_ok: "backoff_ok b \<Longrightarrow> backoff_ok (next_backoff b)"
  by (auto simp: backoff_ok_def next_backoff_def)

lemma spin_step: "(i :: u32) < b \<Longrightarrow> i + 1 \<le> b"
  by (simp add: inc_le)

lemma backoff_ok_1 [simp]: "backoff_ok 1"
  by (simp add: backoff_ok_def)

lemma pc_backoff_step:
  assumes "lock_step t s s'" "\<forall>u. pc_backoff (pc s u)"
  shows "\<forall>u. pc_backoff (pc s' u)"
proof -
  have t: "pc_backoff (pc s t)" using assms(2) by simp
  from assms(1) show ?thesis
    using assms(2) t by cases (auto simp: next_backoff_ok spin_step)
qed

lemma lock_reachable_backoff: "lock_reachable s \<Longrightarrow> \<forall>u. pc_backoff (pc s u)"
proof (induction rule: lock_reachable.induct)
  case (lock_move s t s')
  then show ?case using pc_backoff_step by blast
qed (simp add: lock_init_def)

text \<open>Steps of one thread alone, while the others rest.\<close>

inductive lock_solo :: "nat \<Rightarrow> nat \<Rightarrow> lock_sys \<Rightarrow> lock_sys \<Rightarrow> bool" for t where
  solo_done: "lock_solo t 0 s s"
| solo_more: "lock_step t s s' \<Longrightarrow> lock_solo t n s' s'' \<Longrightarrow> lock_solo t (Suc n) s s''"

lemma solo_trans: "lock_solo t m a b \<Longrightarrow> lock_solo t n b c \<Longrightarrow> lock_solo t (m + n) a c"
  by (induction rule: lock_solo.induct) (auto intro: solo_more)

abbreviation acquired :: "nat \<Rightarrow> lock_sys \<Rightarrow> lock_sys" where
  "acquired t s \<equiv> s\<lparr>lock := 1, pc := (pc s)(t := L_Held)\<rparr>"

lemma solo_cas:
  assumes "lock s = 0" "pc s t = L_Cas b"
  shows "lock_solo t 1 s (acquired t s)"
  using lock_cas_won [OF assms(2), of 1] assms by (auto simp: arts_atomic_cswap_def intro: solo_more solo_done)

lemma solo_load:
  assumes "lock s = 0" "pc s t = L_Load b"
  shows "lock_solo t 2 s (acquired t s)"
proof -
  let ?s = "s\<lparr>pc := (pc s)(t := L_Cas b)\<rparr>"
  have "lock_solo t 1 ?s (acquired t s)" using solo_cas [of ?s t b] assms by simp
  then show ?thesis
    using solo_more [OF lock_load_free [OF assms(2,1)]] by (simp add: numeral_2_eq_2)
qed

lemma solo_spin:
  assumes "lock s = 0" "pc s t = L_Spin i b" "i \<le> b"
  shows "lock_solo t (unat (b - i) + 3) s (acquired t s)"
  using assms
proof (induction "unat (b - i)" arbitrary: s i)
  case 0
  then have "i = b" by (metis eq_iff_diff_eq_0 unat_eq_zero)
  let ?s = "s\<lparr>pc := (pc s)(t := L_Load (next_backoff b))\<rparr>"
  have "lock_solo t 2 ?s (acquired t s)" using solo_load [of ?s t "next_backoff b"] 0 by simp
  moreover have "lock_step t s ?s" by (rule lock_retry [OF "0.prems"(2)]) (simp only: \<open>i = b\<close> less_irrefl not_False_eq_True)
  moreover have "unat (b - i) + 3 = Suc 2" using \<open>i = b\<close> by simp
  ultimately show ?case using solo_more by (simp only:)
next
  case (Suc n)
  then have lt: "i < b" using Suc.hyps(2) Suc.prems(3) by (metis diff_self order_le_less unat_0 nat.distinct(1))
  let ?s = "s\<lparr>pc := (pc s)(t := L_Spin (i + 1) b)\<rparr>"
  have "unat (b - i - 1) = unat (b - i) - 1" using lt by (intro unat_minus_one) auto
  then have "unat (b - (i + 1)) = unat (b - i) - 1" by (simp only: diff_diff_eq)
  then have n: "n = unat (b - (i + 1))" using Suc.hyps(2) by simp
  have "lock_solo t (unat (b - (i + 1)) + 3) ?s (acquired t ?s)"
    by (rule Suc.hyps(1)) (use n Suc.prems spin_step [OF lt] in simp_all)
  then have "lock_solo t (Suc (unat (b - (i + 1)) + 3)) s (acquired t ?s)"
    by (rule solo_more [OF lock_pause [OF Suc.prems(2) lt]])
  moreover have "acquired t ?s = acquired t s" by simp
  moreover have "unat (b - i) + 3 = Suc (unat (b - (i + 1)) + 3)" by (simp only: n [symmetric] Suc.hyps(2) [symmetric])
  ultimately show ?case by (simp only:)
qed

section \<open>The reader-writer lock\<close>

datatype rw_pc =
    RW_Idle
  | R_Wait
  | R_Add
  | R_Check
  | R_Undo
  | R_Held
  | W_Load u32
  | W_Cas u32
  | W_Spin u32 u32
  | W_Drain
  | W_Held

record rw_sys =
  read_lock :: u32
  write_lock :: u32
  rwpc :: "nat \<Rightarrow> rw_pc"

definition rw_init :: rw_sys where
  "rw_init = \<lparr>read_lock = 0, write_lock = 0, rwpc = (\<lambda>_. RW_Idle)\<rparr>"

definition arts_reader_unlock :: "u32 \<Rightarrow> u32" where
  "arts_reader_unlock rl = fst (arts_atomic_sub rl 1)"

definition arts_writer_unlock :: "u32 \<Rightarrow> u32" where
  "arts_writer_unlock wl = 0"

abbreviation goto :: "nat \<Rightarrow> rw_pc \<Rightarrow> rw_sys \<Rightarrow> rw_sys" where
  "goto t p s \<equiv> s\<lparr>rwpc := (rwpc s)(t := p)\<rparr>"

text \<open>
  One access of thread \<open>t\<close>.  \<open>R_Wait\<close> spins while \<^verbatim>\<open>write_lock\<close> is set, \<open>R_Add\<close> is
  about to announce itself in \<^verbatim>\<open>read_lock\<close>, \<open>R_Check\<close> looks at \<^verbatim>\<open>write_lock\<close> again
  and \<open>R_Undo\<close> takes the announcement back; \<open>W_Drain\<close> owns \<^verbatim>\<open>write_lock\<close> and waits
  for the readers to leave.
\<close>

inductive rw_step :: "nat \<Rightarrow> rw_sys \<Rightarrow> rw_sys \<Rightarrow> bool" for t where
  reader_call: "rwpc s t = RW_Idle \<Longrightarrow> rw_step t s (goto t R_Wait s)"
| reader_spin: "rwpc s t = R_Wait \<Longrightarrow> write_lock s \<noteq> 0 \<Longrightarrow> rw_step t s s"
| reader_pass: "rwpc s t = R_Wait \<Longrightarrow> write_lock s = 0 \<Longrightarrow> rw_step t s (goto t R_Add s)"
| reader_add: "rwpc s t = R_Add \<Longrightarrow> arts_atomic_fetch_add (read_lock s) 1 = (l, v) \<Longrightarrow>
    rw_step t s (goto t R_Check (s\<lparr>read_lock := l\<rparr>))"
| reader_in: "rwpc s t = R_Check \<Longrightarrow> write_lock s = 0 \<Longrightarrow> rw_step t s (goto t R_Held s)"
| reader_back: "rwpc s t = R_Check \<Longrightarrow> write_lock s \<noteq> 0 \<Longrightarrow> rw_step t s (goto t R_Undo s)"
| reader_undo: "rwpc s t = R_Undo \<Longrightarrow> arts_atomic_sub (read_lock s) 1 = (l, v) \<Longrightarrow>
    rw_step t s (goto t R_Wait (s\<lparr>read_lock := l\<rparr>))"
| reader_release: "rwpc s t = R_Held \<Longrightarrow>
    rw_step t s (goto t RW_Idle (s\<lparr>read_lock := arts_reader_unlock (read_lock s)\<rparr>))"
| writer_call: "rwpc s t = RW_Idle \<Longrightarrow> rw_step t s (goto t (W_Load 1) s)"
| writer_load_free: "rwpc s t = W_Load b \<Longrightarrow> write_lock s = 0 \<Longrightarrow> rw_step t s (goto t (W_Cas b) s)"
| writer_load_busy: "rwpc s t = W_Load b \<Longrightarrow> write_lock s \<noteq> 0 \<Longrightarrow> rw_step t s (goto t (W_Spin 0 b) s)"
| writer_cas_won: "rwpc s t = W_Cas b \<Longrightarrow> arts_atomic_cswap (write_lock s) 0 1 = (l, 0) \<Longrightarrow>
    rw_step t s (goto t W_Drain (s\<lparr>write_lock := l\<rparr>))"
| writer_cas_lost: "rwpc s t = W_Cas b \<Longrightarrow> arts_atomic_cswap (write_lock s) 0 1 = (l, v) \<Longrightarrow> v \<noteq> 0 \<Longrightarrow>
    rw_step t s (goto t (W_Spin 0 b) (s\<lparr>write_lock := l\<rparr>))"
| writer_pause: "rwpc s t = W_Spin i b \<Longrightarrow> i < b \<Longrightarrow> rw_step t s (goto t (W_Spin (i + 1) b) s)"
| writer_retry: "rwpc s t = W_Spin i b \<Longrightarrow> \<not> i < b \<Longrightarrow> rw_step t s (goto t (W_Load (next_backoff b)) s)"
| writer_drain: "rwpc s t = W_Drain \<Longrightarrow> read_lock s \<noteq> 0 \<Longrightarrow> rw_step t s s"
| writer_in: "rwpc s t = W_Drain \<Longrightarrow> read_lock s = 0 \<Longrightarrow> rw_step t s (goto t W_Held s)"
| writer_try: "rwpc s t = RW_Idle \<Longrightarrow> arts_atomic_cswap (write_lock s) 0 1 = (l, v) \<Longrightarrow>
    rw_step t s (goto t (if v = 0 then W_Drain else RW_Idle) (s\<lparr>write_lock := l\<rparr>))"
| writer_release: "rwpc s t = W_Held \<Longrightarrow>
    rw_step t s (goto t RW_Idle (s\<lparr>write_lock := arts_writer_unlock (write_lock s)\<rparr>))"

inductive rw_reachable :: "nat \<Rightarrow> rw_sys \<Rightarrow> bool" for n where
  rw_start: "rw_reachable n rw_init"
| rw_move: "rw_reachable n s \<Longrightarrow> t < n \<Longrightarrow> rw_step t s s' \<Longrightarrow> rw_reachable n s'"

abbreviation announced :: "rw_sys \<Rightarrow> nat \<Rightarrow> bool" where
  "announced s t \<equiv> rwpc s t \<in> {R_Check, R_Undo, R_Held}"

abbreviation owns_write :: "rw_sys \<Rightarrow> nat \<Rightarrow> bool" where
  "owns_write s t \<equiv> rwpc s t \<in> {W_Drain, W_Held}"

definition readers :: "nat \<Rightarrow> rw_sys \<Rightarrow> nat set" where
  "readers n s = {t. t < n \<and> announced s t}"

definition rw_inv :: "nat \<Rightarrow> nat option \<Rightarrow> rw_sys \<Rightarrow> bool" where
  "rw_inv n w s \<longleftrightarrow>
     unat (read_lock s) = card (readers n s) \<and>
     (\<forall>t \<ge> n. rwpc s t = RW_Idle) \<and>
     write_lock s = (if w = None then 0 else 1) \<and>
     (\<forall>t. owns_write s t \<longleftrightarrow> w = Some t) \<and>
     ((\<exists>t. rwpc s t = W_Held) \<longrightarrow> (\<forall>u. rwpc s u \<noteq> R_Held))"

lemma finite_readers [simp]: "finite (readers n s)"
  by (simp add: readers_def)

lemma readers_goto:
  assumes "t < n"
  shows "readers n (goto t p s) =
    (if p \<in> {R_Check, R_Undo, R_Held} then insert t (readers n s) else readers n s - {t})"
  using assms by (auto simp: readers_def)

lemma readers_mem [simp]: "t < n \<Longrightarrow> t \<in> readers n s \<longleftrightarrow> announced s t"
  by (simp add: readers_def)

lemma readers_fields [simp]:
  "readers n (s\<lparr>read_lock := l\<rparr>) = readers n s" "readers n (s\<lparr>write_lock := w\<rparr>) = readers n s"
  "readers n (s\<lparr>read_lock := l, rwpc := f\<rparr>) = readers n (s\<lparr>rwpc := f\<rparr>)"
  "readers n (s\<lparr>write_lock := w, rwpc := f\<rparr>) = readers n (s\<lparr>rwpc := f\<rparr>)"
  by (simp_all add: readers_def)

lemma unat_inc: "unat (l :: u32) + 1 < 2 ^ 32 \<Longrightarrow> unat (l + 1) = unat l + 1"
  by (subst unat_add_lt) simp_all

lemma unat_dec: "0 < unat (l :: u32) \<Longrightarrow> unat (l - 1) = unat l - 1"
  by (intro unat_minus_one) auto

lemma readers_lt:
  assumes "t < n" "\<not> announced s t" "n < 2 ^ 32"
  shows "card (readers n s) + 1 < 2 ^ 32"
proof -
  have "readers n s \<subseteq> {..<n} - {t}" using assms by (auto simp: readers_def)
  then have "card (readers n s) \<le> card ({..<n} - {t})" by (intro card_mono) auto
  then show ?thesis using assms by simp
qed

lemma rw_count_step:
  assumes "rw_step t s s'" "t < n" "n < 2 ^ 32" "unat (read_lock s) = card (readers n s)"
  shows "unat (read_lock s') = card (readers n s')"
proof -
  have pos: "0 < card (readers n s)" if "announced s t"
  proof -
    have "t \<in> readers n s" using that assms(2) by simp
    then show ?thesis by (auto simp: card_gt_0_iff)
  qed
  from assms(1) show ?thesis
  proof cases
    case (reader_add l v)
    then show ?thesis
      using assms(2-) readers_lt [of t n s]
      by (auto simp: readers_goto arts_atomic_fetch_add_def unat_inc card_insert_if)
  next
    case (reader_undo l v)
    then show ?thesis using assms(2-) pos by (auto simp: readers_goto arts_atomic_sub_def unat_dec)
  next
    case reader_release
    then show ?thesis using assms pos by (simp add: readers_goto arts_atomic_sub_def arts_reader_unlock_def unat_dec)
  qed (use assms(2,4) in \<open>simp_all add: readers_goto insert_absorb\<close>)
qed

lemma rw_inv_step:
  assumes step: "rw_step t s s'" and t: "t < n" "n < 2 ^ 32" and inv: "rw_inv n w s"
  shows "rw_inv n (if owns_write s' t then Some t else if owns_write s t then None else w) s'"
proof -
  have cnt: "unat (read_lock s') = card (readers n s')"
    using rw_count_step [OF step t] inv by (simp add: rw_inv_def)
  have own: "owns_write s t \<longleftrightarrow> w = Some t" using inv by (simp add: rw_inv_def)
  have none: "rwpc s u \<noteq> R_Held" if "read_lock s = 0" for u
  proof
    assume "rwpc s u = R_Held"
    then have "u \<in> readers n s" using inv by (cases "u < n") (auto simp: rw_inv_def readers_def not_less)
    then show False using that inv by (auto simp: rw_inv_def)
  qed
  have free: "rwpc s u \<noteq> W_Held" if "write_lock s = 0" for u
    using that inv by (auto simp: rw_inv_def split: if_splits)
  from step show ?thesis
    using cnt own none free inv t
    by cases (auto simp: rw_inv_def arts_atomic_cswap_def arts_writer_unlock_def arts_atomic_fetch_add_def
        arts_atomic_sub_def split: if_splits)
qed

lemma rw_reachable_inv: "rw_reachable n s \<Longrightarrow> n < 2 ^ 32 \<Longrightarrow> \<exists>w. rw_inv n w s"
proof (induction rule: rw_reachable.induct)
  case rw_start
  then show ?case by (intro exI [of _ None]) (simp add: rw_inv_def rw_init_def readers_def)
next
  case (rw_move s t s')
  then show ?case using rw_inv_step by blast
qed

section \<open>Properties\<close>

text \<open>
  C17.  Mutual exclusion of \<^verbatim>\<open>arts_lock\<close>, \<^verbatim>\<open>arts_try_lock\<close> and
  \<^verbatim>\<open>arts_unlock\<close>: in every reachable state at most one thread holds the lock, and while
  one does the lock word is 1.
\<close>

theorem spin_lock_mutual_exclusion:
  assumes "lock_reachable s" "pc s t = L_Held" "pc s u = L_Held"
  shows "t = u \<and> lock s = 1"
proof -
  obtain h where h: "held_by h s" using lock_reachable_held [OF assms(1)] by blast
  then have "h = Some t" "h = Some u" using assms(2,3) by (auto simp: held_by_def)
  then show ?thesis using h by (simp add: held_by_def)
qed

lemma try_reachable: "lock_reachable (acquired 0 lock_init)"
  using lock_move [OF lock_start lock_try [of lock_init 0 1 True]]
  by (simp add: lock_init_def arts_try_lock_def arts_atomic_cswap_def)

theorem spin_lock_mutual_exclusion_witness: "lock (acquired 0 lock_init) = 1"
  using spin_lock_mutual_exclusion [OF try_reachable, of 0 0] by simp

text \<open>
  C18.  The spin lock is obstruction-free with a bounded delay: a thread waiting in
  \<^verbatim>\<open>arts_lock\<close> on a free lock holds it after at most 67 steps of its own, because the
  exponential back-off never exceeds 64 pauses.
\<close>

theorem spin_lock_bounded_wait:
  assumes "lock_reachable s" "lock s = 0" "pc s t \<noteq> L_Idle"
  shows "\<exists>n \<le> 67. lock_solo t n s (s\<lparr>lock := 1, pc := (pc s)(t := L_Held)\<rparr>)"
proof (cases "pc s t")
  case (L_Spin i b)
  then have b: "backoff_ok b" "i \<le> b" using lock_reachable_backoff [OF assms(1)] by (metis pc_backoff.simps(3))+
  have "b - i \<le> b" using b(2) by (simp add: word_sub_le)
  then have "unat (b - i) \<le> unat b" by (simp add: word_le_nat_alt)
  moreover have "unat b \<le> 64" using b(1) by (auto simp: backoff_ok_def)
  ultimately show ?thesis using solo_spin [OF assms(2) L_Spin b(2)] by (intro exI [of _ "unat (b - i) + 3"]) simp
next
  case (L_Load b)
  then show ?thesis using solo_load [OF assms(2)] by (intro exI [of _ 2]) simp
next
  case (L_Cas b)
  then show ?thesis using solo_cas [OF assms(2)] by (intro exI [of _ 1]) simp
next
  case L_Held
  then show ?thesis using lock_reachable_held [OF assms(1)] assms(2) by (auto simp: held_by_def split: if_splits)
qed (use assms(3) in simp)

theorem spin_lock_bounded_wait_witness:
  "\<exists>n \<le> 67. lock_solo 0 n (lock_init\<lparr>pc := (pc lock_init)(0 := L_Load 1)\<rparr>)
     (lock_init\<lparr>lock := 1, pc := (pc lock_init)(0 := L_Held)\<rparr>)"
proof -
  have "lock_reachable (lock_init\<lparr>pc := (pc lock_init)(0 := L_Load 1)\<rparr>)"
    by (rule lock_move [OF lock_start lock_call]) (simp add: lock_init_def)
  from spin_lock_bounded_wait [OF this, of 0] show ?thesis by (simp add: lock_init_def)
qed

text \<open>
  C19.  Exclusion of the reader-writer lock for fewer than \<open>2 ^ 32\<close> threads: while a
  writer is inside, no other thread is inside as writer or reader, and the reader
  count equals the number of threads that announced themselves.
\<close>

theorem rw_lock_exclusion:
  assumes "rw_reachable n s" "n < 2 ^ 32"
  shows "(rwpc s t = W_Held \<longrightarrow> (\<forall>u. rwpc s u \<in> {W_Held, R_Held} \<longrightarrow> u = t)) \<and>
         unat (read_lock s) = card {u. u < n \<and> rwpc s u \<in> {R_Check, R_Undo, R_Held}}"
proof -
  obtain w where w: "rw_inv n w s" using rw_reachable_inv [OF assms] by blast
  then have "u = t" if "rwpc s t = W_Held" "rwpc s u = W_Held" for u
    using that by (metis rw_inv_def insertI1 insert_commute option.inject)
  then show ?thesis using w by (auto simp: rw_inv_def readers_def)
qed

theorem rw_lock_exclusion_witness:
  "unat (read_lock (goto 0 R_Check (rw_init\<lparr>read_lock := 1\<rparr>))) =
     card {u. u < 2 \<and> rwpc (goto 0 R_Check (rw_init\<lparr>read_lock := 1\<rparr>)) u \<in> {R_Check, R_Undo, R_Held}}"
proof -
  have "rw_reachable 2 (goto 0 R_Wait rw_init)"
    by (rule rw_move [OF rw_start _ reader_call]) (simp_all add: rw_init_def)
  then have "rw_reachable 2 (goto 0 R_Add (goto 0 R_Wait rw_init))"
    by (rule rw_move [OF _ _ reader_pass]) (simp_all add: rw_init_def)
  then have "rw_reachable 2 (goto 0 R_Check ((goto 0 R_Add (goto 0 R_Wait rw_init))\<lparr>read_lock := 1\<rparr>))"
    by (rule rw_move [OF _ _ reader_add]) (simp_all add: rw_init_def arts_atomic_fetch_add_def)
  then have "rw_reachable 2 (goto 0 R_Check (rw_init\<lparr>read_lock := 1\<rparr>))" by simp
  from rw_lock_exclusion [OF this] show ?thesis by simp
qed

end
