(* ===== verification/Array_List.thy ===== *)
theory Array_List
  imports Prelude
begin

text \<open>
  The chunked array list of \<^verbatim>\<open>utils/array_list.c\<close>.  The chain of elements that
  starts at \<^verbatim>\<open>head\<close> is the list \<open>nodes\<close>; a pointer to an element is its position in
  the chain, and a pointer to a slot is a pair of a position and an offset.  A slot
  that was never written is \<open>None\<close>.  Chunks are never unlinked, so positions are
  stable.  The list is shown to refine a growing sequence.
\<close>

section \<open>Interface of a growing sequence\<close>

locale append_sequence =
  fixes inv :: "'s \<Rightarrow> bool"
    and abs :: "'s \<Rightarrow> 'a list"
    and append :: "'s \<Rightarrow> 'a \<Rightarrow> 's"
    and fetch :: "'s \<Rightarrow> nat \<Rightarrow> 'a option"
  assumes inv_append: "inv s \<Longrightarrow> inv (append s x)"
    and abs_append: "inv s \<Longrightarrow> abs (append s x) = abs s @ [x]"
    and fetch_in: "inv s \<Longrightarrow> i < length (abs s) \<Longrightarrow> fetch s i = Some (abs s ! i)"
begin

lemma append_many:
  assumes "inv s"
  shows "inv (foldl append s xs) \<and> abs (foldl append s xs) = abs s @ xs"
  using assms by (induction xs arbitrary: s) (simp_all add: inv_append abs_append)

lemma fetch_after_append_many:
  assumes "inv s" "i < length xs"
  shows "fetch (foldl append s xs) (length (abs s) + i) = Some (xs ! i)"
  using append_many [OF assms(1), of xs] assms(2) by (simp add: fetch_in nth_append)

lemma append_keeps:
  assumes "inv s" "i < length (abs s)"
  shows "fetch (append s x) i = fetch s i"
  using assms by (simp add: fetch_in inv_append abs_append nth_append)

end

section \<open>Data\<close>

record 'a arts_array_list_element =
  start :: nat
  array :: "'a option list"

type_synonym slot = "nat \<times> nat"

record 'a arts_array_list =
  array_length :: nat
  nodes :: "'a arts_array_list_element list"
  current :: nat
  index :: nat
  lastRequest :: nat
  lastRequestPtr :: slot

record arts_array_list_iterator =
  it_index :: nat
  it_last :: nat
  it_array_length :: nat
  it_current :: nat

section \<open>Operations\<close>

definition arts_new_array_list_element :: "nat \<Rightarrow> nat \<Rightarrow> 'a arts_array_list_element" where
  "arts_new_array_list_element st len = \<lparr>start = st, array = replicate len None\<rparr>"

definition arts_new_array_list :: "nat \<Rightarrow> 'a arts_array_list" where
  "arts_new_array_list len =
     \<lparr> array_length = len, nodes = [arts_new_array_list_element 0 len], current = 0,
       index = 0, lastRequest = 0, lastRequestPtr = (0, 0) \<rparr>"

text \<open>The common prefix of push and next-free: move to the chunk of the next slot.\<close>

definition advance :: "'a arts_array_list \<Rightarrow> 'a arts_array_list res" where
  "advance a =
     (if array_length a = 0 then Inl Div_By_Zero
      else if index a mod array_length a = 0 \<and> index a \<noteq> 0 then
        (if length (nodes a) \<le> current a then Inl Null_Deref
         else
           let a = (if Suc (current a) < length (nodes a) then a
                    else a\<lparr>nodes := nodes a @
                        [arts_new_array_list_element (start (nodes a ! current a) + array_length a)
                           (array_length a)]\<rparr>)
           in Inr (a\<lparr>current := Suc (current a)\<rparr>))
      else Inr a)"

definition slot_ok :: "'a arts_array_list \<Rightarrow> slot \<Rightarrow> bool" where
  "slot_ok a p \<longleftrightarrow> fst p < length (nodes a) \<and> snd p < length (array (nodes a ! fst p))"

definition read_slot :: "'a arts_array_list \<Rightarrow> slot \<Rightarrow> 'a option" where
  "read_slot a p = array (nodes a ! fst p) ! snd p"

definition write_slot :: "'a arts_array_list \<Rightarrow> slot \<Rightarrow> 'a \<Rightarrow> 'a arts_array_list" where
  "write_slot a p x =
     a\<lparr>nodes := (nodes a)[fst p := (nodes a ! fst p)\<lparr>array := (array (nodes a ! fst p))[snd p := Some x]\<rparr>]\<rparr>"

definition arts_push_to_array_list :: "'a arts_array_list \<Rightarrow> 'a \<Rightarrow> ('a arts_array_list \<times> nat) res" where
  "arts_push_to_array_list a x =
     rbind (advance a) (\<lambda>a'.
       let p = (current a', index a' - start (nodes a' ! current a')) in
       if slot_ok a' p
       then Inr ((write_slot a' p x)\<lparr>index := index a' + 1\<rparr>, index a)
       else Inl Out_Of_Bounds)"

definition arts_next_free_from_array_list :: "'a arts_array_list \<Rightarrow> ('a arts_array_list \<times> slot) res" where
  "arts_next_free_from_array_list a =
     rbind (advance a) (\<lambda>a'.
       let p = (current a', index a' - start (nodes a' ! current a')) in
       if slot_ok a' p then Inr (a'\<lparr>index := index a' + 1\<rparr>, p) else Inl Out_Of_Bounds)"

definition arts_reset_array_list :: "'a arts_array_list \<Rightarrow> 'a arts_array_list" where
  "arts_reset_array_list a =
     a\<lparr>current := 0, index := 0, lastRequest := 0, lastRequestPtr := (0, 0)\<rparr>"

definition arts_length_array_list :: "'a arts_array_list \<Rightarrow> nat" where
  "arts_length_array_list a = index a"

text \<open>The slow path: the first node, from position \<open>n\<close> on, whose chunk reaches \<open>i\<close>.\<close>

fun find_node :: "nat \<Rightarrow> nat \<Rightarrow> nat \<Rightarrow> 'a arts_array_list_element list \<Rightarrow> nat option" where
  "find_node len i n [] = None"
| "find_node len i n (nd # nds) = (if start nd + len \<le> i then find_node len i (Suc n) nds else Some n)"

definition arts_get_from_array_list ::
    "'a arts_array_list option \<Rightarrow> nat \<Rightarrow> 'a arts_array_list option \<times> slot option" where
  "arts_get_from_array_list ao i =
     (case ao of None \<Rightarrow> (None, None)
      | Some a \<Rightarrow>
          if i = lastRequest a then (Some a, Some (lastRequestPtr a))
          else if i < index a then
            let a = a\<lparr>lastRequest := i\<rparr> in
            if index a < array_length a then
              let a = a\<lparr>lastRequestPtr := (0, i)\<rparr> in (Some a, Some (lastRequestPtr a))
            else
              (case find_node (array_length a) i 0 (nodes a) of
                 None \<Rightarrow> (Some a, None)
               | Some n \<Rightarrow>
                   let a = a\<lparr>lastRequestPtr := (n, i - start (nodes a ! n))\<rparr>
                   in (Some a, Some (lastRequestPtr a)))
          else (Some a, None))"

definition arts_array_list_iter_init :: "'a arts_array_list \<Rightarrow> arts_array_list_iterator" where
  "arts_array_list_iter_init a =
     \<lparr>it_index = 0, it_last = index a, it_array_length = array_length a, it_current = 0\<rparr>"

definition arts_array_list_next ::
    "'a arts_array_list_element list \<Rightarrow> arts_array_list_iterator \<Rightarrow> arts_array_list_iterator \<times> slot option" where
  "arts_array_list_next nds it =
     (if it_index it < it_last it then
        let it = (if it_index it mod it_array_length it = 0 \<and> it_index it \<noteq> 0
                  then it\<lparr>it_current := Suc (it_current it)\<rparr> else it)
        in if it_current it < length nds
           then (it\<lparr>it_index := it_index it + 1\<rparr>,
                 Some (it_current it, it_index it - start (nds ! it_current it)))
           else (it, None)
      else (it, None))"

definition arts_array_list_has_next :: "arts_array_list_iterator \<Rightarrow> bool" where
  "arts_array_list_has_next it \<longleftrightarrow> it_index it < it_last it"

text \<open>A client's loop over an iterator: call next while has-next holds, at most \<open>n\<close> times.\<close>

fun iter_slots :: "nat \<Rightarrow> 'a arts_array_list_element list \<Rightarrow> arts_array_list_iterator \<Rightarrow> slot list" where
  "iter_slots 0 nds it = []"
| "iter_slots (Suc n) nds it =
     (if arts_array_list_has_next it then
        (case arts_array_list_next nds it of
           (it', Some p) \<Rightarrow> p # iter_slots n nds it'
         | (it', None) \<Rightarrow> [])
      else [])"

section \<open>Invariant and abstraction\<close>

definition al_inv :: "'a arts_array_list \<Rightarrow> bool" where
  "al_inv a \<longleftrightarrow>
     0 < array_length a \<and>
     (\<forall>k < length (nodes a). start (nodes a ! k) = k * array_length a \<and>
        length (array (nodes a ! k)) = array_length a) \<and>
     current a = (index a - 1) div array_length a \<and>
     current a < length (nodes a) \<and>
     (lastRequest a = 0 \<or> lastRequest a < index a) \<and>
     lastRequestPtr a = (lastRequest a div array_length a, lastRequest a mod array_length a)"

definition slot_of :: "'a arts_array_list \<Rightarrow> nat \<Rightarrow> slot" where
  "slot_of a i = (i div array_length a, i mod array_length a)"

definition al_abs :: "'a arts_array_list \<Rightarrow> 'a option list" where
  "al_abs a = map (\<lambda>i. read_slot a (slot_of a i)) [0..<index a]"

lemma al_abs_length [simp]: "length (al_abs a) = index a"
  by (simp add: al_abs_def)

lemma al_abs_nth [simp]: "i < index a \<Longrightarrow> al_abs a ! i = read_slot a (slot_of a i)"
  by (simp add: al_abs_def)

lemma slot_of_inj: "0 < array_length a \<Longrightarrow> slot_of a i = slot_of a j \<longleftrightarrow> i = j"
  by (auto simp: slot_of_def) (metis div_mult_mod_eq)

lemma div_pred:
  assumes "0 < (L :: nat)" "0 < i"
  shows "i div L = (if i mod L = 0 then Suc ((i - 1) div L) else (i - 1) div L)"
proof -
  obtain j where "i = Suc j" using assms(2) gr0_conv_Suc by blast
  then show ?thesis using assms(1) by (simp add: div_Suc)
qed

lemma slot_of_offset:
  assumes "al_inv a" "i div array_length a < length (nodes a)"
  shows "slot_of a i = (i div array_length a, i - start (nodes a ! (i div array_length a)))"
  using assms by (simp add: al_inv_def slot_of_def minus_div_mult_eq_mod)

lemma slot_of_ok:
  assumes "al_inv a" "i div array_length a < length (nodes a)"
  shows "slot_ok a (slot_of a i)"
  using assms by (simp add: al_inv_def slot_of_def slot_ok_def)

lemma new_array_list_inv: "0 < len \<Longrightarrow> al_inv (arts_new_array_list len)"
  by (simp add: al_inv_def arts_new_array_list_def arts_new_array_list_element_def)

lemma new_array_list_abs [simp]: "al_abs (arts_new_array_list len) = []"
  by (simp add: arts_new_array_list_def al_abs_def)

lemma advance_ok:
  assumes "al_inv a"
  shows "\<exists>a'. advance a = Inr a' \<and> array_length a' = array_length a \<and> index a' = index a \<and>
    lastRequest a' = lastRequest a \<and> lastRequestPtr a' = lastRequestPtr a \<and>
    current a' = index a div array_length a \<and> current a' < length (nodes a') \<and>
    length (nodes a) \<le> length (nodes a') \<and> take (length (nodes a)) (nodes a') = nodes a \<and>
    (\<forall>k < length (nodes a'). start (nodes a' ! k) = k * array_length a \<and>
        length (array (nodes a' ! k)) = array_length a)"
proof (cases "index a mod array_length a = 0 \<and> index a \<noteq> 0")
  case True
  then have "index a div array_length a = Suc (current a)"
    using assms div_pred [of "array_length a" "index a"] by (simp add: al_inv_def)
  moreover have "start (nodes a ! current a) + array_length a = Suc (current a) * array_length a"
    using assms by (simp add: al_inv_def)
  moreover have "Suc (current a) < length (nodes a) \<or> length (nodes a) = Suc (current a)"
    using assms by (auto simp: al_inv_def)
  ultimately show ?thesis
    using assms True
    by (auto simp: advance_def al_inv_def Let_def arts_new_array_list_element_def nth_append less_Suc_eq)
next
  case False
  then have "index a div array_length a = current a"
    using assms div_pred [of "array_length a" "index a"] by (cases "index a = 0") (auto simp: al_inv_def)
  then show ?thesis using assms False by (auto simp: advance_def al_inv_def)
qed

lemma read_slot_prefix:
  assumes "take (length (nodes a)) (nodes a') = nodes a" "fst p < length (nodes a)"
  shows "read_slot a' p = read_slot a p"
  using assms by (metis read_slot_def nth_take)

lemma index_slot_in:
  assumes "al_inv a" "i < index a"
  shows "i div array_length a < length (nodes a)"
proof -
  have "i div array_length a \<le> (index a - 1) div array_length a" using assms(2) by (intro div_le_mono) simp
  then show ?thesis using assms(1) by (simp add: al_inv_def)
qed

lemma read_write_slot:
  assumes "slot_ok a p" "slot_ok a q"
  shows "read_slot (write_slot a p x) q = (if p = q then Some x else read_slot a q)"
  using assms by (cases p; cases q) (auto simp: read_slot_def write_slot_def slot_ok_def nth_list_update)

lemma write_slot_fields [simp]:
  "array_length (write_slot a p x) = array_length a" "index (write_slot a p x) = index a"
  "current (write_slot a p x) = current a" "lastRequest (write_slot a p x) = lastRequest a"
  "lastRequestPtr (write_slot a p x) = lastRequestPtr a" "length (nodes (write_slot a p x)) = length (nodes a)"
  by (simp_all add: write_slot_def)

lemma write_slot_node:
  "k < length (nodes a) \<Longrightarrow> start (nodes (write_slot a p x) ! k) = start (nodes a ! k) \<and>
     length (array (nodes (write_slot a p x) ! k)) = length (array (nodes a ! k))"
  by (cases "k = fst p") (auto simp: write_slot_def)

lemma push_ok:
  assumes "al_inv a"
  shows "\<exists>a'. arts_push_to_array_list a x = Inr (a', index a) \<and> al_inv a' \<and>
    array_length a' = array_length a \<and> al_abs a' = al_abs a @ [Some x]"
proof -
  let ?L = "array_length a"
  obtain b where b: "advance a = Inr b" "array_length b = ?L" "index b = index a"
    "lastRequest b = lastRequest a" "lastRequestPtr b = lastRequestPtr a"
    "current b = index a div ?L" "current b < length (nodes b)" "length (nodes a) \<le> length (nodes b)"
    and pre: "take (length (nodes a)) (nodes b) = nodes a"
    and nd: "\<forall>k < length (nodes b). start (nodes b ! k) = k * ?L \<and> length (array (nodes b ! k)) = ?L"
    using advance_ok [OF assms] by blast
  have L: "0 < ?L" using assms by (simp add: al_inv_def)
  have slot: "(current b, index b - start (nodes b ! current b)) = slot_of a (index a)"
    using b nd by (simp add: slot_of_def minus_div_mult_eq_mod)
  have ok: "slot_ok b (slot_of a (index a))" using b nd L by (simp add: slot_of_def slot_ok_def)
  let ?c = "(write_slot b (slot_of a (index a)) x)\<lparr>index := index b + 1\<rparr>"
  have push: "arts_push_to_array_list a x = Inr (?c, index a)"
    using b ok slot by (simp add: arts_push_to_array_list_def Let_def)
  have inv: "al_inv ?c"
    using assms b nd L write_slot_node [of _ b "slot_of a (index a)" x] by (auto simp: al_inv_def)
  have eq: "read_slot ?c (slot_of ?c i) = (if i = index a then Some x else read_slot a (slot_of a i))"
    if "i < index a + 1" for i
  proof -
    have sl: "slot_of ?c i = slot_of a i" using b by (simp add: slot_of_def)
    have "i div ?L \<le> index a div ?L" using that by (intro div_le_mono) simp
    then have iok: "slot_ok b (slot_of a i)" using b nd L by (simp add: slot_of_def slot_ok_def)
    have "read_slot ?c (slot_of a i) = read_slot (write_slot b (slot_of a (index a)) x) (slot_of a i)"
      by (simp add: read_slot_def)
    also have "\<dots> = (if i = index a then Some x else read_slot b (slot_of a i))"
      using read_write_slot [OF ok iok] slot_of_inj [OF L] by auto
    finally have "read_slot ?c (slot_of a i) = (if i = index a then Some x else read_slot b (slot_of a i))" .
    moreover have "i \<noteq> index a \<Longrightarrow> read_slot b (slot_of a i) = read_slot a (slot_of a i)"
      using that index_slot_in [OF assms] by (intro read_slot_prefix [OF pre]) (simp add: slot_of_def)
    ultimately show ?thesis unfolding sl by auto
  qed
  have "al_abs ?c = al_abs a @ [Some x]"
    using eq b by (intro nth_equalityI) (auto simp: nth_append less_Suc_eq)
  then show ?thesis using push inv b by simp
qed

lemma next_free_ok:
  assumes "al_inv a"
  shows "\<exists>a'. arts_next_free_from_array_list a = Inr (a', slot_of a' (index a)) \<and> al_inv a' \<and>
    index a' = index a + 1 \<and> take (index a) (al_abs a') = al_abs a"
proof -
  let ?L = "array_length a"
  obtain b where b: "advance a = Inr b" "array_length b = ?L" "index b = index a"
    "lastRequest b = lastRequest a" "lastRequestPtr b = lastRequestPtr a"
    "current b = index a div ?L" "current b < length (nodes b)" "length (nodes a) \<le> length (nodes b)"
    and pre: "take (length (nodes a)) (nodes b) = nodes a"
    and nd: "\<forall>k < length (nodes b). start (nodes b ! k) = k * ?L \<and> length (array (nodes b ! k)) = ?L"
    using advance_ok [OF assms] by blast
  have L: "0 < ?L" using assms by (simp add: al_inv_def)
  let ?c = "b\<lparr>index := index b + 1\<rparr>"
  have "(current b, index b - start (nodes b ! current b)) = slot_of ?c (index a)"
    using b nd by (simp add: slot_of_def minus_div_mult_eq_mod)
  moreover have "slot_ok b (slot_of ?c (index a))" using b nd L by (simp add: slot_of_def slot_ok_def)
  ultimately have "arts_next_free_from_array_list a = Inr (?c, slot_of ?c (index a))"
    using b by (simp add: arts_next_free_from_array_list_def Let_def)
  moreover have "al_inv ?c" using assms b nd L by (auto simp: al_inv_def)
  moreover have "read_slot ?c (slot_of ?c i) = read_slot a (slot_of a i)" if "i < index a" for i
  proof -
    have "read_slot b (slot_of a i) = read_slot a (slot_of a i)"
      using index_slot_in [OF assms that] by (intro read_slot_prefix [OF pre]) (simp add: slot_of_def)
    then show ?thesis using b by (simp add: slot_of_def read_slot_def)
  qed
  then have "take (index a) (al_abs ?c) = al_abs a"
    using b by (intro nth_equalityI) auto
  ultimately show ?thesis using b by (intro exI [of _ ?c]) simp
qed

lemma reset_ok: "al_inv a \<Longrightarrow> al_inv (arts_reset_array_list a) \<and> al_abs (arts_reset_array_list a) = []"
  by (auto simp: al_inv_def arts_reset_array_list_def al_abs_def)

lemma find_node_ok:
  assumes "\<forall>k < length nds. start (nds ! k) = (m + k) * L" "0 < L" "m * L \<le> i" "i div L < m + length nds"
  shows "find_node L i m nds = Some (i div L)"
  using assms
proof (induction nds arbitrary: m)
  case Nil
  then show ?case using div_le_mono [of "m * L" i L] by simp
next
  case (Cons nd nds)
  have st: "start nd = m * L" using Cons.prems(1) by force
  show ?case
  proof (cases "m * L + L \<le> i")
    case True
    have "find_node L i (Suc m) nds = Some (i div L)"
      using Cons.prems True by (intro Cons.IH) (force simp: add.commute)+
    then show ?thesis using True st by simp
  next
    case False
    then have "i div L = m" using Cons.prems(3) by (intro div_nat_eqI) (simp_all add: mult.commute)
    then show ?thesis using False st by simp
  qed
qed

lemma get_ok:
  assumes "al_inv a" "i < index a"
  shows "\<exists>a'. arts_get_from_array_list (Some a) i = (Some a', Some (slot_of a i)) \<and>
    al_inv a' \<and> al_abs a' = al_abs a \<and> nodes a' = nodes a"
proof -
  have L: "0 < array_length a" using assms by (simp add: al_inv_def)
  have in_nodes: "i div array_length a < length (nodes a)" by (rule index_slot_in [OF assms])
  let ?b = "a\<lparr>lastRequest := i, lastRequestPtr := slot_of a i\<rparr>"
  have inv: "al_inv ?b" using assms by (auto simp: al_inv_def slot_of_def)
  have abs: "al_abs ?b = al_abs a" by (simp add: al_abs_def slot_of_def read_slot_def)
  have find: "find_node (array_length a) i 0 (nodes a) = Some (i div array_length a)"
    using assms in_nodes L by (intro find_node_ok) (auto simp: al_inv_def)
  consider "i = lastRequest a" | "i \<noteq> lastRequest a" "index a < array_length a"
    | "i \<noteq> lastRequest a" "\<not> index a < array_length a" by blast
  then show ?thesis
  proof cases
    case 1
    then show ?thesis using assms by (auto simp: arts_get_from_array_list_def al_inv_def slot_of_def)
  next
    case 2
    then have "slot_of a i = (0, i)" using assms(2) by (simp add: slot_of_def)
    then show ?thesis using 2 assms inv abs by (simp add: arts_get_from_array_list_def Let_def)
  next
    case 3
    then show ?thesis
      using assms inv abs find slot_of_offset [OF assms(1) in_nodes]
      by (simp add: arts_get_from_array_list_def Let_def)
  qed
qed

lemma iter_slots_from:
  assumes "al_inv a" "it_array_length it = array_length a" "it_last it = index a" "it_index it \<le> index a"
    and "it_current it = (it_index it - 1) div array_length a"
  shows "iter_slots (index a - it_index it) (nodes a) it = map (slot_of a) [it_index it..<index a]"
  using assms(2-)
proof (induction "index a - it_index it" arbitrary: it)
  case (Suc n)
  then have lt: "it_index it < index a" by simp
  have L: "0 < array_length a" using assms(1) by (simp add: al_inv_def)
  let ?k = "it_index it div array_length a"
  let ?it = "it\<lparr>it_current := ?k, it_index := it_index it + 1\<rparr>"
  have k: "?k < length (nodes a)" by (rule index_slot_in [OF assms(1) lt])
  have cur: "(if it_index it mod array_length a = 0 \<and> it_index it \<noteq> 0 then Suc (it_current it) else it_current it) = ?k"
    using div_pred [OF L, of "it_index it"] Suc.prems(4) by (cases "it_index it = 0") auto
  have "arts_array_list_next (nodes a) it = (?it, Some (slot_of a (it_index it)))"
    using lt k cur Suc.prems slot_of_offset [OF assms(1) k]
    by (auto simp: arts_array_list_next_def Let_def split: if_splits)
  moreover have "iter_slots n (nodes a) ?it = map (slot_of a) [it_index it + 1..<index a]"
  proof -
    have "n = index a - it_index ?it" using Suc.hyps(2) by simp
    from Suc.hyps(1) [OF this] show ?thesis using Suc.prems lt \<open>n = index a - it_index ?it\<close> by simp
  qed
  moreover have "index a - it_index it = Suc n" using Suc.hyps(2) by simp
  ultimately show ?case
    using lt Suc.prems by (simp add: arts_array_list_has_next_def upt_conv_Cons)
qed simp

section \<open>The array list as a growing sequence\<close>

definition al_good :: "'a arts_array_list \<Rightarrow> bool" where
  "al_good a \<longleftrightarrow> al_inv a \<and> None \<notin> set (al_abs a)"

definition al_values :: "'a arts_array_list \<Rightarrow> 'a list" where
  "al_values a = map the (al_abs a)"

definition al_push :: "'a arts_array_list \<Rightarrow> 'a \<Rightarrow> 'a arts_array_list" where
  "al_push a x = (case arts_push_to_array_list a x of Inr (a', _) \<Rightarrow> a' | Inl _ \<Rightarrow> a)"

definition al_fetch :: "'a arts_array_list \<Rightarrow> nat \<Rightarrow> 'a option" where
  "al_fetch a i = (case snd (arts_get_from_array_list (Some a) i) of None \<Rightarrow> None | Some p \<Rightarrow> read_slot a p)"

definition demo_list :: "nat arts_array_list" where
  "demo_list = al_push (al_push (arts_new_array_list 1) 7) 8"

lemma al_push_ok:
  assumes "al_inv a"
  shows "al_inv (al_push a x) \<and> al_abs (al_push a x) = al_abs a @ [Some x]"
  using push_ok [OF assms, of x] by (auto simp: al_push_def)

interpretation al: append_sequence al_good al_values al_push al_fetch
proof unfold_locales
  fix a :: "'a arts_array_list" and x i
  assume a: "al_good a"
  then have inv: "al_inv a" by (simp add: al_good_def)
  show "al_good (al_push a x)" using al_push_ok [OF inv, of x] a by (simp add: al_good_def)
  show "al_values (al_push a x) = al_values a @ [x]" using al_push_ok [OF inv, of x] by (simp add: al_values_def)
  show "al_fetch a i = Some (al_values a ! i)" if i: "i < length (al_values a)"
  proof -
    have lt: "i < index a" using i by (simp add: al_values_def)
    then have "al_abs a ! i \<noteq> None" using a by (metis al_good_def al_abs_length nth_mem)
    then show ?thesis using get_ok [OF inv lt] lt by (auto simp: al_fetch_def al_values_def)
  qed
qed

section \<open>Properties\<close>

text \<open>
  Pushing a sequence of values into a fresh array list, over any number of chunk
  boundaries, stores them in order: reading index \<open>i\<close> yields the \<open>i\<close>-th value pushed.
\<close>

theorem array_list_push_get:
  fixes xs :: "'a list"
  assumes "0 < len" "i < length xs"
  shows "al_fetch (foldl al_push (arts_new_array_list len) xs) i = Some (xs ! i)"
proof -
  have "al_good (arts_new_array_list len :: 'a arts_array_list)"
    "al_values (arts_new_array_list len :: 'a arts_array_list) = []"
    using new_array_list_inv [OF assms(1)] by (simp_all add: al_good_def al_values_def)
  then show ?thesis using al.fetch_after_append_many [of "arts_new_array_list len" i xs] assms(2) by simp
qed

theorem array_list_push_get_witness:
  "al_fetch (foldl al_push (arts_new_array_list 2) [10, 20, 30, 40, 50 :: nat]) 4 = Some 50"
  using array_list_push_get [of 2 4 "[10, 20, 30, 40, 50 :: nat]"] by simp

text \<open>
  C20.  Every operation of the array list refines the sequence: push returns the old
  length and appends, a read below the length returns a slot holding that element and
  keeps the contents (whichever of the three lookup paths is taken), reset empties the
  list, and an iterator visits exactly the slots of the elements in order.
\<close>

theorem array_list_refines_sequence:
  assumes "al_inv a"
  shows "(\<exists>a'. arts_push_to_array_list a x = Inr (a', length (al_abs a)) \<and> al_inv a' \<and>
            al_abs a' = al_abs a @ [Some x]) \<and>
         (i < length (al_abs a) \<longrightarrow>
           (\<exists>a' p. arts_get_from_array_list (Some a) i = (Some a', Some p) \<and> al_inv a' \<and>
              al_abs a' = al_abs a \<and> read_slot a' p = al_abs a ! i)) \<and>
         (al_inv (arts_reset_array_list a) \<and> al_abs (arts_reset_array_list a) = []) \<and>
         map (read_slot a) (iter_slots (index a) (nodes a) (arts_array_list_iter_init a)) = al_abs a"
proof -
  have "map (read_slot a) (iter_slots (index a) (nodes a) (arts_array_list_iter_init a)) = al_abs a"
    using iter_slots_from [OF assms, of "arts_array_list_iter_init a"]
    by (simp add: arts_array_list_iter_init_def al_abs_def)
  moreover have "\<exists>a' p. arts_get_from_array_list (Some a) i = (Some a', Some p) \<and> al_inv a' \<and>
      al_abs a' = al_abs a \<and> read_slot a' p = al_abs a ! i" if "i < length (al_abs a)"
    using get_ok [OF assms, of i] that by (fastforce simp: read_slot_def)
  ultimately show ?thesis using push_ok [OF assms, of x] reset_ok [OF assms] by auto
qed

theorem array_list_refines_sequence_witness:
  "map (read_slot demo_list) (iter_slots 2 (nodes demo_list) (arts_array_list_iter_init demo_list)) = [Some 7, Some 8]"
proof -
  have inv: "al_inv demo_list" and abs: "al_abs demo_list = [Some 7, Some 8]"
    by (simp_all add: demo_list_def al_push_ok new_array_list_inv)
  then have "index demo_list = 2" by (metis al_abs_length length_Cons list.size(3) numeral_2_eq_2)
  then show ?thesis using array_list_refines_sequence [OF inv] abs by simp
qed

text \<open>
  Reading index 0 of an empty array list does not return NULL: the cached last
  request of a fresh or reset list is 0, so the fast path returns the first,
  never-written slot.
\<close>

theorem array_list_get_empty_not_null:
  "snd (arts_get_from_array_list (Some (arts_new_array_list len)) 0) = Some (0, 0) \<and>
   arts_length_array_list (arts_new_array_list len) = 0 \<and>
   snd (arts_get_from_array_list (Some (arts_new_array_list len)) (Suc i)) = None"
  by (simp add: arts_get_from_array_list_def arts_new_array_list_def arts_length_array_list_def)

end
