(* ===== verification/Link_List.thy ===== *)
theory Link_List
  imports Atomics
begin

text \<open>
  The locked linked list of \<^verbatim>\<open>utils/link_list.c\<close>.  Items are addresses; the heap maps
  an allocated item to its \<^verbatim>\<open>next\<close> pointer, and the data pointer a client holds is
  identified with its item.  Operations run under the list's lock, so they are
  modelled as atomic; a lock that is already taken makes the call spin.
\<close>

section \<open>Interface of a queue\<close>

fun deq_n :: "('s \<Rightarrow> 's \<times> 'a option) \<Rightarrow> nat \<Rightarrow> 's \<Rightarrow> 's \<times> 'a option list" where
  "deq_n deq 0 q = (q, [])"
| "deq_n deq (Suc n) q = (let (q', x) = deq q; (q'', xs) = deq_n deq n q' in (q'', x # xs))"

locale fifo_queue =
  fixes rep :: "'s \<Rightarrow> 'a list \<Rightarrow> bool"
    and valid :: "'s \<Rightarrow> 'a \<Rightarrow> bool"
    and enq :: "'s \<Rightarrow> 'a \<Rightarrow> 's"
    and deq :: "'s \<Rightarrow> 's \<times> 'a option"
  assumes enq_rep: "rep q xs \<Longrightarrow> valid q x \<Longrightarrow> x \<notin> set xs \<Longrightarrow> rep (enq q x) (xs @ [x])"
    and enq_valid: "valid q y \<Longrightarrow> rep q xs \<Longrightarrow> valid q x \<Longrightarrow> x \<notin> set xs \<Longrightarrow> valid (enq q x) y"
    and deq_nil: "rep q [] \<Longrightarrow> rep (fst (deq q)) [] \<and> snd (deq q) = None"
    and deq_cons: "rep q (x # xs) \<Longrightarrow> rep (fst (deq q)) xs \<and> snd (deq q) = Some x"
begin

lemma enq_many:
  assumes "rep q xs" "distinct ys" "set ys \<inter> set xs = {}" "\<forall>y\<in>set ys. valid q y"
  shows "rep (foldl enq q ys) (xs @ ys)"
  using assms
proof (induction ys arbitrary: q xs)
  case (Cons y ys)
  then have "rep (enq q y) (xs @ [y])" using enq_rep by simp
  moreover have "\<forall>z\<in>set ys. valid (enq q y) z" using Cons.prems enq_valid by auto
  ultimately show ?case using Cons.IH [of "enq q y" "xs @ [y]"] Cons.prems by auto
qed simp

lemma deq_many: "rep q (xs @ ys) \<Longrightarrow> snd (deq_n deq (length xs) q) = map Some xs \<and> rep (fst (deq_n deq (length xs) q)) ys"
proof (induction xs arbitrary: q)
  case (Cons x xs)
  then have "rep (fst (deq q)) (xs @ ys)" "snd (deq q) = Some x" using deq_cons by auto
  then show ?case using Cons.IH [of "fst (deq q)"] by (auto simp: Let_def split_beta)
qed simp

lemma fifo:
  assumes "rep q []" "distinct ys" "\<forall>y\<in>set ys. valid q y"
  shows "snd (deq_n deq (length ys) (foldl enq q ys)) = map Some ys"
  using enq_many [OF assms(1,2)] assms(3) deq_many [of "foldl enq q ys" ys "[]"] by simp

end

section \<open>Operations\<close>

type_synonym addr = nat

record arts_link_list =
  headPtr :: "addr option"
  tailPtr :: "addr option"
  ll_lock :: u32
  heap :: "addr \<Rightarrow> addr option option"

definition arts_link_list_new :: "arts_link_list \<Rightarrow> arts_link_list" where
  "arts_link_list_new l = l\<lparr>headPtr := None, tailPtr := None\<rparr>"

text \<open>The allocator's choice \<open>a\<close> is a parameter; a zero-sized payload yields NULL.\<close>

definition arts_link_list_new_item :: "addr \<Rightarrow> nat \<Rightarrow> arts_link_list \<Rightarrow> arts_link_list \<times> addr option" where
  "arts_link_list_new_item a sz l =
     (l\<lparr>heap := (heap l)(a := Some None)\<rparr>, if sz \<noteq> 0 then Some a else None)"

definition arts_link_list_delete_item :: "addr \<Rightarrow> arts_link_list \<Rightarrow> arts_link_list" where
  "arts_link_list_delete_item a l = l\<lparr>heap := (heap l)(a := None)\<rparr>"

definition arts_link_list_is_empty :: "arts_link_list \<Rightarrow> bool res" where
  "arts_link_list_is_empty l = rbind (arts_lock (ll_lock l)) (\<lambda>_. Inr (headPtr l = None))"

definition arts_link_list_get_front_data :: "arts_link_list \<Rightarrow> addr res" where
  "arts_link_list_get_front_data l = rbind (arts_lock (ll_lock l))
     (\<lambda>_. case headPtr l of None \<Rightarrow> Inl Null_Deref | Some a \<Rightarrow> Inr a)"

definition arts_link_list_get_tail_data :: "arts_link_list \<Rightarrow> addr res" where
  "arts_link_list_get_tail_data l = rbind (arts_lock (ll_lock l))
     (\<lambda>_. case tailPtr l of None \<Rightarrow> Inl Null_Deref | Some a \<Rightarrow> Inr a)"

text \<open>The counting loop of \<^verbatim>\<open>arts_link_list_get_size\<close>; it does not return on a cycle.\<close>

partial_function (option) count_items ::
    "(addr \<Rightarrow> addr option option) \<Rightarrow> nat \<Rightarrow> addr option \<Rightarrow> nat res option" where
  "count_items h n p =
     (case p of None \<Rightarrow> Some (Inr n)
      | Some a \<Rightarrow> (case h a of None \<Rightarrow> Some (Inl Null_Deref) | Some nx \<Rightarrow> count_items h (n + 1) nx))"

definition arts_link_list_get_size :: "arts_link_list \<Rightarrow> nat res option" where
  "arts_link_list_get_size l =
     (case arts_lock (ll_lock l) of Inl e \<Rightarrow> None | Inr _ \<Rightarrow> count_items (heap l) 0 (headPtr l))"

definition arts_link_list_push_back :: "arts_link_list \<Rightarrow> addr \<Rightarrow> arts_link_list res" where
  "arts_link_list_push_back l a =
     (if heap l a = None then Inl Null_Deref
      else
        let l = l\<lparr>heap := (heap l)(a := Some None)\<rparr> in
        rbind (arts_lock (ll_lock l)) (\<lambda>lk.
          let l = l\<lparr>ll_lock := lk\<rparr> in
          rbind
            (if headPtr l = None then Inr (l\<lparr>headPtr := Some a, tailPtr := Some a\<rparr>)
             else
               (case tailPtr l of None \<Rightarrow> Inl Null_Deref
                | Some tp \<Rightarrow>
                    if heap l tp = None then Inl Null_Deref
                    else Inr (l\<lparr>heap := (heap l)(tp := Some (Some a)), tailPtr := Some a\<rparr>)))
            (\<lambda>l. Inr (l\<lparr>ll_lock := arts_unlock (ll_lock l)\<rparr>))))"

definition arts_link_list_pop_front :: "arts_link_list \<Rightarrow> (arts_link_list \<times> addr option) res" where
  "arts_link_list_pop_front l =
     rbind (arts_lock (ll_lock l)) (\<lambda>lk.
       let l = l\<lparr>ll_lock := lk\<rparr> in
       rbind
         (case headPtr l of None \<Rightarrow> Inr (l, None)
          | Some a \<Rightarrow>
              (case heap l a of None \<Rightarrow> Inl Null_Deref
               | Some nx \<Rightarrow>
                   let l = l\<lparr>headPtr := nx\<rparr>;
                       l = (if headPtr l = None then l\<lparr>tailPtr := None\<rparr> else l)
                   in Inr (l\<lparr>heap := (heap l)(a := Some None)\<rparr>, Some a)))
         (\<lambda>(l, x). Inr (l\<lparr>ll_lock := arts_unlock (ll_lock l)\<rparr>, x)))"

text \<open>\<^verbatim>\<open>arts_link_list_delete\<close>: unlink and free the items from the head on.\<close>

partial_function (option) arts_link_list_delete :: "arts_link_list \<Rightarrow> arts_link_list res option" where
  "arts_link_list_delete l =
     (case headPtr l of None \<Rightarrow> Some (Inr l)
      | Some a \<Rightarrow>
          (case heap l a of None \<Rightarrow> Some (Inl Null_Deref)
           | Some nx \<Rightarrow> arts_link_list_delete (l\<lparr>headPtr := nx, heap := (heap l)(a := None)\<rparr>)))"

section \<open>Invariant\<close>

fun path :: "(addr \<Rightarrow> addr option option) \<Rightarrow> addr option \<Rightarrow> addr list \<Rightarrow> bool" where
  "path h p [] = (p = None)"
| "path h p (x # xs) = (p = Some x \<and> (\<exists>nx. h x = Some nx \<and> path h nx xs))"

definition ll_rep :: "arts_link_list \<Rightarrow> addr list \<Rightarrow> bool" where
  "ll_rep l xs \<longleftrightarrow>
     path (heap l) (headPtr l) xs \<and> distinct xs \<and> ll_lock l = 0 \<and>
     tailPtr l = (if xs = [] then None else Some (last xs))"

lemma path_cong: "\<forall>x\<in>set xs. h x = h' x \<Longrightarrow> path h p xs = path h' p xs"
  by (induction xs arbitrary: p) auto

lemma path_other: "a \<notin> set xs \<Longrightarrow> path (h(a := v)) p xs = path h p xs"
  by (rule path_cong) auto

lemma path_snoc:
  assumes "path h p xs" "xs \<noteq> []" "distinct xs" "a \<notin> set xs" "h a = Some None"
  shows "path (h(last xs := Some (Some a))) p (xs @ [a])"
  using assms
proof (induction xs arbitrary: p)
  case (Cons x xs)
  show ?case
  proof (cases "xs = []")
    case True
    then show ?thesis using Cons.prems by auto
  next
    case False
    then have "last xs \<noteq> x" using Cons.prems(3) by auto
    then show ?thesis using Cons False by auto
  qed
qed simp

lemma path_alloc: "path h p xs \<Longrightarrow> x \<in> set xs \<Longrightarrow> h x \<noteq> None"
  by (induction xs arbitrary: p) auto

lemma ll_head: "ll_rep l xs \<Longrightarrow> headPtr l = (if xs = [] then None else Some (hd xs))"
  by (cases xs) (auto simp: ll_rep_def)

lemma push_back_ok:
  assumes "ll_rep l xs" "heap l a \<noteq> None" "a \<notin> set xs"
  shows "\<exists>l'. arts_link_list_push_back l a = Inr l' \<and> ll_rep l' (xs @ [a]) \<and>
    (\<forall>b. heap l b \<noteq> None \<longrightarrow> heap l' b \<noteq> None)"
proof (cases "xs = []")
  case True
  then show ?thesis
    using assms by (simp add: arts_link_list_push_back_def ll_rep_def arts_lock_def arts_unlock_def
        arts_atomic_cswap_def Let_def)
next
  case False
  let ?h = "(heap l)(a := Some None)"
  have "path ?h (headPtr l) xs" using assms by (simp add: ll_rep_def path_other)
  then have "path (?h(last xs := Some (Some a))) (headPtr l) (xs @ [a])"
    using assms False by (intro path_snoc) (simp_all add: ll_rep_def)
  moreover have "heap l (last xs) \<noteq> None" using assms False path_alloc by (force simp: ll_rep_def)
  ultimately show ?thesis
    using assms False ll_head [OF assms(1)]
    by (auto simp: arts_link_list_push_back_def ll_rep_def arts_lock_def arts_unlock_def
        arts_atomic_cswap_def Let_def)
qed

lemma pop_front_nil:
  "ll_rep l [] \<Longrightarrow> arts_link_list_pop_front l = Inr (l, None)"
  by (simp add: arts_link_list_pop_front_def ll_rep_def arts_lock_def arts_unlock_def arts_atomic_cswap_def)

lemma pop_front_cons:
  assumes "ll_rep l (x # xs)"
  shows "\<exists>l'. arts_link_list_pop_front l = Inr (l', Some x) \<and> ll_rep l' xs \<and>
    (\<forall>b. heap l b \<noteq> None \<longrightarrow> heap l' b \<noteq> None)"
proof -
  obtain nx where nx: "heap l x = Some nx" "path (heap l) nx xs" "headPtr l = Some x"
    using assms by (auto simp: ll_rep_def)
  have "nx = None \<longleftrightarrow> xs = []" using nx(2) by (cases xs) auto
  then show ?thesis
    using assms nx
    by (auto simp: arts_link_list_pop_front_def ll_rep_def arts_lock_def arts_unlock_def
        arts_atomic_cswap_def Let_def path_other)
qed

lemma count_items_path: "path h p xs \<Longrightarrow> count_items h n p = Some (Inr (n + length xs))"
proof (induction xs arbitrary: p n)
  case Nil
  then show ?case by (subst count_items.simps) simp
next
  case (Cons x xs)
  then show ?case by (subst count_items.simps) auto
qed

lemma delete_path:
  assumes "path (heap l) (headPtr l) xs" "distinct xs"
  shows "\<exists>l'. arts_link_list_delete l = Some (Inr l') \<and> headPtr l' = None \<and>
    heap l' = (\<lambda>a. if a \<in> set xs then None else heap l a)"
  using assms
proof (induction xs arbitrary: l)
  case Nil
  then show ?case by (subst arts_link_list_delete.simps) auto
next
  case (Cons x xs)
  then obtain nx where nx: "headPtr l = Some x" "heap l x = Some nx" "path (heap l) nx xs" by auto
  let ?l = "l\<lparr>headPtr := nx, heap := (heap l)(x := None)\<rparr>"
  have "path (heap ?l) (headPtr ?l) xs" using nx Cons.prems(2) by (simp add: path_other)
  from Cons.IH [OF this] Cons.prems(2) obtain l' where "arts_link_list_delete ?l = Some (Inr l')"
    "headPtr l' = None" "heap l' = (\<lambda>a. if a \<in> set xs then None else heap ?l a)" by auto
  then show ?case using nx by (subst arts_link_list_delete.simps) (auto simp: fun_eq_iff)
qed

section \<open>The list as a queue\<close>

definition ll_enq :: "arts_link_list \<Rightarrow> addr \<Rightarrow> arts_link_list" where
  "ll_enq l a = (case arts_link_list_push_back l a of Inr l' \<Rightarrow> l' | Inl _ \<Rightarrow> l)"

definition ll_deq :: "arts_link_list \<Rightarrow> arts_link_list \<times> addr option" where
  "ll_deq l = (case arts_link_list_pop_front l of Inr r \<Rightarrow> r | Inl _ \<Rightarrow> (l, None))"

definition ll_alloc :: "arts_link_list \<Rightarrow> addr \<Rightarrow> bool" where
  "ll_alloc l a \<longleftrightarrow> heap l a \<noteq> None"

interpretation ll: fifo_queue ll_rep ll_alloc ll_enq ll_deq
proof unfold_locales
  fix l xs x y
  show "ll_rep (ll_enq l x) (xs @ [x])" if "ll_rep l xs" "ll_alloc l x" "x \<notin> set xs"
    using push_back_ok [of l xs x] that by (auto simp: ll_enq_def ll_alloc_def)
  show "ll_alloc (ll_enq l x) y" if "ll_alloc l y" "ll_rep l xs" "ll_alloc l x" "x \<notin> set xs"
    using push_back_ok [of l xs x] that by (auto simp: ll_enq_def ll_alloc_def)
  show "ll_rep (fst (ll_deq l)) [] \<and> snd (ll_deq l) = None" if "ll_rep l []"
    using pop_front_nil [OF that] that by (simp add: ll_deq_def)
  show "ll_rep (fst (ll_deq l)) xs \<and> snd (ll_deq l) = Some x" if "ll_rep l (x # xs)"
    using pop_front_cons [OF that] by (auto simp: ll_deq_def)
qed

definition demo_ll :: arts_link_list where
  "demo_ll = \<lparr>headPtr = None, tailPtr = None, ll_lock = 0, heap = (\<lambda>a. if a < 10 then Some None else None)\<rparr>"

lemma demo_ll_rep: "ll_rep demo_ll []"
  by (simp add: demo_ll_def ll_rep_def)

section \<open>Properties\<close>

text \<open>
  C24.  First in, first out: items pushed at the back of an empty list come out of
  the front in the order they were pushed, each exactly once.
\<close>

theorem link_list_fifo:
  assumes "ll_rep l []" "distinct ys" "\<forall>y\<in>set ys. heap l y \<noteq> None"
  shows "snd (deq_n ll_deq (length ys) (foldl ll_enq l ys)) = map Some ys"
  using ll.fifo [OF assms(1,2)] assms(3) by (simp add: ll_alloc_def)

theorem link_list_fifo_witness:
  "snd (deq_n ll_deq 3 (foldl ll_enq demo_ll [4, 2, 9])) = [Some 4, Some 2, Some 9]"
  using link_list_fifo [OF demo_ll_rep, of "[4, 2, 9]"] by (simp add: demo_ll_def numeral_3_eq_3)



end
