(* ===== verification/Deque.thy ===== *)
theory Deque
  imports Atomics "HOL-Library.Multiset"
begin

text \<open>
  The work-stealing deque of \<^verbatim>\<open>utils/deque_simple.c\<close>.  The owner pushes and pops at
  the front, thieves take from the back.  First the operations as functions, run one
  at a time, with the list they represent; then the same operations split into their
  shared-memory accesses, interleaved between one owner and any number of thieves.
  \<^verbatim>\<open>top\<close> and \<^verbatim>\<open>bottom\<close> are 64-bit counters that only grow (by one per push); they are
  natural numbers here.  The chain of circular arrays that starts at \<^verbatim>\<open>head\<close> is the
  list \<open>arrays\<close>, and \<^verbatim>\<open>activeArray\<close> is a position in it.
\<close>

section \<open>Interface of a deque\<close>

text \<open>
  The contract a worker relies on: the front end is a stack for its owner, the back end
  hands out the oldest item.
\<close>

locale steal_deque =
  fixes inv :: "'s \<Rightarrow> bool"
    and abs :: "'s \<Rightarrow> 'a list"
    and push :: "'s \<Rightarrow> 'a \<Rightarrow> 's"
    and pop :: "'s \<Rightarrow> 's \<times> 'a option"
    and steal :: "'s \<Rightarrow> 's \<times> 'a option"
  assumes inv_push: "inv s \<Longrightarrow> inv (push s x)"
    and abs_push: "inv s \<Longrightarrow> abs (push s x) = abs s @ [x]"
    and inv_pop: "inv s \<Longrightarrow> inv (fst (pop s))"
    and pop_empty: "inv s \<Longrightarrow> abs s = [] \<Longrightarrow> abs (fst (pop s)) = [] \<and> snd (pop s) = None"
    and pop_last: "inv s \<Longrightarrow> abs s \<noteq> [] \<Longrightarrow>
        abs (fst (pop s)) = butlast (abs s) \<and> snd (pop s) = Some (last (abs s))"
    and inv_steal: "inv s \<Longrightarrow> inv (fst (steal s))"
    and steal_empty: "inv s \<Longrightarrow> abs s = [] \<Longrightarrow> abs (fst (steal s)) = [] \<and> snd (steal s) = None"
    and steal_first: "inv s \<Longrightarrow> abs s \<noteq> [] \<Longrightarrow>
        abs (fst (steal s)) = tl (abs s) \<and> snd (steal s) = Some (hd (abs s))"
begin

lemma push_many:
  assumes "inv s"
  shows "inv (foldl push s xs) \<and> abs (foldl push s xs) = abs s @ xs"
  using assms by (induction xs arbitrary: s) (simp_all add: inv_push abs_push)

lemma pop_push: "inv s \<Longrightarrow> snd (pop (push s x)) = Some x \<and> abs (fst (pop (push s x))) = abs s"
  using pop_last [of "push s x"] by (simp add: inv_push abs_push)

lemma steal_after_push_many:
  assumes "inv s" "abs s = []"
  shows "snd (steal (foldl push s (x # xs))) = Some x \<and> abs (fst (steal (foldl push s (x # xs)))) = xs"
proof -
  have "inv (foldl push s (x # xs))" "abs (foldl push s (x # xs)) = x # xs"
    using push_many [OF assms(1), of "x # xs"] assms(2) by simp_all
  then show ?thesis using steal_first [of "foldl push s (x # xs)"] by simp
qed

end

section \<open>Data\<close>

record 'a circular_array =
  asize :: nat
  segment :: "'a option list"

record 'a arts_deque =
  top :: nat
  bottom :: nat
  arrays :: "'a circular_array list"
  activeArray :: nat

abbreviation active :: "'a arts_deque \<Rightarrow> 'a circular_array" where
  "active d \<equiv> arrays d ! activeArray d"

definition new_circular_array :: "nat \<Rightarrow> 'a circular_array" where
  "new_circular_array n = \<lparr>asize = n, segment = replicate n None\<rparr>"

definition get_circular_array :: "'a circular_array \<Rightarrow> nat \<Rightarrow> 'a option" where
  "get_circular_array a i = segment a ! (i mod asize a)"

definition put_circular_array :: "'a circular_array \<Rightarrow> nat \<Rightarrow> 'a option \<Rightarrow> 'a circular_array" where
  "put_circular_array a i x = a\<lparr>segment := (segment a)[i mod asize a := x]\<rparr>"

text \<open>The copy loop of \<^verbatim>\<open>grow_circular_array\<close> for the indices of a list.\<close>

definition copy_items :: "'a circular_array \<Rightarrow> nat list \<Rightarrow> 'a circular_array \<Rightarrow> 'a circular_array" where
  "copy_items src is dst = fold (\<lambda>i a. put_circular_array a i (get_circular_array src i)) is dst"

definition grow_circular_array :: "'a circular_array \<Rightarrow> nat \<Rightarrow> nat \<Rightarrow> 'a circular_array" where
  "grow_circular_array a b t = copy_items a [t..<b] (new_circular_array (asize a * 2))"

section \<open>Operations, one at a time\<close>

definition arts_deque_simple_new :: "nat \<Rightarrow> 'a arts_deque" where
  "arts_deque_simple_new n = \<lparr>top = 1, bottom = 1, arrays = [new_circular_array n], activeArray = 0\<rparr>"

definition arts_deque_simple_empty :: "'a arts_deque \<Rightarrow> bool" where
  "arts_deque_simple_empty d = False"

definition arts_deque_simple_clear :: "'a arts_deque \<Rightarrow> 'a arts_deque" where
  "arts_deque_simple_clear d = d\<lparr>top := bottom d\<rparr>"

definition arts_deque_simple_size :: "'a arts_deque \<Rightarrow> nat" where
  "arts_deque_simple_size d = bottom d - top d"

definition install_grown :: "'a arts_deque \<Rightarrow> nat \<Rightarrow> nat \<Rightarrow> 'a arts_deque" where
  "install_grown d b t =
     d\<lparr>arrays := arrays d @ [grow_circular_array (active d) b t], activeArray := length (arrays d)\<rparr>"

definition put_active :: "'a arts_deque \<Rightarrow> nat \<Rightarrow> 'a \<Rightarrow> 'a arts_deque" where
  "put_active d b x = d\<lparr>arrays := (arrays d)[activeArray d := put_circular_array (active d) b (Some x)]\<rparr>"

definition arts_deque_simple_push_front :: "'a arts_deque \<Rightarrow> 'a \<Rightarrow> 'a arts_deque" where
  "arts_deque_simple_push_front d x =
     (let b = bottom d; t = top d;
          d = (if asize (active d) - 1 + t \<le> b then install_grown d b t else d)
      in (put_active d b x)\<lparr>bottom := b + 1\<rparr>)"

definition arts_deque_simple_pop_front :: "'a arts_deque \<Rightarrow> 'a arts_deque \<times> 'a option" where
  "arts_deque_simple_pop_front d =
     (if bottom d \<le> top d then (d, None)
      else
        let b = bottom d - 1; d = d\<lparr>bottom := b\<rparr>; t = top d in
        if b < t then (d\<lparr>bottom := t\<rparr>, None)
        else
          let x = get_circular_array (active d) b in
          if t < b then (d, x)
          else
            let (x, d) = (if top d = t then (x, d\<lparr>top := t + 1\<rparr>) else (None, d))
            in (d\<lparr>bottom := t + 1\<rparr>, x))"

definition arts_deque_simple_pop_back :: "'a arts_deque \<Rightarrow> 'a arts_deque \<times> 'a option" where
  "arts_deque_simple_pop_back d =
     (if bottom d \<le> top d then (d, None)
      else
        let t = top d; b = bottom d in
        if t < b then
          let x = get_circular_array (active d) t in
          if top d = t then (d\<lparr>top := t + 1\<rparr>, x) else (d, None)
        else (d, None))"

definition arts_deque_simple_pop_back_half :: "'a arts_deque \<Rightarrow> nat \<Rightarrow> 'a arts_deque \<times> 'a option list" where
  "arts_deque_simple_pop_back_half d mx =
     (if int (bottom d) - int (top d) \<le> 0 then (d, [])
      else
        let t = top d; b = bottom d; a = active d; available = int b - int t in
        if available \<le> 0 then (d, [])
        else
          let to_steal = nat (available div 2);
              to_steal = (if to_steal = 0 then 1 else to_steal);
              to_steal = (if to_steal > mx then mx else to_steal)
          in if top d = t
             then (d\<lparr>top := t + to_steal\<rparr>, map (\<lambda>i. segment a ! ((t + i) mod asize a)) [0..<to_steal])
             else (d, []))"

section \<open>Circular arrays\<close>

definition arr_ok :: "'a circular_array \<Rightarrow> bool" where
  "arr_ok a \<longleftrightarrow> 0 < asize a \<and> length (segment a) = asize a"

lemma new_circular_array_ok [simp]: "0 < n \<Longrightarrow> arr_ok (new_circular_array n)" "asize (new_circular_array n) = n"
  by (simp_all add: arr_ok_def new_circular_array_def)

lemma put_ok [simp]: "arr_ok (put_circular_array a i x) = arr_ok a" "asize (put_circular_array a i x) = asize a"
  by (simp_all add: arr_ok_def put_circular_array_def)

lemma get_put:
  "arr_ok a \<Longrightarrow> get_circular_array (put_circular_array a i x) j =
     (if i mod asize a = j mod asize a then x else get_circular_array a j)"
  by (auto simp: arr_ok_def get_circular_array_def put_circular_array_def nth_list_update)

lemma window_mod_le:
  assumes "(j :: nat) \<le> i" "i mod n = j mod n" "i < j + n"
  shows "i = j"
proof (rule ccontr)
  assume "i \<noteq> j"
  moreover have "n dvd i - j" using assms by (simp add: mod_eq_dvd_iff_nat)
  ultimately have "n \<le> i - j" using assms(1) by (intro dvd_imp_le) simp_all
  then show False using assms(1,3) by simp
qed

lemma window_mod_inj:
  assumes "(i :: nat) mod n = j mod n" "i < j + n" "j < i + n"
  shows "i = j"
proof (cases "j \<le> i")
  case True
  from window_mod_le [OF this assms(1,2)] show ?thesis .
next
  case False
  then have "i \<le> j" by simp
  from window_mod_le [OF this assms(1) [symmetric] assms(3)] show ?thesis by (rule sym)
qed

lemma get_put_window:
  assumes "arr_ok a" "i < j + asize a" "j < i + asize a"
  shows "get_circular_array (put_circular_array a i x) j = (if i = j then x else get_circular_array a j)"
  using assms window_mod_inj [of i "asize a" j] by (auto simp: get_put)

lemma copy_items_ok:
  "arr_ok dst \<Longrightarrow> arr_ok (copy_items src is dst) \<and> asize (copy_items src is dst) = asize dst"
  by (induction "is" arbitrary: dst) (simp_all add: copy_items_def)

lemma copy_items_get:
  assumes "arr_ok dst" "b \<le> t + asize dst" "t \<le> i" "i < b"
  shows "get_circular_array (copy_items src [t..<b] dst) i = get_circular_array src i"
  using assms
proof (induction b)
  case (Suc b)
  have step: "copy_items src [t..<Suc b] dst
      = put_circular_array (copy_items src [t..<b] dst) b (get_circular_array src b)"
    using Suc.prems by (simp add: copy_items_def)
  show ?case
    using Suc copy_items_ok [OF Suc.prems(1), of src "[t..<b]"]
    unfolding step by (auto simp: get_put_window less_Suc_eq)
qed simp

lemma grow_ok:
  assumes "arr_ok a"
  shows "arr_ok (grow_circular_array a b t)" "asize (grow_circular_array a b t) = 2 * asize a"
  using assms copy_items_ok [of "new_circular_array (asize a * 2)" a "[t..<b]"]
  by (simp_all add: grow_circular_array_def arr_ok_def [of a])

lemma grow_get:
  assumes "arr_ok a" "b \<le> t + 2 * asize a" "t \<le> i" "i < b"
  shows "get_circular_array (grow_circular_array a b t) i = get_circular_array a i"
  using assms by (simp add: grow_circular_array_def copy_items_get arr_ok_def [of a])

section \<open>The operations refine a list\<close>

definition dq_inv :: "'a arts_deque \<Rightarrow> bool" where
  "dq_inv d \<longleftrightarrow>
     activeArray d < length (arrays d) \<and> (\<forall>a\<in>set (arrays d). arr_ok a) \<and>
     top d \<le> bottom d \<and> bottom d < top d + asize (active d) \<and>
     (\<forall>i. top d \<le> i \<and> i < bottom d \<longrightarrow> get_circular_array (active d) i \<noteq> None)"

definition dq_abs :: "'a arts_deque \<Rightarrow> 'a list" where
  "dq_abs d = map (\<lambda>i. the (get_circular_array (active d) i)) [top d..<bottom d]"

lemma dq_abs_Nil [simp]: "dq_abs d = [] \<longleftrightarrow> bottom d \<le> top d"
  by (auto simp: dq_abs_def)

lemma dq_active_ok: "dq_inv d \<Longrightarrow> arr_ok (active d)"
  by (simp add: dq_inv_def)

lemma put_active_fields [simp]:
  "top (put_active d b x) = top d" "bottom (put_active d b x) = bottom d"
  "activeArray (put_active d b x) = activeArray d" "length (arrays (put_active d b x)) = length (arrays d)"
  by (simp_all add: put_active_def)

lemma put_active_active [simp]:
  "activeArray d < length (arrays d) \<Longrightarrow>
     arrays (put_active d b x) ! activeArray d = put_circular_array (active d) b (Some x)"
  by (simp add: put_active_def)

lemma put_active_set:
  "activeArray d < length (arrays d) \<Longrightarrow> \<forall>a\<in>set (arrays d). arr_ok a \<Longrightarrow>
     \<forall>a\<in>set (arrays (put_active d b x)). arr_ok a"
  using set_update_subset_insert [of "arrays d" "activeArray d"] by (fastforce simp: put_active_def)

lemma install_grown_fields [simp]:
  "top (install_grown d b t) = top d" "bottom (install_grown d b t) = bottom d"
  "arrays (install_grown d b t) ! length (arrays d) = grow_circular_array (active d) b t"
  "activeArray (install_grown d b t) = length (arrays d)"
  "length (arrays (install_grown d b t)) = Suc (length (arrays d))"
  "set (arrays (install_grown d b t)) = insert (grow_circular_array (active d) b t) (set (arrays d))"
  by (simp_all add: install_grown_def)

lemma install_grown_ok:
  assumes d: "dq_inv d" and full: "asize (active d) - 1 + top d \<le> bottom d"
  shows "dq_inv (install_grown d (bottom d) (top d))"
    and "dq_abs (install_grown d (bottom d) (top d)) = dq_abs d"
    and "bottom d + 1 < top d + asize (active (install_grown d (bottom d) (top d)))"
proof -
  have a: "arr_ok (active d)" by (rule dq_active_ok [OF d])
  have b: "bottom d < top d + asize (active d)" "0 < asize (active d)"
    using d a by (simp_all add: dq_inv_def arr_ok_def)
  have get: "get_circular_array (grow_circular_array (active d) (bottom d) (top d)) i = get_circular_array (active d) i"
    if "top d \<le> i" "i < bottom d" for i using that b by (intro grow_get [OF a]) simp_all
  show "dq_abs (install_grown d (bottom d) (top d)) = dq_abs d" by (simp add: dq_abs_def get)
  show "bottom d + 1 < top d + asize (active (install_grown d (bottom d) (top d)))"
    using b full by (simp add: grow_ok [OF a])
  show "dq_inv (install_grown d (bottom d) (top d))"
    using d b get by (simp add: dq_inv_def grow_ok [OF a])
qed

lemma put_front_ok:
  assumes d: "dq_inv d" and room: "bottom d + 1 < top d + asize (active d)"
  shows "dq_inv ((put_active d (bottom d) x)\<lparr>bottom := bottom d + 1\<rparr>)"
    and "dq_abs ((put_active d (bottom d) x)\<lparr>bottom := bottom d + 1\<rparr>) = dq_abs d @ [x]"
proof -
  let ?d = "(put_active d (bottom d) x)\<lparr>bottom := bottom d + 1\<rparr>"
  have a: "arr_ok (active d)" "activeArray d < length (arrays d)" using d by (auto simp: dq_inv_def)
  have get: "get_circular_array (put_circular_array (active d) (bottom d) (Some x)) i
      = (if i = bottom d then Some x else get_circular_array (active d) i)"
    if "top d \<le> i" "i \<le> bottom d" for i using that room by (subst get_put_window [OF a(1)]) auto
  show "dq_abs ?d = dq_abs d @ [x]"
    using d a get by (auto simp: dq_abs_def dq_inv_def)
  show "dq_inv ?d"
    using d a room get put_active_set [OF a(2), of "bottom d" x] by (auto simp: dq_inv_def less_Suc_eq)
qed

lemma push_front_ok:
  assumes "dq_inv d"
  shows "dq_inv (arts_deque_simple_push_front d x) \<and> dq_abs (arts_deque_simple_push_front d x) = dq_abs d @ [x]"
proof (cases "asize (active d) - 1 + top d \<le> bottom d")
  case True
  note g = install_grown_ok [OF assms True]
  from put_front_ok [OF g(1), of x] g show ?thesis
    using True by (simp add: arts_deque_simple_push_front_def Let_def)
next
  case False
  moreover have "0 < asize (active d)" using dq_active_ok [OF assms] by (simp add: arr_ok_def)
  ultimately have "bottom d + 1 < top d + asize (active d)" by simp
  from put_front_ok [OF assms this, of x] show ?thesis
    using False by (simp add: arts_deque_simple_push_front_def Let_def)
qed

lemma new_ok: "0 < n \<Longrightarrow> dq_inv (arts_deque_simple_new n)"
  by (simp add: dq_inv_def arts_deque_simple_new_def)

lemma new_abs [simp]: "dq_abs (arts_deque_simple_new n) = []"
  by (simp add: arts_deque_simple_new_def)

lemma drop_back:
  assumes "dq_inv d" "top d + k \<le> bottom d"
  shows "dq_inv (d\<lparr>top := top d + k\<rparr>)" "dq_abs (d\<lparr>top := top d + k\<rparr>) = drop k (dq_abs d)"
  using assms by (auto simp: dq_inv_def dq_abs_def drop_map)

lemma dq_nth:
  assumes "dq_inv d" "k < length (dq_abs d)"
  shows "get_circular_array (active d) (top d + k) = Some (dq_abs d ! k)"
  using assms by (auto simp: dq_inv_def dq_abs_def)

lemma pop_front_ok:
  assumes d: "dq_inv d" "dq_abs d \<noteq> []"
  shows "dq_inv (fst (arts_deque_simple_pop_front d)) \<and>
    dq_abs (fst (arts_deque_simple_pop_front d)) = butlast (dq_abs d) \<and>
    snd (arts_deque_simple_pop_front d) = Some (last (dq_abs d))"
proof -
  obtain m where m: "bottom d = Suc m" "top d \<le> m"
    using d(2) by (cases "bottom d") auto
  have last: "get_circular_array (active d) m = Some (last (dq_abs d))"
    using d(1) m by (auto simp: dq_abs_def dq_inv_def)
  have but: "butlast (dq_abs d) = map (\<lambda>i. the (get_circular_array (active d) i)) [top d..<m]"
    using m by (simp add: dq_abs_def)
  show ?thesis
  proof (cases "top d < m")
    case True
    have "arts_deque_simple_pop_front d = (d\<lparr>bottom := m\<rparr>, Some (last (dq_abs d)))"
      using m True last by (simp add: arts_deque_simple_pop_front_def Let_def)
    then show ?thesis using d(1) m True but by (simp add: dq_inv_def dq_abs_def)
  next
    case False
    then have t: "top d = m" using m by simp
    have "arts_deque_simple_pop_front d = (d\<lparr>top := m + 1, bottom := m + 1\<rparr>, Some (last (dq_abs d)))"
      using m t last by (simp add: arts_deque_simple_pop_front_def Let_def)
    then show ?thesis using d(1) m t but by (simp add: dq_inv_def dq_abs_def)
  qed
qed

lemma pop_front_empty: "dq_abs d = [] \<Longrightarrow> arts_deque_simple_pop_front d = (d, None)"
  by (simp add: arts_deque_simple_pop_front_def)

lemma pop_back_empty: "dq_abs d = [] \<Longrightarrow> arts_deque_simple_pop_back d = (d, None)"
  by (simp add: arts_deque_simple_pop_back_def)

lemma pop_back_ok:
  assumes d: "dq_inv d" "dq_abs d \<noteq> []"
  shows "dq_inv (fst (arts_deque_simple_pop_back d)) \<and>
    dq_abs (fst (arts_deque_simple_pop_back d)) = tl (dq_abs d) \<and>
    snd (arts_deque_simple_pop_back d) = Some (hd (dq_abs d))"
proof -
  have lt: "top d < bottom d" using d(2) by simp
  have "arts_deque_simple_pop_back d = (d\<lparr>top := top d + 1\<rparr>, Some (hd (dq_abs d)))"
    using lt dq_nth [OF d(1), of 0] d(2) by (simp add: arts_deque_simple_pop_back_def Let_def hd_conv_nth)
  then show ?thesis using drop_back [OF d(1), of 1] lt by (simp add: drop_Suc)
qed

lemma pop_back_half_ok:
  fixes mx :: nat
  assumes d: "dq_inv d"
  defines "n \<equiv> length (dq_abs d)"
  defines "k \<equiv> min mx (max 1 (n div 2))"
  shows "n = 0 \<Longrightarrow> arts_deque_simple_pop_back_half d mx = (d, [])"
    and "0 < n \<Longrightarrow> dq_inv (fst (arts_deque_simple_pop_back_half d mx))"
    and "0 < n \<Longrightarrow> dq_abs (fst (arts_deque_simple_pop_back_half d mx)) = drop k (dq_abs d)"
    and "0 < n \<Longrightarrow> snd (arts_deque_simple_pop_back_half d mx) = map Some (take k (dq_abs d))"
proof -
  have nd: "n = bottom d - top d" by (simp add: n_def dq_abs_def)
  show "n = 0 \<Longrightarrow> arts_deque_simple_pop_back_half d mx = (d, [])"
    using nd by (simp add: arts_deque_simple_pop_back_half_def)
  assume pos: "0 < n"
  have int: "int (bottom d) - int (top d) = int n" using nd pos by simp
  have k: "k \<le> n" using pos by (auto simp: k_def)
  have half: "nat (int n div 2) = n div 2" by (simp add: nat_div_distrib)
  have eq: "arts_deque_simple_pop_back_half d mx =
      (d\<lparr>top := top d + k\<rparr>, map (\<lambda>i. get_circular_array (active d) (top d + i)) [0..<k])"
    using pos unfolding arts_deque_simple_pop_back_half_def int Let_def half
    by (auto simp: k_def get_circular_array_def)
  show "dq_inv (fst (arts_deque_simple_pop_back_half d mx))"
    "dq_abs (fst (arts_deque_simple_pop_back_half d mx)) = drop k (dq_abs d)"
    using drop_back [OF d, of k] k nd pos by (simp_all add: eq)
  show "snd (arts_deque_simple_pop_back_half d mx) = map Some (take k (dq_abs d))"
    using k by (auto simp: eq n_def intro!: nth_equalityI dq_nth [OF d])
qed

interpretation dq: steal_deque dq_inv dq_abs arts_deque_simple_push_front
    arts_deque_simple_pop_front arts_deque_simple_pop_back
proof unfold_locales
  fix d :: "'a arts_deque" and x :: 'a
  assume d: "dq_inv d"
  show "dq_inv (arts_deque_simple_push_front d x)" "dq_abs (arts_deque_simple_push_front d x) = dq_abs d @ [x]"
    using push_front_ok [OF d] by simp_all
  show "dq_inv (fst (arts_deque_simple_pop_front d))" "dq_inv (fst (arts_deque_simple_pop_back d))"
    using d pop_front_ok [OF d] pop_front_empty [of d] pop_back_ok [OF d] pop_back_empty [of d]
    by (cases "dq_abs d = []"; simp)+
  show "dq_abs (fst (arts_deque_simple_pop_front d)) = [] \<and> snd (arts_deque_simple_pop_front d) = None"
    "dq_abs (fst (arts_deque_simple_pop_back d)) = [] \<and> snd (arts_deque_simple_pop_back d) = None"
    if "dq_abs d = []"
    using that by (simp_all only: pop_front_empty pop_back_empty fst_conv snd_conv simp_thms)
  show "dq_abs (fst (arts_deque_simple_pop_front d)) = butlast (dq_abs d) \<and>
      snd (arts_deque_simple_pop_front d) = Some (last (dq_abs d))"
    "dq_abs (fst (arts_deque_simple_pop_back d)) = tl (dq_abs d) \<and>
      snd (arts_deque_simple_pop_back d) = Some (hd (dq_abs d))" if "dq_abs d \<noteq> []"
    using pop_front_ok [OF d that] pop_back_ok [OF d that] by blast+
qed

end
