(* ===== verification/Deque_Concurrent.thy ===== *)
theory Deque_Concurrent
  imports Deque
begin

text \<open>
  The accesses of \<^verbatim>\<open>deque_simple.c\<close> to shared memory, one step each, interleaved
  between the owner of a deque and any number of thieves.  Memory is sequentially
  consistent, as the fences of the source provide on the variables involved.  Loads of
  data that only the owner writes (\<^verbatim>\<open>bottom\<close>, \<^verbatim>\<open>activeArray\<close> and the segments, when the
  owner loads them) are merged with the neighbouring load of \<^verbatim>\<open>top\<close>.  The ghost lists
  record the items pushed and the pointers returned by pops and steals.
\<close>

section \<open>Owner and thieves\<close>

datatype 'a owner_pc =
    O_Idle
  | O_Push 'a
  | O_Grow 'a nat
  | O_Put 'a
  | O_Bump 'a
  | O_Pop
  | O_Dec
  | O_ReadTop nat
  | O_Reset nat
  | O_Cas nat nat "'a option"
  | O_Fix nat

datatype 'a thief_pc =
    T_Idle
  | T_Fast
  | T_Fast2 nat
  | T_Top
  | T_Bot nat
  | T_Arr nat
  | T_Item nat nat
  | T_Cas nat "'a option"

record 'a cl_sys =
  dq :: "'a arts_deque"
  owner :: "'a owner_pc"
  thief :: "nat \<Rightarrow> 'a thief_pc"
  pushed :: "'a list"
  taken :: "'a option list"

definition cl_init :: "nat \<Rightarrow> 'a cl_sys" where
  "cl_init n = \<lparr>dq = arts_deque_simple_new n, owner = O_Idle, thief = (\<lambda>_. T_Idle), pushed = [], taken = []\<rparr>"

text \<open>Steps of \<^verbatim>\<open>arts_deque_simple_push_front\<close> and \<^verbatim>\<open>arts_deque_simple_pop_front\<close>.\<close>

inductive owner_step :: "'a cl_sys \<Rightarrow> 'a cl_sys \<Rightarrow> bool" where
  push_call: "owner s = O_Idle \<Longrightarrow> owner_step s (s\<lparr>owner := O_Push x\<rparr>)"
| push_full: "owner s = O_Push x \<Longrightarrow> asize (active (dq s)) - 1 + top (dq s) \<le> bottom (dq s) \<Longrightarrow>
    owner_step s (s\<lparr>owner := O_Grow x (top (dq s))\<rparr>)"
| push_room: "owner s = O_Push x \<Longrightarrow> \<not> asize (active (dq s)) - 1 + top (dq s) \<le> bottom (dq s) \<Longrightarrow>
    owner_step s (s\<lparr>owner := O_Put x\<rparr>)"
| push_grow: "owner s = O_Grow x t \<Longrightarrow>
    owner_step s (s\<lparr>dq := install_grown (dq s) (bottom (dq s)) t, owner := O_Put x\<rparr>)"
| push_put: "owner s = O_Put x \<Longrightarrow>
    owner_step s (s\<lparr>dq := put_active (dq s) (bottom (dq s)) x, owner := O_Bump x\<rparr>)"
| push_bump: "owner s = O_Bump x \<Longrightarrow>
    owner_step s (s\<lparr>dq := (dq s)\<lparr>bottom := bottom (dq s) + 1\<rparr>, owner := O_Idle, pushed := pushed s @ [x]\<rparr>)"
| pop_call: "owner s = O_Idle \<Longrightarrow> owner_step s (s\<lparr>owner := O_Pop\<rparr>)"
| pop_fast: "owner s = O_Pop \<Longrightarrow> bottom (dq s) \<le> top (dq s) \<Longrightarrow> owner_step s (s\<lparr>owner := O_Idle\<rparr>)"
| pop_seen: "owner s = O_Pop \<Longrightarrow> \<not> bottom (dq s) \<le> top (dq s) \<Longrightarrow> owner_step s (s\<lparr>owner := O_Dec\<rparr>)"
| pop_dec: "owner s = O_Dec \<Longrightarrow>
    owner_step s (s\<lparr>dq := (dq s)\<lparr>bottom := bottom (dq s) - 1\<rparr>, owner := O_ReadTop (bottom (dq s) - 1)\<rparr>)"
| pop_lost: "owner s = O_ReadTop b \<Longrightarrow> b < top (dq s) \<Longrightarrow> owner_step s (s\<lparr>owner := O_Reset (top (dq s))\<rparr>)"
| pop_take: "owner s = O_ReadTop b \<Longrightarrow> top (dq s) < b \<Longrightarrow>
    owner_step s (s\<lparr>owner := O_Idle, taken := taken s @ [get_circular_array (active (dq s)) b]\<rparr>)"
| pop_single: "owner s = O_ReadTop b \<Longrightarrow> top (dq s) = b \<Longrightarrow>
    owner_step s (s\<lparr>owner := O_Cas b (top (dq s)) (get_circular_array (active (dq s)) b)\<rparr>)"
| pop_reset: "owner s = O_Reset t \<Longrightarrow>
    owner_step s (s\<lparr>dq := (dq s)\<lparr>bottom := t\<rparr>, owner := O_Idle\<rparr>)"
| pop_won: "owner s = O_Cas b t v \<Longrightarrow> top (dq s) = t \<Longrightarrow>
    owner_step s (s\<lparr>dq := (dq s)\<lparr>top := t + 1\<rparr>, owner := O_Fix t, taken := taken s @ [v]\<rparr>)"
| pop_raced: "owner s = O_Cas b t v \<Longrightarrow> top (dq s) \<noteq> t \<Longrightarrow> owner_step s (s\<lparr>owner := O_Fix t\<rparr>)"
| pop_fix: "owner s = O_Fix t \<Longrightarrow>
    owner_step s (s\<lparr>dq := (dq s)\<lparr>bottom := t + 1\<rparr>, owner := O_Idle\<rparr>)"

text \<open>Steps of \<^verbatim>\<open>arts_deque_simple_pop_back\<close> by thief \<open>k\<close>.\<close>

abbreviation tgo :: "nat \<Rightarrow> 'a thief_pc \<Rightarrow> 'a cl_sys \<Rightarrow> 'a cl_sys" where
  "tgo k p s \<equiv> s\<lparr>thief := (thief s)(k := p)\<rparr>"

inductive thief_step :: "nat \<Rightarrow> 'a cl_sys \<Rightarrow> 'a cl_sys \<Rightarrow> bool" for k where
  steal_call: "thief s k = T_Idle \<Longrightarrow> thief_step k s (tgo k T_Fast s)"
| steal_fast: "thief s k = T_Fast \<Longrightarrow> thief_step k s (tgo k (T_Fast2 (top (dq s))) s)"
| steal_none: "thief s k = T_Fast2 t \<Longrightarrow> bottom (dq s) \<le> t \<Longrightarrow> thief_step k s (tgo k T_Idle s)"
| steal_some: "thief s k = T_Fast2 t \<Longrightarrow> \<not> bottom (dq s) \<le> t \<Longrightarrow> thief_step k s (tgo k T_Top s)"
| steal_top: "thief s k = T_Top \<Longrightarrow> thief_step k s (tgo k (T_Bot (top (dq s))) s)"
| steal_bot: "thief s k = T_Bot t \<Longrightarrow>
    thief_step k s (tgo k (if t < bottom (dq s) then T_Arr t else T_Idle) s)"
| steal_arr: "thief s k = T_Arr t \<Longrightarrow> thief_step k s (tgo k (T_Item t (activeArray (dq s))) s)"
| steal_item: "thief s k = T_Item t a \<Longrightarrow>
    thief_step k s (tgo k (T_Cas t (get_circular_array (arrays (dq s) ! a) t)) s)"
| steal_won: "thief s k = T_Cas t v \<Longrightarrow> top (dq s) = t \<Longrightarrow>
    thief_step k s (tgo k T_Idle (s\<lparr>dq := (dq s)\<lparr>top := t + 1\<rparr>, taken := taken s @ [v]\<rparr>))"
| steal_raced: "thief s k = T_Cas t v \<Longrightarrow> top (dq s) \<noteq> t \<Longrightarrow> thief_step k s (tgo k T_Idle s)"

inductive cl_reachable :: "nat \<Rightarrow> 'a cl_sys \<Rightarrow> bool" for n where
  cl_start: "cl_reachable n (cl_init n)"
| cl_owner: "cl_reachable n s \<Longrightarrow> owner_step s s' \<Longrightarrow> cl_reachable n s'"
| cl_thief: "cl_reachable n s \<Longrightarrow> thief_step k s s' \<Longrightarrow> cl_reachable n s'"

section \<open>Invariant\<close>

text \<open>The end of the live items: the owner's transient decrement does not remove one yet.\<close>

fun live_end :: "nat \<Rightarrow> 'a owner_pc \<Rightarrow> nat" where
  "live_end m (O_ReadTop b) = b + 1"
| "live_end m (O_Cas b t v) = b + 1"
| "live_end m (O_Reset t) = t"
| "live_end m (O_Fix t) = t + 1"
| "live_end m _ = m"

abbreviation lend :: "'a cl_sys \<Rightarrow> nat" where
  "lend s \<equiv> live_end (bottom (dq s)) (owner s)"

definition live :: "'a cl_sys \<Rightarrow> 'a option list" where
  "live s = map (get_circular_array (active (dq s))) [top (dq s)..<lend s]"

fun owner_ok :: "'a arts_deque \<Rightarrow> 'a owner_pc \<Rightarrow> bool" where
  "owner_ok d (O_Grow x t) = (t \<le> top d \<and> bottom d < t + asize (active d))"
| "owner_ok d (O_Put x) = (bottom d + 1 < top d + asize (active d))"
| "owner_ok d (O_Bump x) = (bottom d + 1 < top d + asize (active d) \<and>
      get_circular_array (active d) (bottom d) = Some x)"
| "owner_ok d O_Dec = (0 < bottom d)"
| "owner_ok d (O_ReadTop b) = (bottom d = b)"
| "owner_ok d (O_Cas b t v) = (bottom d = b \<and> t = b \<and> t \<le> top d \<and> v = get_circular_array (active d) b)"
| "owner_ok d (O_Reset t) = (bottom d + 1 = t \<and> top d = t)"
| "owner_ok d (O_Fix t) = (bottom d = t \<and> top d = t + 1)"
| "owner_ok d _ = True"

fun thief_ok :: "'a arts_deque \<Rightarrow> nat \<Rightarrow> 'a thief_pc \<Rightarrow> bool" where
  "thief_ok d e (T_Bot t) = (t \<le> top d)"
| "thief_ok d e (T_Arr t) = (t \<le> top d \<and> (top d = t \<longrightarrow> t < e))"
| "thief_ok d e (T_Item t a) = (t \<le> top d \<and> a < length (arrays d) \<and>
      (top d = t \<longrightarrow> t < e \<and> get_circular_array (arrays d ! a) t = get_circular_array (active d) t))"
| "thief_ok d e (T_Cas t v) = (t \<le> top d \<and> (top d = t \<longrightarrow> t < e \<and> v = get_circular_array (active d) t))"
| "thief_ok d e _ = True"

definition shape_ok :: "'a cl_sys \<Rightarrow> bool" where
  "shape_ok s \<longleftrightarrow>
     activeArray (dq s) < length (arrays (dq s)) \<and> (\<forall>a\<in>set (arrays (dq s)). arr_ok a) \<and>
     top (dq s) \<le> lend s \<and> lend s < top (dq s) + asize (active (dq s))"

definition cl_inv :: "'a cl_sys \<Rightarrow> bool" where
  "cl_inv s \<longleftrightarrow> shape_ok s \<and> owner_ok (dq s) (owner s) \<and>
     (\<forall>k. thief_ok (dq s) (lend s) (thief s k)) \<and>
     mset (map Some (pushed s)) = mset (taken s) + mset (live s)"

lemma cl_init_inv: "0 < n \<Longrightarrow> cl_inv (cl_init n)"
  by (simp add: cl_inv_def shape_ok_def cl_init_def arts_deque_simple_new_def live_def)

lemma steal_won_inv:
  assumes inv: "cl_inv s" and pc: "thief s k = T_Cas t v" and top: "top (dq s) = t"
  shows "cl_inv (tgo k T_Idle (s\<lparr>dq := (dq s)\<lparr>top := t + 1\<rparr>, taken := taken s @ [v]\<rparr>))"
proof -
  let ?s = "tgo k T_Idle (s\<lparr>dq := (dq s)\<lparr>top := t + 1\<rparr>, taken := taken s @ [v]\<rparr>)"
  have k: "t < lend s" "v = get_circular_array (active (dq s)) t"
    using inv pc top unfolding cl_inv_def by (metis thief_ok.simps(4))+
  have own: "owner_ok (dq ?s) (owner ?s)"
    using inv k top by (cases "owner s") (auto simp: cl_inv_def shape_ok_def)
  have shape: "shape_ok ?s" using inv k top by (auto simp: cl_inv_def shape_ok_def)
  have thief: "thief_ok (dq ?s) (lend ?s) (thief ?s j)" for j
  proof (cases "j = k")
    case False
    have "thief_ok (dq s) (lend s) (thief s j)" using inv by (simp add: cl_inv_def)
    then show ?thesis using False top by (cases "thief s j") auto
  qed simp
  have "live s = v # live ?s" using k top by (simp add: live_def upt_conv_Cons)
  then show ?thesis using inv own shape thief by (simp add: cl_inv_def)
qed

lemma thief_step_inv:
  assumes "cl_inv s" "thief_step k s s'"
  shows "cl_inv s'"
  using assms(2)
proof cases
  case (steal_won t v)
  then show ?thesis using steal_won_inv [OF assms(1)] by simp
next
  case (steal_bot t)
  have "thief_ok (dq s) (lend s) (T_Bot t)" using assms(1) steal_bot by (metis cl_inv_def)
  moreover have "bottom (dq s) \<le> lend s" using assms(1) by (cases "owner s") (auto simp: cl_inv_def)
  ultimately show ?thesis using steal_bot assms(1) by (auto simp: cl_inv_def shape_ok_def live_def)
next
  case (steal_item t a)
  have "thief_ok (dq s) (lend s) (T_Item t a)" using assms(1) steal_item by (metis cl_inv_def)
  then show ?thesis using steal_item assms(1) by (auto simp: cl_inv_def shape_ok_def live_def)
next
  case (steal_arr t)
  have "thief_ok (dq s) (lend s) (T_Arr t)" using assms(1) steal_arr by (metis cl_inv_def)
  then show ?thesis using steal_arr assms(1) by (auto simp: cl_inv_def shape_ok_def live_def)
qed (use assms(1) in \<open>auto simp: cl_inv_def shape_ok_def live_def\<close>)

lemma thief_ok_mono:
  "thief_ok d e p \<Longrightarrow> e \<le> e' \<Longrightarrow> thief_ok d e' p"
  by (cases p) auto

lemma thief_ok_bottom [simp]: "thief_ok (d\<lparr>bottom := b\<rparr>) e p = thief_ok d e p"
  by (cases p) auto

lemma push_grow_inv:
  assumes inv: "cl_inv s" and pc: "owner s = O_Grow x t"
  shows "cl_inv (s\<lparr>dq := install_grown (dq s) (bottom (dq s)) t, owner := O_Put x\<rparr>)"
proof -
  let ?d = "dq s" and ?g = "grow_circular_array (active (dq s)) (bottom (dq s)) t"
  have a: "arr_ok (active ?d)" and act: "activeArray ?d < length (arrays ?d)"
    using inv by (auto simp: cl_inv_def shape_ok_def)
  have b: "t \<le> top ?d" "bottom ?d < t + asize (active ?d)" "top ?d \<le> bottom ?d" "0 < asize (active ?d)"
    using inv pc a by (auto simp: cl_inv_def shape_ok_def arr_ok_def)
  have get: "get_circular_array ?g i = get_circular_array (active ?d) i" if "top ?d \<le> i" "i < bottom ?d" for i
    using that b by (intro grow_get [OF a]) simp_all
  have "thief_ok (install_grown ?d (bottom ?d) t) (bottom ?d) p" if "thief_ok ?d (bottom ?d) p" for p
    using that get b by (cases p) (auto simp: install_grown_def nth_append)
  moreover have "live (s\<lparr>dq := install_grown ?d (bottom ?d) t, owner := O_Put x\<rparr>) = live s"
    using get pc by (simp add: live_def)
  ultimately show ?thesis
    using inv pc b grow_ok [OF a] by (simp add: cl_inv_def shape_ok_def)
qed

lemma push_put_inv:
  assumes inv: "cl_inv s" and pc: "owner s = O_Put x"
  shows "cl_inv (s\<lparr>dq := put_active (dq s) (bottom (dq s)) x, owner := O_Bump x\<rparr>)"
proof -
  let ?d = "dq s" and ?p = "put_circular_array (active (dq s)) (bottom (dq s)) (Some x)"
  have a: "arr_ok (active ?d)" and act: "activeArray ?d < length (arrays ?d)"
    using inv by (auto simp: cl_inv_def shape_ok_def)
  have b: "bottom ?d + 1 < top ?d + asize (active ?d)" "top ?d \<le> bottom ?d"
    using inv pc by (auto simp: cl_inv_def shape_ok_def)
  have get: "get_circular_array ?p i = (if i = bottom ?d then Some x else get_circular_array (active ?d) i)"
    if "top ?d \<le> i" "i \<le> bottom ?d" for i using that b by (subst get_put_window [OF a]) auto
  have arr: "arrays (put_active ?d (bottom ?d) x) ! j = (if j = activeArray ?d then ?p else arrays ?d ! j)"
    if "j < length (arrays ?d)" for j using that act by (simp add: put_active_def)
  have "thief_ok (put_active ?d (bottom ?d) x) (bottom ?d) q" if "thief_ok ?d (bottom ?d) q" for q
    using that get act by (cases q) (auto simp: arr)
  moreover have "live (s\<lparr>dq := put_active ?d (bottom ?d) x, owner := O_Bump x\<rparr>) = live s"
    using get pc act by (simp add: live_def)
  moreover have "get_circular_array ?p (bottom ?d) = Some x" using get b by simp
  ultimately show ?thesis
    using inv pc act a b put_active_set [OF act, of "bottom ?d" x] by (simp add: cl_inv_def shape_ok_def)
qed

lemma push_bump_inv:
  assumes inv: "cl_inv s" and pc: "owner s = O_Bump x"
  shows "cl_inv (s\<lparr>dq := (dq s)\<lparr>bottom := bottom (dq s) + 1\<rparr>, owner := O_Idle, pushed := pushed s @ [x]\<rparr>)"
proof -
  let ?s = "s\<lparr>dq := (dq s)\<lparr>bottom := bottom (dq s) + 1\<rparr>, owner := O_Idle, pushed := pushed s @ [x]\<rparr>"
  have "top (dq s) \<le> bottom (dq s)" "get_circular_array (active (dq s)) (bottom (dq s)) = Some x"
    using inv pc by (auto simp: cl_inv_def shape_ok_def)
  then have "live ?s = live s @ [Some x]" using pc by (simp add: live_def)
  moreover have "thief_ok (dq s) (bottom (dq s) + 1) (thief s k)" for k
    using inv pc by (auto simp: cl_inv_def intro: thief_ok_mono [of _ "bottom (dq s)"])
  ultimately show ?thesis using inv pc by (simp add: cl_inv_def shape_ok_def)
qed

lemma pop_take_inv:
  assumes inv: "cl_inv s" and pc: "owner s = O_ReadTop b" and lt: "top (dq s) < b"
  shows "cl_inv (s\<lparr>owner := O_Idle, taken := taken s @ [get_circular_array (active (dq s)) b]\<rparr>)"
proof -
  let ?s = "s\<lparr>owner := O_Idle, taken := taken s @ [get_circular_array (active (dq s)) b]\<rparr>"
  have b: "bottom (dq s) = b" using inv pc by (simp add: cl_inv_def)
  have "live s = live ?s @ [get_circular_array (active (dq s)) b]" using pc lt b by (simp add: live_def)
  moreover have "thief_ok (dq s) b p" if "thief_ok (dq s) (b + 1) p" for p
    using that lt by (cases p) auto
  ultimately show ?thesis using inv pc lt b by (simp add: cl_inv_def shape_ok_def)
qed

lemma pop_won_inv:
  assumes inv: "cl_inv s" and pc: "owner s = O_Cas b t v" and eq: "top (dq s) = t"
  shows "cl_inv (s\<lparr>dq := (dq s)\<lparr>top := t + 1\<rparr>, owner := O_Fix t, taken := taken s @ [v]\<rparr>)"
proof -
  let ?s = "s\<lparr>dq := (dq s)\<lparr>top := t + 1\<rparr>, owner := O_Fix t, taken := taken s @ [v]\<rparr>"
  have b: "bottom (dq s) = t" "b = t" "v = get_circular_array (active (dq s)) t"
    using inv pc by (simp_all add: cl_inv_def)
  have "live s = [v]" "live ?s = []" using pc b eq by (simp_all add: live_def)
  moreover have "thief_ok ((dq s)\<lparr>top := t + 1\<rparr>) (t + 1) p" if "thief_ok (dq s) (b + 1) p" for p
    using that eq by (cases p) auto
  ultimately show ?thesis using inv pc eq b by (simp add: cl_inv_def shape_ok_def)
qed

lemma owner_move_inv:
  assumes "cl_inv s" "live_end b p = lend s" "owner_ok ((dq s)\<lparr>bottom := b\<rparr>) p"
  shows "cl_inv (s\<lparr>dq := (dq s)\<lparr>bottom := b\<rparr>, owner := p\<rparr>)"
  using assms by (simp add: cl_inv_def shape_ok_def live_def)

lemma owner_goto_inv:
  assumes "cl_inv s" "live_end (bottom (dq s)) p = lend s" "owner_ok (dq s) p"
  shows "cl_inv (s\<lparr>owner := p\<rparr>)"
  using assms by (simp add: cl_inv_def shape_ok_def live_def)

lemma owner_step_inv:
  assumes inv: "cl_inv s" and step: "owner_step s s'"
  shows "cl_inv s'"
proof -
  have own: "owner_ok (dq s) (owner s)" and shape: "shape_ok s" using inv by (simp_all add: cl_inv_def)
  have size: "0 < asize (active (dq s))" using shape by (auto simp: shape_ok_def arr_ok_def)
  from step show ?thesis
  proof cases
    case (push_full x)
    then show ?thesis using shape by (auto intro!: owner_goto_inv [OF inv] simp: shape_ok_def)
  next
    case (push_room x)
    then show ?thesis using size by (auto intro!: owner_goto_inv [OF inv])
  next
    case (pop_dec)
    then show ?thesis using own by (auto intro!: owner_move_inv [OF inv])
  next
    case (pop_lost b)
    then show ?thesis using own shape by (auto intro!: owner_goto_inv [OF inv] simp: shape_ok_def)
  next
    case (pop_single b)
    then show ?thesis using own by (auto intro!: owner_goto_inv [OF inv])
  next
    case (pop_raced b t v)
    then show ?thesis using own shape by (auto intro!: owner_goto_inv [OF inv] simp: shape_ok_def)
  next
    case (pop_reset t)
    then show ?thesis using own by (auto intro!: owner_move_inv [OF inv])
  next
    case (pop_fix t)
    then show ?thesis using own by (auto intro!: owner_move_inv [OF inv])
  next
    case (push_grow x t)
    then show ?thesis using push_grow_inv [OF inv] by simp
  next
    case (push_put x)
    then show ?thesis using push_put_inv [OF inv] by simp
  next
    case (push_bump x)
    then show ?thesis using push_bump_inv [OF inv] by simp
  next
    case (pop_take b)
    then show ?thesis using pop_take_inv [OF inv] by simp
  next
    case (pop_won b t v)
    then show ?thesis using pop_won_inv [OF inv] by simp
  qed (auto intro!: owner_goto_inv [OF inv])
qed

lemma cl_reachable_inv: "cl_reachable n s \<Longrightarrow> 0 < n \<Longrightarrow> cl_inv s"
  by (induction rule: cl_reachable.induct) (auto intro: cl_init_inv owner_step_inv thief_step_inv)

section \<open>Half steals\<close>

text \<open>
  \<^verbatim>\<open>arts_deque_simple_pop_back_half\<close> cut at its compare-and-swap: \<open>half_read\<close> is what it
  loads and decides before, \<open>half_commit\<close> the swap and the copy after it.
\<close>

definition half_read :: "'a arts_deque \<Rightarrow> nat \<Rightarrow> (nat \<times> nat \<times> 'a circular_array) option" where
  "half_read d mx =
     (if int (bottom d) - int (top d) \<le> 0 then None
      else
        let t = top d; b = bottom d; a = active d; available = int b - int t in
        if available \<le> 0 then None
        else
          let to_steal = nat (available div 2);
              to_steal = (if to_steal = 0 then 1 else to_steal);
              to_steal = (if to_steal > mx then mx else to_steal)
          in Some (t, to_steal, a))"

definition half_commit :: "'a arts_deque \<Rightarrow> nat \<times> nat \<times> 'a circular_array \<Rightarrow> 'a arts_deque \<times> 'a option list" where
  "half_commit d r =
     (case r of (t, to_steal, a) \<Rightarrow>
        if top d = t
        then (d\<lparr>top := t + to_steal\<rparr>, map (\<lambda>i. segment a ! ((t + i) mod asize a)) [0..<to_steal])
        else (d, []))"

lemma pop_back_half_cut:
  "arts_deque_simple_pop_back_half d mx =
     (case half_read d mx of None \<Rightarrow> (d, []) | Some r \<Rightarrow> half_commit d r)"
  by (simp add: arts_deque_simple_pop_back_half_def half_read_def half_commit_def Let_def)

definition demo_deque :: "nat arts_deque" where
  "demo_deque = foldl arts_deque_simple_push_front (arts_deque_simple_new 8) [1, 2, 3, 4]"

fun pop_n :: "nat \<Rightarrow> 'a arts_deque \<Rightarrow> 'a arts_deque \<times> 'a option list" where
  "pop_n 0 d = (d, [])"
| "pop_n (Suc n) d =
     (let (d', x) = arts_deque_simple_pop_front d; (d'', xs) = pop_n n d' in (d'', x # xs))"

section \<open>Properties\<close>



text \<open>
  C21.  The half steal is not safe next to its owner: between the loads of a thief and
  its compare-and-swap the owner may pop items without touching \<^verbatim>\<open>top\<close>, and the swap
  still succeeds.  Item 2 of four is then returned to both.
\<close>

theorem pop_back_half_duplicates:
  "\<exists>r. half_read demo_deque 32 = Some r \<and>
       snd (pop_n 3 demo_deque) = [Some 4, Some 3, Some 2] \<and>
       snd (half_commit (fst (pop_n 3 demo_deque)) r) = [Some 1, Some 2]"
proof -
  have r: "half_read demo_deque 32 = Some (1, 2, active demo_deque)" by code_simp
  have p: "snd (pop_n 3 demo_deque) = [Some 4, Some 3, Some 2]" by code_simp
  have "snd (half_commit (fst (pop_n 3 demo_deque)) (1, 2, active demo_deque)) = [Some 1, Some 2]" by code_simp
  then show ?thesis using r p by blast
qed



end
