(* ===== verification/Deque_Priority.thy ===== *)
theory Deque_Priority
  imports Deque
begin

text \<open>
  The priority deque of \<^verbatim>\<open>utils/deque_priority.c\<close>: a binary search tree of Chase-Lev
  deques keyed by priority, and the dispatch of \<^verbatim>\<open>utils/deque.c\<close> between the two
  implementations.  Operations run one at a time; a child pointer that stays NULL
  behind a taken child lock makes the search spin.
\<close>

section \<open>Operations\<close>

datatype 'a ptree =
    P_Null
  | P_Node (sub: "'a arts_deque") (prio: u32) (leftLock: u32) (rightLock: u32)
      (left: "'a ptree") (right: "'a ptree")

definition arts_deque_priority_new :: "nat \<Rightarrow> 'a ptree" where
  "arts_deque_priority_new n = P_Node (arts_deque_simple_new n) 0 0 0 P_Null P_Null"

definition arts_deque_priority_clear :: "'a ptree \<Rightarrow> 'a ptree" where
  "arts_deque_priority_clear t =
     (case t of P_Null \<Rightarrow> P_Null
      | P_Node d p ll rl l r \<Rightarrow> P_Node (d\<lparr>top := bottom d\<rparr>) p ll rl l r)"

definition arts_deque_priority_size :: "'a ptree \<Rightarrow> nat" where
  "arts_deque_priority_size t = (case t of P_Null \<Rightarrow> 0 | P_Node d p ll rl l r \<Rightarrow> bottom d - top d)"

text \<open>The node that \<^verbatim>\<open>find_the_deque\<close> creates for a priority it did not find.\<close>

definition new_sub_deque :: "u32 \<Rightarrow> 'a ptree" where
  "new_sub_deque p = (case arts_deque_priority_new 8 of
      P_Null \<Rightarrow> P_Null | P_Node d q ll rl l r \<Rightarrow> P_Node d p ll rl l r)"

fun push_here :: "'a \<Rightarrow> 'a ptree \<Rightarrow> 'a ptree" where
  "push_here x P_Null = P_Null"
| "push_here x (P_Node d p ll rl l r) =
     (let b = bottom d; t = top d;
          d = (if asize (active d) - 1 + t \<le> b then install_grown d b t else d)
      in P_Node ((put_active d b x)\<lparr>bottom := b + 1\<rparr>) p ll rl l r)"

text \<open>Search by \<^verbatim>\<open>find_the_deque\<close>, then the push into the deque found.\<close>

fun arts_deque_priority_push_front :: "'a ptree \<Rightarrow> 'a \<Rightarrow> u32 \<Rightarrow> 'a ptree res" where
  "arts_deque_priority_push_front P_Null x pr = Inl Null_Deref"
| "arts_deque_priority_push_front (P_Node d p ll rl l r) x pr =
     (if p = pr then Inr (push_here x (P_Node d p ll rl l r))
      else if pr < p then
        (case (if ll = 0 then arts_atomic_cswap ll 0 1 else (ll, ll)) of
           (ll', old) \<Rightarrow>
             if ll = 0 \<and> old = 0 then Inr (P_Node d p ll' rl (push_here x (new_sub_deque pr)) r)
             else if l = P_Null then Inl Spins_Forever
             else rbind (arts_deque_priority_push_front l x pr) (\<lambda>l'. Inr (P_Node d p ll' rl l' r)))
      else
        (case (if rl = 0 then arts_atomic_cswap rl 0 1 else (rl, rl)) of
           (rl', old) \<Rightarrow>
             if rl = 0 \<and> old = 0 then Inr (P_Node d p ll rl' l (push_here x (new_sub_deque pr)))
             else if r = P_Null then Inl Spins_Forever
             else rbind (arts_deque_priority_push_front r x pr) (\<lambda>r'. Inr (P_Node d p ll rl' l r'))))"

text \<open>The attempt on the deque of one node, after the fast-path test.\<close>

definition try_front :: "'a arts_deque \<Rightarrow> 'a arts_deque \<times> 'a option" where
  "try_front d =
     (let b = bottom d - 1; d = d\<lparr>bottom := b\<rparr>; t = top d;
          x = get_circular_array (active d) b
      in if b < t then (d\<lparr>bottom := t\<rparr>, None)
         else if b \<le> t then
           let (x, d) = (if top d = t then (x, d\<lparr>top := t + 1\<rparr>) else (None, d))
           in (d\<lparr>bottom := t + 1\<rparr>, x)
         else (d, x))"

definition try_back :: "'a arts_deque \<Rightarrow> 'a arts_deque \<times> 'a option" where
  "try_back d =
     (let t = top d; b = bottom d in
      if t < b then
        let x = get_circular_array (active d) t in
        if top d = t then (d\<lparr>top := t + 1\<rparr>, x) else (d, None)
      else (d, None))"

fun arts_deque_priority_pop_front :: "'a ptree \<Rightarrow> 'a ptree \<times> 'a option" where
  "arts_deque_priority_pop_front P_Null = (P_Null, None)"
| "arts_deque_priority_pop_front (P_Node d p ll rl l r) =
     (let (l', x) = (if l \<noteq> P_Null then arts_deque_priority_pop_front l else (l, None)) in
      if x \<noteq> None then (P_Node d p ll rl l' r, x)
      else if bottom d \<le> top d then
        (if r \<noteq> P_Null then
           let (r', y) = arts_deque_priority_pop_front r in (P_Node d p ll rl l' r', y)
         else (P_Node d p ll rl l' r, None))
      else
        let (d', y) = try_front d in
        if y = None \<and> r \<noteq> P_Null then
          let (r', z) = arts_deque_priority_pop_front r in (P_Node d' p ll rl l' r', z)
        else (P_Node d' p ll rl l' r, y))"

fun arts_deque_priority_pop_back :: "'a ptree \<Rightarrow> 'a ptree \<times> 'a option" where
  "arts_deque_priority_pop_back P_Null = (P_Null, None)"
| "arts_deque_priority_pop_back (P_Node d p ll rl l r) =
     (let (l', x) = (if l \<noteq> P_Null then arts_deque_priority_pop_back l else (l, None)) in
      if x \<noteq> None then (P_Node d p ll rl l' r, x)
      else if bottom d \<le> top d then
        (if r \<noteq> P_Null then
           let (r', y) = arts_deque_priority_pop_back r in (P_Node d p ll rl l' r', y)
         else (P_Node d p ll rl l' r, None))
      else
        let (d', y) = try_back d in
        if y = None \<and> r \<noteq> P_Null then
          let (r', z) = arts_deque_priority_pop_back r in (P_Node d' p ll rl l' r', z)
        else (P_Node d' p ll rl l' r, y))"

section \<open>Dispatch\<close>

datatype deque_impl = simple_ops | priority_ops

definition arts_deque_select :: "u32 \<Rightarrow> deque_impl" where
  "arts_deque_select ty = (let ty = (if ty \<ge> 2 then 0 else ty) in if ty = 0 then simple_ops else priority_ops)"

datatype 'a any_deque = Simple "'a arts_deque" | Priority "'a ptree"

definition arts_deque_new :: "deque_impl \<Rightarrow> nat \<Rightarrow> 'a any_deque" where
  "arts_deque_new ops n =
     (case ops of simple_ops \<Rightarrow> Simple (arts_deque_simple_new n)
      | priority_ops \<Rightarrow> Priority (arts_deque_priority_new n))"

definition arts_deque_push_front :: "'a any_deque \<Rightarrow> 'a \<Rightarrow> u32 \<Rightarrow> 'a any_deque res" where
  "arts_deque_push_front q x pr =
     (case q of Simple d \<Rightarrow> Inr (Simple (arts_deque_simple_push_front d x))
      | Priority t \<Rightarrow> rbind (arts_deque_priority_push_front t x pr) (\<lambda>t'. Inr (Priority t')))"

definition arts_deque_pop_front :: "'a any_deque \<Rightarrow> 'a any_deque \<times> 'a option" where
  "arts_deque_pop_front q =
     (case q of Simple d \<Rightarrow> (let (d', x) = arts_deque_simple_pop_front d in (Simple d', x))
      | Priority t \<Rightarrow> (let (t', x) = arts_deque_priority_pop_front t in (Priority t', x)))"

definition arts_deque_pop_back :: "'a any_deque \<Rightarrow> 'a any_deque \<times> 'a option" where
  "arts_deque_pop_back q =
     (case q of Simple d \<Rightarrow> (let (d', x) = arts_deque_simple_pop_back d in (Simple d', x))
      | Priority t \<Rightarrow> (let (t', x) = arts_deque_priority_pop_back t in (Priority t', x)))"

section \<open>Invariant and contents\<close>

fun pkeys :: "'a ptree \<Rightarrow> u32 set" where
  "pkeys P_Null = {}"
| "pkeys (P_Node d p ll rl l r) = insert p (pkeys l \<union> pkeys r)"

fun pt_inv :: "'a ptree \<Rightarrow> bool" where
  "pt_inv P_Null = True"
| "pt_inv (P_Node d p ll rl l r) =
     (dq_inv d \<and> (\<forall>k\<in>pkeys l. k < p) \<and> (\<forall>k\<in>pkeys r. p < k) \<and>
      (ll = 0 \<longleftrightarrow> l = P_Null) \<and> (rl = 0 \<longleftrightarrow> r = P_Null) \<and> pt_inv l \<and> pt_inv r)"

fun pt_items :: "'a ptree \<Rightarrow> u32 \<Rightarrow> 'a list" where
  "pt_items P_Null k = []"
| "pt_items (P_Node d p ll rl l r) k = (if k = p then dq_abs d else if k < p then pt_items l k else pt_items r k)"

lemma push_here_simple [simp]:
  "push_here x (P_Node d p ll rl l r) = P_Node (arts_deque_simple_push_front d x) p ll rl l r"
  by (simp add: arts_deque_simple_push_front_def Let_def)

declare push_here.simps(2) [simp del]

lemma new_sub_deque_node [simp]: "new_sub_deque p = P_Node (arts_deque_simple_new 8) p 0 0 P_Null P_Null"
  by (simp add: new_sub_deque_def arts_deque_priority_new_def)

lemma try_front_simple: "top d < bottom d \<Longrightarrow> try_front d = arts_deque_simple_pop_front d"
  by (auto simp: try_front_def arts_deque_simple_pop_front_def Let_def)

lemma try_back_simple: "top d < bottom d \<Longrightarrow> try_back d = arts_deque_simple_pop_back d"
  by (simp add: try_back_def arts_deque_simple_pop_back_def Let_def)

lemma pt_items_notin: "k \<notin> pkeys t \<Longrightarrow> pt_items t k = []"
  by (induction t) auto

lemma priority_push_ok:
  assumes "pt_inv t" "t \<noteq> P_Null"
  shows "\<exists>t'. arts_deque_priority_push_front t x pr = Inr t' \<and> pt_inv t' \<and> t' \<noteq> P_Null \<and>
    pkeys t' = insert pr (pkeys t) \<and> pt_items t' = (pt_items t)(pr := pt_items t pr @ [x])"
  using assms
proof (induction t)
  case (P_Node d p ll rl l r)
  have inv: "dq_inv d" "pt_inv l" "pt_inv r" "ll = 0 \<longleftrightarrow> l = P_Null" "rl = 0 \<longleftrightarrow> r = P_Null"
    and bst: "\<forall>k\<in>pkeys l. k < p" "\<forall>k\<in>pkeys r. p < k" using P_Node.prems by auto
  have d: "dq_inv (arts_deque_simple_push_front d x)"
    "dq_abs (arts_deque_simple_push_front d x) = dq_abs d @ [x]" using push_front_ok [OF inv(1)] by auto
  have new: "dq_inv (arts_deque_simple_push_front (arts_deque_simple_new 8) x)"
    "dq_abs (arts_deque_simple_push_front (arts_deque_simple_new 8) x) = [x]"
    using push_front_ok [OF new_ok, of 8 x] by auto
  consider "p = pr" | "pr < p" "l = P_Null" | "pr < p" "l \<noteq> P_Null" | "p < pr" "r = P_Null" | "p < pr" "r \<noteq> P_Null"
    by (metis linorder_neqE)
  then show ?case
  proof cases
    case 1
    then show ?thesis using inv bst d by (auto simp: fun_eq_iff)
  next
    case 2
    then show ?thesis using inv bst new by (auto simp: fun_eq_iff arts_atomic_cswap_def)
  next
    case 3
    then obtain l' where "arts_deque_priority_push_front l x pr = Inr l'" "pt_inv l'" "l' \<noteq> P_Null"
      "pkeys l' = insert pr (pkeys l)" "pt_items l' = (pt_items l)(pr := pt_items l pr @ [x])"
      using P_Node.IH(1) inv by blast
    then show ?thesis using 3 inv bst by (auto simp: fun_eq_iff)
  next
    case 4
    then show ?thesis using inv bst new by (auto simp: fun_eq_iff arts_atomic_cswap_def)
  next
    case 5
    then obtain r' where "arts_deque_priority_push_front r x pr = Inr r'" "pt_inv r'" "r' \<noteq> P_Null"
      "pkeys r' = insert pr (pkeys r)" "pt_items r' = (pt_items r)(pr := pt_items r pr @ [x])"
      using P_Node.IH(2) inv by blast
    then show ?thesis using 5 inv bst by (auto simp: fun_eq_iff)
  qed
qed simp

text \<open>
  What a pop does to the contents: the first non-empty priority loses the item that
  \<open>pick\<close> selects, and \<open>rest\<close> of its items remains.
\<close>

definition pops ::
    "('a list \<Rightarrow> 'a) \<Rightarrow> ('a list \<Rightarrow> 'a list) \<Rightarrow> 'a ptree \<Rightarrow> 'a ptree \<times> 'a option \<Rightarrow> bool" where
  "pops pick rest t res \<longleftrightarrow>
     pt_inv (fst res) \<and> pkeys (fst res) = pkeys t \<and> (fst res = P_Null \<longleftrightarrow> t = P_Null) \<and>
     (case snd res of
        None \<Rightarrow> (\<forall>k. pt_items t k = []) \<and> pt_items (fst res) = pt_items t
      | Some x \<Rightarrow> (\<exists>p. pt_items t p \<noteq> [] \<and> (\<forall>k < p. pt_items t k = []) \<and> x = pick (pt_items t p) \<and>
          pt_items (fst res) = (pt_items t)(p := rest (pt_items t p))))"

lemma pops_none: "pops pick rest t (t', None) \<longleftrightarrow> pt_inv t' \<and> pkeys t' = pkeys t \<and>
    (t' = P_Null \<longleftrightarrow> t = P_Null) \<and> (\<forall>k. pt_items t k = []) \<and> pt_items t' = pt_items t"
  by (simp add: pops_def)

lemma pops_someI:
  assumes "pt_inv t'" "pkeys t' = pkeys t" "t' = P_Null \<longleftrightarrow> t = P_Null"
    "pt_items t p \<noteq> []" "\<forall>k < p. pt_items t k = []" "pt_items t' = (pt_items t)(p := rest (pt_items t p))"
  shows "pops pick rest t (t', Some (pick (pt_items t p)))"
  using assms by (auto simp: pops_def)

lemma pops_someE:
  assumes "pops pick rest t (t', Some x)"
  obtains p where "pt_inv t'" "pkeys t' = pkeys t" "t' = P_Null \<longleftrightarrow> t = P_Null" "pt_items t p \<noteq> []" "p \<in> pkeys t"
    "\<forall>k < p. pt_items t k = []" "x = pick (pt_items t p)" "pt_items t' = (pt_items t)(p := rest (pt_items t p))"
  using assms pt_items_notin [of _ t] by (auto simp: pops_def)

lemma pops_left:
  assumes "pt_inv (P_Node d p ll rl l r)" "pops pick rest l (l', Some x)"
  shows "pops pick rest (P_Node d p ll rl l r) (P_Node d p ll rl l' r, Some x)"
proof -
  from assms(2) obtain q where q: "pt_inv l'" "pkeys l' = pkeys l" "l' = P_Null \<longleftrightarrow> l = P_Null" "pt_items l q \<noteq> []"
    "q \<in> pkeys l" "\<forall>k < q. pt_items l k = []" "x = pick (pt_items l q)"
    "pt_items l' = (pt_items l)(q := rest (pt_items l q))" by (rule pops_someE)
  have lt: "q < p" using assms(1) q(5) by auto
  then have qi: "pt_items (P_Node d p ll rl l r) q = pt_items l q" by auto
  have "pops pick rest (P_Node d p ll rl l r) (P_Node d p ll rl l' r, Some (pick (pt_items (P_Node d p ll rl l r) q)))"
    by (rule pops_someI) (use assms(1) q lt qi in \<open>auto simp: fun_eq_iff\<close>)
  then show ?thesis using q(7) qi by simp
qed

lemma pops_mid:
  assumes "pt_inv (P_Node d p ll rl l r)" "pops pick rest l (l', None)" "dq_abs d \<noteq> []"
    "dq_inv d'" "dq_abs d' = rest (dq_abs d)"
  shows "pops pick rest (P_Node d p ll rl l r) (P_Node d' p ll rl l' r, Some (pick (dq_abs d)))"
proof -
  have "pops pick rest (P_Node d p ll rl l r) (P_Node d' p ll rl l' r, Some (pick (pt_items (P_Node d p ll rl l r) p)))"
    by (rule pops_someI) (use assms in \<open>auto simp: pops_none fun_eq_iff simp del: dq_abs_Nil\<close>)
  then show ?thesis by simp
qed

lemma pops_right:
  assumes inv: "pt_inv (P_Node d p ll rl l r)" and l: "pops pick rest l (l', None)"
    and d: "dq_abs d = []" "dq_inv d'" "dq_abs d' = []" and r: "pops pick rest r (r', y)"
  shows "pops pick rest (P_Node d p ll rl l r) (P_Node d' p ll rl l' r', y)"
proof (cases y)
  case None
  then show ?thesis
    using inv l d r by (auto simp: pops_none fun_eq_iff simp del: dq_abs_Nil)
next
  case (Some x)
  from r [unfolded Some] obtain q where q: "pt_inv r'" "pkeys r' = pkeys r" "r' = P_Null \<longleftrightarrow> r = P_Null"
    "pt_items r q \<noteq> []" "q \<in> pkeys r" "\<forall>k < q. pt_items r k = []" "x = pick (pt_items r q)"
    "pt_items r' = (pt_items r)(q := rest (pt_items r q))" by (rule pops_someE)
  have gt: "p < q" using inv q(5) by auto
  then have qi: "pt_items (P_Node d p ll rl l r) q = pt_items r q" by auto
  have "pops pick rest (P_Node d p ll rl l r) (P_Node d' p ll rl l' r', Some (pick (pt_items (P_Node d p ll rl l r) q)))"
    by (rule pops_someI) (use inv l d q gt qi in \<open>auto simp: pops_none fun_eq_iff simp del: dq_abs_Nil\<close>)
  then show ?thesis using q(7) qi Some by simp
qed

lemma pops_null [simp]: "pops pick rest P_Null (P_Null, None)"
  by (simp add: pops_none)

lemma priority_pop_front_ok: "pt_inv t \<Longrightarrow> pops last butlast t (arts_deque_priority_pop_front t)"
proof (induction t)
  case (P_Node d p ll rl l r)
  note inv = P_Node.prems
  obtain l' x where l: "(if l \<noteq> P_Null then arts_deque_priority_pop_front l else (l, None)) = (l', x)"
    by (cases "if l \<noteq> P_Null then arts_deque_priority_pop_front l else (l, None)")
  have pl: "pops last butlast l (l', x)" using P_Node.IH(1) inv l by (auto split: if_splits)
  obtain r' y where r: "arts_deque_priority_pop_front r = (r', y)" by (cases "arts_deque_priority_pop_front r")
  have pr: "pops last butlast r (r', y)" using P_Node.IH(2) inv r by auto
  have d: "dq_inv d" using inv by simp
  show ?case
  proof (cases x)
    case (Some v)
    then show ?thesis using l pops_left [OF inv pl [unfolded Some]] by simp
  next
    case None
    note pl = pl [unfolded None]
    show ?thesis
    proof (cases "bottom d \<le> top d")
      case True
      then have "dq_abs d = []" by simp
      note right = pops_right [OF inv pl this d this pr]
      show ?thesis using l None True r right by (cases "r = P_Null") auto
    next
      case False
      then have ne: "dq_abs d \<noteq> []" by simp
      obtain d' where d': "try_front d = (d', Some (last (dq_abs d)))" "dq_inv d'" "dq_abs d' = butlast (dq_abs d)"
        using pop_front_ok [OF d ne] False try_front_simple [of d] by (cases "arts_deque_simple_pop_front d") auto
      show ?thesis using l None False d' pops_mid [OF inv pl ne d'(2,3)] by simp
    qed
  qed
qed simp

lemma priority_pop_back_ok: "pt_inv t \<Longrightarrow> pops hd tl t (arts_deque_priority_pop_back t)"
proof (induction t)
  case (P_Node d p ll rl l r)
  note inv = P_Node.prems
  obtain l' x where l: "(if l \<noteq> P_Null then arts_deque_priority_pop_back l else (l, None)) = (l', x)"
    by (cases "if l \<noteq> P_Null then arts_deque_priority_pop_back l else (l, None)")
  have pl: "pops hd tl l (l', x)" using P_Node.IH(1) inv l by (auto split: if_splits)
  obtain r' y where r: "arts_deque_priority_pop_back r = (r', y)" by (cases "arts_deque_priority_pop_back r")
  have pr: "pops hd tl r (r', y)" using P_Node.IH(2) inv r by auto
  have d: "dq_inv d" using inv by simp
  show ?case
  proof (cases x)
    case (Some v)
    then show ?thesis using l pops_left [OF inv pl [unfolded Some]] by simp
  next
    case None
    note pl = pl [unfolded None]
    show ?thesis
    proof (cases "bottom d \<le> top d")
      case True
      then have "dq_abs d = []" by simp
      note right = pops_right [OF inv pl this d this pr]
      show ?thesis using l None True r right by (cases "r = P_Null") auto
    next
      case False
      then have ne: "dq_abs d \<noteq> []" by simp
      obtain d' where d': "try_back d = (d', Some (hd (dq_abs d)))" "dq_inv d'" "dq_abs d' = tl (dq_abs d)"
        using pop_back_ok [OF d ne] False try_back_simple [of d] by (cases "arts_deque_simple_pop_back d") auto
      show ?thesis using l None False d' pops_mid [OF inv pl ne d'(2,3)] by simp
    qed
  qed
qed simp

lemma priority_new_ok: "0 < n \<Longrightarrow> pt_inv (arts_deque_priority_new n)"
  by (simp add: arts_deque_priority_new_def new_ok)

section \<open>Properties\<close>

text \<open>
  A push with a priority always succeeds on a well-formed tree, keeps the search
  tree and its child locks well-formed, and adds the item behind the others of that
  priority.
\<close>

theorem priority_push_adds:
  assumes "pt_inv t" "t \<noteq> P_Null"
  shows "\<exists>t'. arts_deque_priority_push_front t x pr = Inr t' \<and> pt_inv t' \<and>
           pt_items t' = (pt_items t)(pr := pt_items t pr @ [x])"
  using priority_push_ok [OF assms] by blast

theorem priority_push_adds_witness:
  "\<exists>t'. arts_deque_priority_push_front (arts_deque_priority_new 8) (1 :: nat) 5 = Inr t' \<and> pt_inv t' \<and>
     pt_items t' 5 = [1]"
  using priority_push_adds [of "arts_deque_priority_new 8" "1 :: nat" 5]
  by (auto simp: arts_deque_priority_new_def new_ok)

text \<open>
  C23.  Priority order: a pop by the owner or a steal returns an item of the smallest
  priority value that has one (the youngest for the owner, the oldest for a thief),
  removes exactly that item, and returns NULL only when the whole tree is empty.
\<close>

theorem priority_pop_most_urgent:
  assumes "pt_inv t"
  shows "pops last butlast t (arts_deque_priority_pop_front t) \<and>
         pops hd tl t (arts_deque_priority_pop_back t)"
  using priority_pop_front_ok [OF assms] priority_pop_back_ok [OF assms] by blast

definition demo_tree :: "nat ptree" where
  "demo_tree =
     (case arts_deque_priority_push_front (arts_deque_priority_new 8) 10 5 of
        Inl _ \<Rightarrow> P_Null
      | Inr t \<Rightarrow> (case arts_deque_priority_push_front t 20 3 of Inl _ \<Rightarrow> P_Null | Inr t' \<Rightarrow> t'))"

lemma demo_tree_inv: "pt_inv demo_tree"
proof -
  obtain t where t: "arts_deque_priority_push_front (arts_deque_priority_new 8) (10 :: nat) 5 = Inr t" "pt_inv t" "t \<noteq> P_Null"
    using priority_push_ok [OF priority_new_ok, of 8 "10 :: nat" 5] by (auto simp: arts_deque_priority_new_def)
  then show ?thesis using priority_push_ok [OF t(2,3), of "20" 3] by (auto simp: demo_tree_def)
qed

theorem priority_pop_most_urgent_witness:
  "pops last butlast demo_tree (arts_deque_priority_pop_front demo_tree) \<and>
   snd (arts_deque_priority_pop_front demo_tree) = Some 20"
proof -
  have "snd (arts_deque_priority_pop_front demo_tree) = Some 20" by code_simp
  then show ?thesis using priority_pop_most_urgent [OF demo_tree_inv] by blast
qed

end
