(* ===== verification/Oo_List.thy ===== *)
theory Oo_List
  imports Atomics
begin

text \<open>
  The out-of-order list of \<^verbatim>\<open>gas/out_of_order_list.c\<close>: operations on a GUID that arrive
  before its object are parked here and replayed when the object becomes available.
  The chain of four-slot elements is the list \<open>elements\<close>, whose first entry is the
  embedded \<^verbatim>\<open>head\<close>.  Calls run one at a time; a busy-wait on a condition that only
  another thread could change is \<open>Spins_Forever\<close>.
\<close>

section \<open>Data\<close>

abbreviation OOPERELEMENT :: nat where
  "OOPERELEMENT \<equiv> 4"

abbreviation FIRE_LOCK :: u32 where
  "FIRE_LOCK \<equiv> 1"

abbreviation RESET_LOCK :: u32 where
  "RESET_LOCK \<equiv> 2"

record 'a oo_list =
  readerLock :: u32
  writerLock :: u32
  count :: u32
  isFired :: bool
  elements :: "'a option list list"

definition oo_new :: "'a oo_list" where
  "oo_new = \<lparr>readerLock = 0, writerLock = 0, count = 0, isFired = False,
     elements = [replicate OOPERELEMENT None]\<rparr>"

section \<open>Locks\<close>

definition reader_oo_try_lock :: "'a oo_list \<Rightarrow> ('a oo_list \<times> bool) res" where
  "reader_oo_try_lock l =
     (if writerLock l = FIRE_LOCK then Inr (l, False)
      else if writerLock l = RESET_LOCK then Inl Spins_Forever
      else if writerLock l = 0 then Inr (l\<lparr>readerLock := fst (arts_atomic_fetch_add (readerLock l) 1)\<rparr>, True)
      else Inl Spins_Forever)"

definition reader_oo_unlock :: "'a oo_list \<Rightarrow> 'a oo_list" where
  "reader_oo_unlock l = l\<lparr>readerLock := fst (arts_atomic_sub (readerLock l) 1)\<rparr>"

definition writer_oo_unlock :: "'a oo_list \<Rightarrow> 'a oo_list" where
  "writer_oo_unlock l = l\<lparr>writerLock := fst (arts_atomic_swap (writerLock l) 0)\<rparr>"

definition writer_try_oo_lock :: "'a oo_list \<Rightarrow> u32 \<Rightarrow> 'a oo_list \<times> bool" where
  "writer_try_oo_lock l lock_type =
     (case arts_atomic_cswap (writerLock l) 0 lock_type of
        (w, temp) \<Rightarrow>
          let l = l\<lparr>writerLock := w\<rparr> in
          if temp = 0 then
            (if readerLock l \<noteq> 0 then (writer_oo_unlock l, False) else (l, True))
          else (l, False))"

definition arts_o_ois_fired :: "'a oo_list \<Rightarrow> bool" where
  "arts_o_ois_fired l = isFired l"

section \<open>Operations\<close>

text \<open>
  Walk to the element of a position: \<open>n\<close> hops remain.  A missing next element is
  allocated when it is the last hop and the position is its first slot.
\<close>

fun walk_alloc :: "nat \<Rightarrow> bool \<Rightarrow> 'a option list list \<Rightarrow> 'a option list list res" where
  "walk_alloc 0 alloc es = Inr es"
| "walk_alloc (Suc n) alloc [] = Inl Null_Deref"
| "walk_alloc (Suc n) alloc (e # es) =
     (if es = [] then
        (if n = 0 \<and> alloc then Inr [e, replicate OOPERELEMENT None] else Inl Spins_Forever)
      else rbind (walk_alloc n alloc es) (\<lambda>es'. Inr (e # es')))"

definition arts_out_of_order_list_add_item :: "'a oo_list \<Rightarrow> 'a \<Rightarrow> ('a oo_list \<times> bool) res" where
  "arts_out_of_order_list_add_item l item =
     rbind (reader_oo_try_lock l) (\<lambda>(l, got).
       if \<not> got then Inr (l, False)
       else if arts_o_ois_fired l then Inr (reader_oo_unlock l, False)
       else
         let pos = count l;
             l = l\<lparr>count := fst (arts_atomic_fetch_add (count l) 1)\<rparr>;
             num_elements = unat pos div OOPERELEMENT;
             element_pos = unat pos mod OOPERELEMENT
         in rbind (walk_alloc num_elements (element_pos = 0) (elements l)) (\<lambda>es.
              if es ! num_elements ! element_pos \<noteq> None then Inl Spins_Forever
              else
                let e = (es ! num_elements)[element_pos := Some item]
                in Inr (reader_oo_unlock (l\<lparr>elements := es[num_elements := e]\<rparr>), True)))"

definition arts_out_of_order_list_reset :: "'a oo_list \<Rightarrow> 'a oo_list" where
  "arts_out_of_order_list_reset l =
     (case writer_try_oo_lock l RESET_LOCK of
        (l, got) \<Rightarrow> if got then writer_oo_unlock (l\<lparr>isFired := False\<rparr>) else l)"

definition arts_out_of_order_list_delete :: "'a oo_list \<Rightarrow> 'a oo_list" where
  "arts_out_of_order_list_delete l =
     l\<lparr>elements := [replicate OOPERELEMENT None], isFired := False, count := 0\<rparr>"

text \<open>Take the first \<open>n\<close> slots of one element; an empty one makes the swap loop spin.\<close>

fun take_slots :: "nat \<Rightarrow> 'a option list \<Rightarrow> ('a option list \<times> 'a list) res" where
  "take_slots 0 e = Inr (e, [])"
| "take_slots (Suc n) [] = Inr ([], [])"
| "take_slots (Suc n) (None # e) = Inl Spins_Forever"
| "take_slots (Suc n) (Some x # e) = rbind (take_slots n e) (\<lambda>(e', xs). Inr (None # e', x # xs))"

text \<open>The replay loop over the elements with \<open>n\<close> items to go; it returns the items in order.\<close>

fun fire_loop :: "nat \<Rightarrow> 'a option list list \<Rightarrow> ('a option list list \<times> 'a list) res" where
  "fire_loop n [] = Inr ([], [])"
| "fire_loop n (e # es) =
     rbind (take_slots n e) (\<lambda>(e', xs).
       let left = n - min n (length e) in
       if left = 0 then Inr (e' # es, xs)
       else if es = [] then Inl Spins_Forever
       else rbind (fire_loop left es) (\<lambda>(es', ys). Inr (e' # es', xs @ ys)))"

text \<open>
  The replayed items are returned instead of handed to a callback.  With no other
  thread running every one of the 1000 attempts ends as the first.
\<close>

definition arts_out_of_order_list_fire_callback :: "'a oo_list \<Rightarrow> ('a oo_list \<times> 'a list) res" where
  "arts_out_of_order_list_fire_callback l =
     (case writer_try_oo_lock l FIRE_LOCK of
        (l, got) \<Rightarrow>
          if got then
            let l = l\<lparr>isFired := True\<rparr> in
            rbind (fire_loop (unat (count l)) (elements l)) (\<lambda>(es, xs).
              Inr (writer_oo_unlock (l\<lparr>count := 0, elements := take 1 es\<rparr>), xs))
          else Inr (l, []))"

section \<open>Invariant and contents\<close>

definition oo_inv :: "'a oo_list \<Rightarrow> 'a list \<Rightarrow> bool" where
  "oo_inv l xs \<longleftrightarrow>
     readerLock l = 0 \<and> writerLock l = 0 \<and> unat (count l) = length xs \<and>
     (isFired l \<longrightarrow> xs = []) \<and>
     (\<forall>e\<in>set (elements l). length e = OOPERELEMENT) \<and>
     length (elements l) = max 1 ((length xs + 3) div OOPERELEMENT) \<and>
     concat (elements l) = map Some xs @ replicate (OOPERELEMENT * length (elements l) - length xs) None"

lemma oo_new_inv: "oo_inv oo_new []"
  by (simp add: oo_inv_def oo_new_def)

lemma concat_block_nth:
  assumes "\<forall>e\<in>set es. length e = k" "i < length es" "j < k"
  shows "es ! i ! j = concat es ! (i * k + j)"
  using assms
proof (induction es arbitrary: i)
  case (Cons e es)
  then show ?case by (cases i) (auto simp: nth_append)
qed simp

lemma concat_block_update:
  assumes "\<forall>e\<in>set es. length e = k" "i < length es" "j < k"
  shows "concat (es[i := (es ! i)[j := x]]) = (concat es)[i * k + j := x]"
  using assms
proof (induction es arbitrary: i)
  case (Cons e es)
  then show ?case by (cases i) (auto simp: list_update_append)
qed simp

lemma concat_block_length: "\<forall>e\<in>set es. length e = k \<Longrightarrow> length (concat es) = length es * k"
  by (induction es) auto

lemma walk_alloc_in: "n < length es \<Longrightarrow> walk_alloc n alloc es = Inr es"
proof (induction n arbitrary: es)
  case (Suc n)
  then show ?case by (cases es) auto
qed simp

lemma walk_alloc_new: "0 < n \<Longrightarrow> n = length es \<Longrightarrow> walk_alloc n True es = Inr (es @ [replicate OOPERELEMENT None])"
proof (induction n arbitrary: es)
  case (Suc n)
  then obtain e es' where "es = e # es'" by (cases es) auto
  then show ?case using Suc by (cases "n = 0") auto
qed simp

lemma take_slots_part: "take_slots (length xs) (map Some xs @ zs) = Inr (replicate (length xs) None @ zs, xs)"
  by (induction xs) simp_all

lemma take_slots_all: "take_slots (length xs + k) (map Some xs) = Inr (replicate (length xs) None, xs)"
proof (induction xs)
  case Nil
  then show ?case by (cases k) simp_all
qed simp

lemma fire_loop_ok:
  assumes "\<forall>e\<in>set es. length e = k" "0 < k" "es \<noteq> []" "concat es = map Some xs @ replicate m None"
  shows "\<exists>es'. fire_loop (length xs) es = Inr (es', xs) \<and> es' \<noteq> [] \<and> hd es' = replicate k None"
  using assms
proof (induction es arbitrary: xs)
  case (Cons e es)
  have len: "length e = k" using Cons.prems(1) by simp
  have tk: "e = take k (map Some xs @ replicate m None)"
    "concat es = drop k (map Some xs @ replicate m None)"
    using Cons.prems(4) len by (metis append_eq_conv_conj concat.simps(2))+
  show ?case
  proof (cases "length xs \<le> k")
    case True
    then obtain z where z: "e = map Some xs @ z" "z = replicate (k - length xs) None"
      using tk(1) len by (auto simp: take_replicate min_def)
    then have "take_slots (length xs) e = Inr (replicate (length xs) None @ z, xs)"
      by (simp add: take_slots_part)
    moreover have "replicate (length xs) None @ z = (replicate k None :: 'a option list)"
      using True z(2) by (simp flip: replicate_add)
    ultimately show ?thesis using True len by simp
  next
    case False
    then have e: "e = map Some (take k xs)" using tk(1) by (simp add: take_map)
    have rest: "concat es = map Some (drop k xs) @ replicate m None" using tk(2) False by (simp add: drop_map)
    have ne: "es \<noteq> []" using rest False by auto
    obtain es' where es': "fire_loop (length (drop k xs)) es = Inr (es', drop k xs)"
      using Cons.IH [of "drop k xs"] Cons.prems rest ne by auto
    have "take_slots (length xs) e = Inr (replicate k None, take k xs)"
      using take_slots_all [of "take k xs" "length xs - k"] e False by (simp add: min_def)
    then show ?thesis using False len ne es' by (simp add: min_def)
  qed
qed simp

lemma add_ok:
  assumes inv: "oo_inv l xs" and nf: "\<not> isFired l" and len: "length xs + 1 < 2 ^ 32"
  shows "\<exists>l'. arts_out_of_order_list_add_item l x = Inr (l', True) \<and> oo_inv l' (xs @ [x]) \<and> \<not> isFired l'"
proof -
  let ?n = "length xs" let ?q = "?n div 4" and ?r = "?n mod 4"
  have c: "unat (count l) = ?n" and locks: "readerLock l = 0" "writerLock l = 0"
    and blk: "\<forall>e\<in>set (elements l). length e = 4"
    and num: "length (elements l) = max 1 ((?n + 3) div 4)"
    and cont: "concat (elements l) = map Some xs @ replicate (4 * length (elements l) - ?n) None"
    using inv by (simp_all add: oo_inv_def)
  have c': "unat (count l + 1) = ?n + 1" using len c by (subst unat_add_lt) simp_all
  obtain es where es: "walk_alloc ?q (?r = 0) (elements l) = Inr es" "\<forall>e\<in>set es. length e = 4"
    "length es = (?n + 1 + 3) div 4" "concat es = map Some xs @ replicate (4 * length es - ?n) None"
  proof (cases "?q < length (elements l)")
    case True
    then have "length (elements l) = (?n + 4) div 4" using num by (auto simp: max_def split: if_splits)
    then show thesis using that [of "elements l"] walk_alloc_in [OF True] blk cont by simp
  next
    case False
    have r0: "?r = 0" "?q = length (elements l)" "0 < ?q" using False num by presburger+
    then have n4: "?n = 4 * length (elements l)" by presburger
    have "walk_alloc ?q True (elements l) = Inr (elements l @ [replicate 4 None])"
      using walk_alloc_new r0 by blast
    then show thesis using that [of "elements l @ [replicate 4 None]"] r0 blk cont n4 by simp
  qed
  have q: "?q < length es" using es(3) by simp
  have pos: "?q * 4 + ?r = ?n" by simp
  have lenc: "4 * length es - ?n = Suc (4 * length es - (?n + 1))" using es(3) by presburger
  have empty: "es ! ?q ! ?r = None"
    using concat_block_nth [OF es(2) q, of ?r] es(4) lenc pos by (simp add: nth_append)
  let ?es = "es[?q := (es ! ?q)[?r := Some x]]"
  have "concat ?es = (concat es)[?n := Some x]"
    using concat_block_update [OF es(2) q, of ?r "Some x"] pos by simp
  then have cc: "concat ?es = map Some (xs @ [x]) @ replicate (4 * length ?es - (?n + 1)) None"
    unfolding es(4) lenc by (simp add: list_update_append)
  have blk': "\<forall>e\<in>set ?es. length e = 4"
    using es(2) q set_update_subset_insert [of es ?q] by fastforce
  have "arts_out_of_order_list_add_item l x =
      Inr (l\<lparr>readerLock := 0, count := count l + 1, elements := ?es\<rparr>, True)"
    using locks nf c es(1) empty
    by (simp add: arts_out_of_order_list_add_item_def reader_oo_try_lock_def reader_oo_unlock_def
        arts_o_ois_fired_def atomic_defs Let_def)
  moreover have "oo_inv (l\<lparr>readerLock := 0, count := count l + 1, elements := ?es\<rparr>) (xs @ [x])"
    using locks nf c' cc blk' es(3) by (simp add: oo_inv_def)
  ultimately show ?thesis using nf by auto
qed

lemma add_fired:
  assumes "oo_inv l xs" "isFired l"
  shows "\<exists>l'. arts_out_of_order_list_add_item l x = Inr (l', False) \<and> oo_inv l' xs \<and> isFired l'"
  using assms
  by (simp add: oo_inv_def arts_out_of_order_list_add_item_def reader_oo_try_lock_def
      reader_oo_unlock_def arts_o_ois_fired_def atomic_defs)

lemma fire_ok:
  assumes inv: "oo_inv l xs"
  shows "\<exists>l'. arts_out_of_order_list_fire_callback l = Inr (l', xs) \<and> oo_inv l' [] \<and> isFired l'"
proof -
  have "elements l \<noteq> []" using inv by (auto simp: oo_inv_def)
  then obtain es where es: "fire_loop (length xs) (elements l) = Inr (es, xs)" "es \<noteq> []" "hd es = replicate 4 None"
    using fire_loop_ok [of "elements l" 4 xs] inv by (auto simp: oo_inv_def)
  have "take 1 es = [replicate 4 None]" using es(2,3) by (cases es) auto
  then show ?thesis
    using inv es(1)
    by (simp add: oo_inv_def arts_out_of_order_list_fire_callback_def writer_try_oo_lock_def
        writer_oo_unlock_def atomic_defs Let_def)
qed

lemma reset_oo_ok:
  assumes "oo_inv l xs"
  shows "oo_inv (arts_out_of_order_list_reset l) xs \<and> \<not> isFired (arts_out_of_order_list_reset l)"
  using assms
  by (simp add: oo_inv_def arts_out_of_order_list_reset_def writer_try_oo_lock_def writer_oo_unlock_def
      atomic_defs Let_def)

section \<open>Properties\<close>

text \<open>A sequence of additions, with what each returned.\<close>

fun oo_adds :: "'a list \<Rightarrow> 'a oo_list \<Rightarrow> ('a oo_list \<times> bool list) res" where
  "oo_adds [] l = Inr (l, [])"
| "oo_adds (x # xs) l =
     rbind (arts_out_of_order_list_add_item l x) (\<lambda>(l', b).
       rbind (oo_adds xs l') (\<lambda>(l'', bs). Inr (l'', b # bs)))"

lemma oo_adds_ok:
  assumes "oo_inv l xs" "\<not> isFired l" "length xs + length ys < 2 ^ 32"
  shows "\<exists>l'. oo_adds ys l = Inr (l', replicate (length ys) True) \<and> oo_inv l' (xs @ ys) \<and> \<not> isFired l'"
  using assms
proof (induction ys arbitrary: l xs)
  case (Cons y ys)
  obtain l1 where l1: "arts_out_of_order_list_add_item l y = Inr (l1, True)" "oo_inv l1 (xs @ [y])" "\<not> isFired l1"
    using add_ok [OF Cons.prems(1,2), of y] Cons.prems(3) by auto
  then show ?case using Cons.IH [OF l1(2,3)] Cons.prems(3) by auto
qed auto

text \<open>
  C26.  Every operation parked before the object arrives is replayed exactly once and
  in order of arrival: additions to a fresh list are accepted, firing replays all of
  them in order whatever number of elements they span, a second firing replays
  nothing, and additions after the firing are refused until a reset, so their callers
  run them directly.
\<close>

theorem oo_list_replays_once_in_order:
  assumes "length ys < 2 ^ 32"
  shows "\<exists>l1 l2 l3 l4.
    oo_adds ys oo_new = Inr (l1, replicate (length ys) True) \<and>
    arts_out_of_order_list_fire_callback l1 = Inr (l2, ys) \<and>
    arts_out_of_order_list_add_item l2 z = Inr (l3, False) \<and>
    arts_out_of_order_list_fire_callback l3 = Inr (l4, []) \<and>
    (\<exists>l5. arts_out_of_order_list_add_item (arts_out_of_order_list_reset l4) z = Inr (l5, True))"
proof -
  obtain l1 where l1: "oo_adds ys oo_new = Inr (l1, replicate (length ys) True)" "oo_inv l1 ys"
    using oo_adds_ok [OF oo_new_inv, of ys] assms by (auto simp: oo_new_def)
  obtain l2 where l2: "arts_out_of_order_list_fire_callback l1 = Inr (l2, ys)" "oo_inv l2 []" "isFired l2"
    using fire_ok [OF l1(2)] by blast
  obtain l3 where l3: "arts_out_of_order_list_add_item l2 z = Inr (l3, False)" "oo_inv l3 []"
    using add_fired [OF l2(2,3)] by blast
  obtain l4 where l4: "arts_out_of_order_list_fire_callback l3 = Inr (l4, [])" "oo_inv l4 []"
    using fire_ok [OF l3(2)] by blast
  have "oo_inv (arts_out_of_order_list_reset l4) []" "\<not> isFired (arts_out_of_order_list_reset l4)"
    using reset_oo_ok [OF l4(2)] by blast+
  from add_ok [OF this, of z] show ?thesis using l1 l2 l3 l4 by auto
qed

theorem oo_list_replays_once_in_order_witness:
  "\<exists>l1 l2. oo_adds [1, 2, 3, 4, 5, 6, 7, 8, 9 :: nat] oo_new = Inr (l1, replicate 9 True) \<and>
     arts_out_of_order_list_fire_callback l1 = Inr (l2, [1, 2, 3, 4, 5, 6, 7, 8, 9])"
proof -
  let ?ys = "[1, 2, 3, 4, 5, 6, 7, 8, 9 :: nat]"
  have "length ?ys < 2 ^ 32" by simp
  from oo_list_replays_once_in_order [OF this, of 0]
  have "\<exists>l1 l2. oo_adds ?ys oo_new = Inr (l1, replicate (length ?ys) True) \<and>
      arts_out_of_order_list_fire_callback l1 = Inr (l2, ?ys)" by blast
  moreover have "length ?ys = 9" by simp
  ultimately show ?thesis by (simp only:)
qed

end
