(* ===== verification/Route_Item.thy ===== *)
theory Route_Item
  imports Guid Oo_List
begin

text \<open>
  One entry of the route table (\<^verbatim>\<open>gas/route_table.h\<close>, \<^verbatim>\<open>gas/route_table.c\<close>): a GUID, a data
  pointer and a 64-bit lock word that packs three status bits with a reference count.
  The functions change the whole word at once, as the compare-and-swap loops of the
  source do when no other thread interferes.
\<close>

section \<open>The lock word\<close>

definition RESERVED_ITEM :: u64 where
  "RESERVED_ITEM = 0x8000000000000000"

definition AVAILABLE_ITEM :: u64 where
  "AVAILABLE_ITEM = 0x4000000000000000"

definition DELETE_ITEM :: u64 where
  "DELETE_ITEM = 0x2000000000000000"

definition MAX_ITEM :: u64 where
  "MAX_ITEM = 0x1FFFFFFFFFFFFFFF"

definition COUNT_MASK :: u64 where
  "COUNT_MASK = NOT (RESERVED_ITEM OR AVAILABLE_ITEM OR DELETE_ITEM)"

definition GET_COUNT :: "u64 \<Rightarrow> u64" where
  "GET_COUNT x = x AND COUNT_MASK"

definition CHECK_MAX_ITEM :: "u64 \<Rightarrow> bool" where
  "CHECK_MAX_ITEM x \<longleftrightarrow> (x AND COUNT_MASK) + 1 < MAX_ITEM"

definition IS_DEL :: "u64 \<Rightarrow> bool" where
  "IS_DEL x \<longleftrightarrow> x AND DELETE_ITEM \<noteq> 0"

definition IS_RES :: "u64 \<Rightarrow> bool" where
  "IS_RES x \<longleftrightarrow> x AND RESERVED_ITEM \<noteq> 0 \<and> x AND AVAILABLE_ITEM = 0 \<and> x AND DELETE_ITEM = 0"

definition IS_AVAIL :: "u64 \<Rightarrow> bool" where
  "IS_AVAIL x \<longleftrightarrow> x AND AVAILABLE_ITEM \<noteq> 0 \<and> x AND RESERVED_ITEM = 0 \<and> x AND DELETE_ITEM = 0"

definition IS_REQ :: "u64 \<Rightarrow> bool" where
  "IS_REQ x \<longleftrightarrow> x AND RESERVED_ITEM \<noteq> 0 \<and> x AND AVAILABLE_ITEM \<noteq> 0 \<and> x AND DELETE_ITEM = 0"

definition SHOULD_DELETE :: "u64 \<Rightarrow> bool" where
  "SHOULD_DELETE x \<longleftrightarrow> IS_DEL x \<and> GET_COUNT x = 0"

datatype item_state_t =
    NO_KEY | ANY_KEY | DELETED_KEY | ALLOCATED_KEY | AVAILABLE_KEY | REQUESTED_KEY | RESERVED_KEY

fun state_code :: "item_state_t \<Rightarrow> nat" where
  "state_code NO_KEY = 0"
| "state_code ANY_KEY = 1"
| "state_code DELETED_KEY = 2"
| "state_code ALLOCATED_KEY = 3"
| "state_code AVAILABLE_KEY = 4"
| "state_code REQUESTED_KEY = 5"
| "state_code RESERVED_KEY = 6"

section \<open>Items\<close>

text \<open>
  Data pointers are numbers.  The store keeps, for the data blocks, the number of
  route items that refer to them and the ones that were freed.
\<close>

record 'o route_item =
  key :: arts_guid_t
  data :: "nat option"
  ilock :: u64
  irank :: u32
  touched :: u32
  ooList :: "'o oo_list"

record db_store =
  copy_count :: "nat \<Rightarrow> u32"
  freed :: "nat list"

definition empty_item :: "'o route_item" where
  "empty_item = \<lparr>key = 0, data = None, ilock = 0, irank = 0, touched = 0, ooList = oo_new\<rparr>"

definition set_item :: "'o route_item \<Rightarrow> nat option \<Rightarrow> 'o route_item" where
  "set_item it d = it\<lparr>data := d\<rparr>"

definition free_item :: "'o route_item \<Rightarrow> db_store \<Rightarrow> 'o route_item \<times> db_store" where
  "free_item it st =
     (let st = (if arts_guid_get_type (key it) = type_code ARTS_DB then
                  (case data it of None \<Rightarrow> st
                   | Some p \<Rightarrow>
                       (case arts_atomic_sub (copy_count st p) 1 of
                          (c, r) \<Rightarrow>
                            let st = st\<lparr>copy_count := (copy_count st)(p := c)\<rparr>
                            in if r = 0 then st\<lparr>freed := p # freed st\<rparr> else st))
                else st)
      in (it\<lparr>ooList := arts_out_of_order_list_delete (ooList it), data := None, key := 0,
             ilock := 0, touched := 0\<rparr>, st))"

definition mark_reserve :: "'o route_item \<Rightarrow> bool \<Rightarrow> 'o route_item \<times> bool" where
  "mark_reserve it mark_use =
     (if mark_use then
        (case arts_atomic_cswap_u64 (ilock it) 0 (RESERVED_ITEM + 1) of
           (l, old) \<Rightarrow> (it\<lparr>ilock := l\<rparr>, old = 0))
      else
        (case arts_atomic_fetch_or_u64 (ilock it) RESERVED_ITEM of
           (l, old) \<Rightarrow> (it\<lparr>ilock := l\<rparr>, old = 0)))"

definition mark_requested :: "'o route_item \<Rightarrow> 'o route_item \<times> bool" where
  "mark_requested it =
     (let local = ilock it in
      if local AND RESERVED_ITEM \<noteq> 0 \<or> local AND DELETE_ITEM \<noteq> 0 then (it, False)
      else (it\<lparr>ilock := fst (arts_atomic_cswap_u64 (ilock it) local (local OR RESERVED_ITEM))\<rparr>, True))"

definition mark_write :: "'o route_item \<Rightarrow> 'o route_item \<times> bool" where
  "mark_write it =
     (let local = ilock it in
      if local AND RESERVED_ITEM \<noteq> 0 then
        (it\<lparr>ilock := fst (arts_atomic_cswap_u64 (ilock it) local
              ((local AND NOT RESERVED_ITEM) OR AVAILABLE_ITEM))\<rparr>, True)
      else (it, False))"

definition mark_delete :: "'o route_item \<Rightarrow> 'o route_item \<times> bool" where
  "mark_delete it =
     (case arts_atomic_fetch_or_u64 (ilock it) DELETE_ITEM of
        (l, old) \<Rightarrow> (it\<lparr>ilock := l\<rparr>, old AND DELETE_ITEM \<noteq> 0))"

definition try_mark_delete :: "'o route_item \<Rightarrow> u64 \<Rightarrow> 'o route_item \<times> bool" where
  "try_mark_delete it count_val =
     (case arts_atomic_cswap_u64 (ilock it) (AVAILABLE_ITEM + count_val) (AVAILABLE_ITEM OR DELETE_ITEM) of
        (l, old) \<Rightarrow> (it\<lparr>ilock := l\<rparr>, AVAILABLE_ITEM + count_val = old))"

definition check_item_state :: "'o route_item \<Rightarrow> item_state_t \<Rightarrow> bool" where
  "check_item_state it st =
     (let local = ilock it in
      case st of
        RESERVED_KEY \<Rightarrow> IS_RES local
      | REQUESTED_KEY \<Rightarrow> IS_REQ local
      | AVAILABLE_KEY \<Rightarrow> IS_AVAIL local
      | ALLOCATED_KEY \<Rightarrow> IS_RES local \<or> IS_AVAIL local \<or> IS_REQ local
      | DELETED_KEY \<Rightarrow> IS_DEL local
      | ANY_KEY \<Rightarrow> local \<noteq> 0
      | NO_KEY \<Rightarrow> False)"

definition check_min_item_state :: "'o route_item \<Rightarrow> item_state_t \<Rightarrow> bool" where
  "check_min_item_state it st =
     (let local = ilock it;
          actual = (if IS_DEL local then DELETED_KEY
                    else if IS_RES local then RESERVED_KEY
                    else if IS_REQ local then REQUESTED_KEY
                    else if IS_AVAIL local then AVAILABLE_KEY
                    else NO_KEY)
      in state_code actual \<noteq> 0 \<and> state_code st \<le> state_code actual)"

definition get_item_state :: "'o route_item option \<Rightarrow> item_state_t" where
  "get_item_state ito =
     (case ito of None \<Rightarrow> NO_KEY
      | Some it \<Rightarrow>
          let local = ilock it in
          if IS_RES local then RESERVED_KEY
          else if IS_AVAIL local then AVAILABLE_KEY
          else if IS_REQ local then REQUESTED_KEY
          else if IS_DEL local then DELETED_KEY
          else NO_KEY)"

definition inc_item :: "'o route_item \<Rightarrow> u32 \<Rightarrow> arts_guid_t \<Rightarrow> 'o route_item \<times> bool" where
  "inc_item it cnt k =
     (let local = ilock it in
      if local AND DELETE_ITEM = 0 \<and> CHECK_MAX_ITEM local \<and> key it = k
      then (it\<lparr>ilock := fst (arts_atomic_cswap_u64 (ilock it) local (local + ucast cnt))\<rparr>, True)
      else (it, False))"

definition dec_item :: "'o route_item \<Rightarrow> db_store \<Rightarrow> 'o route_item \<times> db_store \<times> bool" where
  "dec_item it st =
     (case arts_atomic_sub_u64 (ilock it) 1 of
        (l, local) \<Rightarrow>
          let it = it\<lparr>ilock := l\<rparr> in
          if GET_COUNT local = 0 \<and> SHOULD_DELETE local
          then (case free_item it st of (it', st') \<Rightarrow> (it', st', True))
          else (it, st, False))"

section \<open>The lock word as flags and a count\<close>

text \<open>The abstract view of a lock word: the status bits and the number of references.\<close>

record item_view =
  v_res :: bool
  v_avail :: bool
  v_del :: bool
  v_count :: nat

definition view :: "u64 \<Rightarrow> item_view" where
  "view w = \<lparr>v_res = bit w 63, v_avail = bit w 62, v_del = bit w 61, v_count = unat (take_bit 61 w)\<rparr>"

lemma flag_exp:
  "RESERVED_ITEM = 2 ^ 63" "AVAILABLE_ITEM = 2 ^ 62" "DELETE_ITEM = 2 ^ 61"
  by (simp_all add: RESERVED_ITEM_def AVAILABLE_ITEM_def DELETE_ITEM_def)

lemma flag_bit [simp]:
  "bit RESERVED_ITEM n \<longleftrightarrow> n = 63" "bit AVAILABLE_ITEM n \<longleftrightarrow> n = 62" "bit DELETE_ITEM n \<longleftrightarrow> n = 61"
  unfolding flag_exp by (auto simp only: bit_exp_iff) simp_all

lemma flag_test [simp]:
  "w AND RESERVED_ITEM = 0 \<longleftrightarrow> \<not> bit w 63" "w AND AVAILABLE_ITEM = 0 \<longleftrightarrow> \<not> bit w 62"
  "w AND DELETE_ITEM = 0 \<longleftrightarrow> \<not> bit w 61"
  unfolding flag_exp by (rule and_exp_eq_0_iff_not_bit)+

lemma count_mask: "COUNT_MASK = mask 61"
  by (simp add: COUNT_MASK_def RESERVED_ITEM_def AVAILABLE_ITEM_def DELETE_ITEM_def mask_eq_exp_minus_1)

lemma get_count [simp]: "GET_COUNT w = take_bit 61 w"
  by (simp add: GET_COUNT_def count_mask take_bit_eq_mask)

lemma is_view [simp]:
  "IS_DEL w \<longleftrightarrow> v_del (view w)"
  "IS_RES w \<longleftrightarrow> v_res (view w) \<and> \<not> v_avail (view w) \<and> \<not> v_del (view w)"
  "IS_AVAIL w \<longleftrightarrow> v_avail (view w) \<and> \<not> v_res (view w) \<and> \<not> v_del (view w)"
  "IS_REQ w \<longleftrightarrow> v_res (view w) \<and> v_avail (view w) \<and> \<not> v_del (view w)"
  by (simp_all add: IS_DEL_def IS_RES_def IS_AVAIL_def IS_REQ_def view_def)

lemma should_delete_view [simp]: "SHOULD_DELETE w \<longleftrightarrow> v_del (view w) \<and> v_count (view w) = 0"
  by (simp add: SHOULD_DELETE_def view_def unat_eq_0)

lemma view_or [simp]:
  "view (w OR RESERVED_ITEM) = (view w)\<lparr>v_res := True\<rparr>"
  "view (w OR DELETE_ITEM) = (view w)\<lparr>v_del := True\<rparr>"
  "view ((w AND NOT RESERVED_ITEM) OR AVAILABLE_ITEM) = (view w)\<lparr>v_res := False, v_avail := True\<rparr>"
proof -
  have "take_bit 61 (w OR RESERVED_ITEM) = take_bit 61 w"
    "take_bit 61 (w OR DELETE_ITEM) = take_bit 61 w"
    "take_bit 61 ((w AND NOT RESERVED_ITEM) OR AVAILABLE_ITEM) = take_bit 61 w"
    by (rule bit_word_eqI; auto simp: bit_take_bit_iff bit_or_iff bit_and_iff bit_not_iff)+
  then show "view (w OR RESERVED_ITEM) = (view w)\<lparr>v_res := True\<rparr>"
    "view (w OR DELETE_ITEM) = (view w)\<lparr>v_del := True\<rparr>"
    "view ((w AND NOT RESERVED_ITEM) OR AVAILABLE_ITEM) = (view w)\<lparr>v_res := False, v_avail := True\<rparr>"
    by (simp_all add: view_def bit_or_iff bit_and_iff bit_not_iff)
qed

lemma unat_count: "v_count (view w) = unat w mod 2 ^ 61"
  by (simp add: view_def unsigned_take_bit_eq) (simp add: take_bit_eq_mod)

lemma view_eqI:
  assumes "unat w div 2 ^ 61 = unat w' div 2 ^ 61"
  shows "view w' = (view w)\<lparr>v_count := v_count (view w')\<rparr>"
proof -
  have "unat (drop_bit 61 x) = unat x div 2 ^ 61" for x :: u64
    by (simp only: unat_drop_bit_eq) (simp only: drop_bit_eq_div)
  then have "unat (drop_bit 61 w) = unat (drop_bit 61 w')" using assms by simp
  then have "drop_bit 61 w = drop_bit 61 w'" by (simp add: word_unat_eq_iff)
  then have "bit (drop_bit 61 w) k = bit (drop_bit 61 w') k" for k by simp
  then have "bit w (61 + k) = bit w' (61 + k)" for k by (simp add: bit_drop_bit_eq)
  from this [of 0] this [of 1] this [of 2] show ?thesis by (simp add: view_def)
qed

lemma flags_lt: "unat (w :: u64) div 2 ^ 61 < 8"
  using unsigned_less [of w] by (intro less_mult_imp_div_less) simp

lemma view_add:
  assumes "v_count (view w) + unat c < 2 ^ 61"
  shows "view (w + c) = (view w)\<lparr>v_count := v_count (view w) + unat c\<rparr>"
proof -
  have m: "unat w mod 2 ^ 61 + unat c < 2 ^ 61" using assms by (simp add: unat_count)
  note b = block_add [OF m]
  have "unat w + unat c < 2 ^ 64"
    using flags_lt [of w] b(1) div_less_iff_less_mult [of "2 ^ 61" "unat w + unat c" 8] by simp
  then have s: "unat (w + c) = unat w + unat c" by (subst unat_add_lt) simp_all
  show ?thesis using view_eqI [of w "w + c"] b unfolding unat_count s by simp
qed

lemma view_sub:
  assumes "unat c \<le> v_count (view w)"
  shows "view (w - c) = (view w)\<lparr>v_count := v_count (view w) - unat c\<rparr>"
proof -
  have m: "unat c \<le> unat w mod 2 ^ 61" using assms by (simp add: unat_count)
  then have "unat c \<le> unat w" using mod_less_eq_dividend order_trans by blast
  then have s: "unat (w - c) = unat w - unat c" by (rule unat_sub_le)
  show ?thesis using view_eqI [of w "w - c"] block_sub [OF m] unfolding unat_count s by simp
qed

section \<open>Operations on the view\<close>

abbreviation iview :: "'o route_item \<Rightarrow> item_view" where
  "iview it \<equiv> view (ilock it)"

lemma view_0: "view 0 = \<lparr>v_res = False, v_avail = False, v_del = False, v_count = 0\<rparr>"
  by (simp add: view_def)

lemma view_reserved: "view RESERVED_ITEM = \<lparr>v_res = True, v_avail = False, v_del = False, v_count = 0\<rparr>"
  using view_or(1) [of 0] by (simp add: view_0)

lemma mark_reserve_free:
  assumes "ilock it = 0"
  shows "snd (mark_reserve it u)"
    and "iview (fst (mark_reserve it u)) =
      \<lparr>v_res = True, v_avail = False, v_del = False, v_count = (if u then 1 else 0)\<rparr>"
  using assms view_add [of RESERVED_ITEM 1]
  by (simp_all add: mark_reserve_def arts_atomic_cswap_u64_def arts_atomic_fetch_or_u64_def view_reserved)

lemma mark_write_view:
  "mark_write it = (if v_res (iview it) then (it\<lparr>ilock := ilock (fst (mark_write it))\<rparr>, True) else (it, False))"
  "v_res (iview it) \<Longrightarrow> iview (fst (mark_write it)) = (iview it)\<lparr>v_res := False, v_avail := True\<rparr>"
  by (simp_all add: mark_write_def arts_atomic_cswap_u64_def Let_def view_def flag_test(1) del: view_or)
     (use view_or(3) [of "ilock it"] in \<open>simp add: view_def\<close>)

lemma mark_delete_view:
  "iview (fst (mark_delete it)) = (iview it)\<lparr>v_del := True\<rparr>"
  "fst (mark_delete it) = it\<lparr>ilock := ilock (fst (mark_delete it))\<rparr>"
  by (simp_all add: mark_delete_def arts_atomic_fetch_or_u64_def)

lemma check_max_view: "CHECK_MAX_ITEM w \<longleftrightarrow> v_count (view w) + 1 < 2 ^ 61 - 1"
proof -
  have "unat (take_bit 61 w) = unat w mod 2 ^ 61" using unat_count [of w] by (simp add: view_def)
  then have lt: "unat (take_bit 61 w) < 2 ^ 61" by (simp only: mod_less_divisor zero_less_power zero_less_numeral)
  have "unat (take_bit 61 w + 1) = unat (take_bit 61 w) + 1"
    using lt by (subst unat_add_lt) simp_all
  then show ?thesis
    by (simp add: CHECK_MAX_ITEM_def MAX_ITEM_def count_mask view_def word_less_nat_alt flip: take_bit_eq_mask)
qed

lemma inc_item_view:
  assumes "\<not> v_del (iview it)" "v_count (iview it) + 1 < 2 ^ 61 - 1" "key it = k"
  shows "inc_item it 1 k = (it\<lparr>ilock := ilock it + 1\<rparr>, True)"
    and "view (ilock it + 1) = (iview it)\<lparr>v_count := v_count (iview it) + 1\<rparr>"
proof -
  show "inc_item it 1 k = (it\<lparr>ilock := ilock it + 1\<rparr>, True)"
    using assms by (simp add: inc_item_def Let_def check_max_view arts_atomic_cswap_u64_def) (simp add: view_def)
  show "view (ilock it + 1) = (iview it)\<lparr>v_count := v_count (iview it) + 1\<rparr>"
    using assms view_add [of "ilock it" 1] by simp
qed

lemma inc_item_deleted: "v_del (iview it) \<Longrightarrow> inc_item it c k = (it, False)"
  by (simp add: inc_item_def Let_def view_def)

lemma dec_item_view:
  assumes "0 < v_count (iview it)"
  shows "view (ilock it - 1) = (iview it)\<lparr>v_count := v_count (iview it) - 1\<rparr>"
    and "dec_item it st =
      (if v_del (iview it) \<and> v_count (iview it) = 1
       then (case free_item (it\<lparr>ilock := ilock it - 1\<rparr>) st of (it', st') \<Rightarrow> (it', st', True))
       else (it\<lparr>ilock := ilock it - 1\<rparr>, st, False))"
proof -
  show v: "view (ilock it - 1) = (iview it)\<lparr>v_count := v_count (iview it) - 1\<rparr>"
    using assms view_sub [of 1 "ilock it"] by simp
  have z: "take_bit 61 (ilock it - 1) = 0 \<longleftrightarrow> v_count (iview it) = 1"
  proof -
    have "take_bit 61 (ilock it - 1) = 0 \<longleftrightarrow> v_count (view (ilock it - 1)) = 0" by (simp add: view_def unat_eq_0)
    then show ?thesis using v assms by auto
  qed
  show "dec_item it st =
      (if v_del (iview it) \<and> v_count (iview it) = 1
       then (case free_item (it\<lparr>ilock := ilock it - 1\<rparr>) st of (it', st') \<Rightarrow> (it', st', True))
       else (it\<lparr>ilock := ilock it - 1\<rparr>, st, False))"
    using v z by (simp add: dec_item_def arts_atomic_sub_u64_def Let_def)
qed

text \<open>A number of releases in a row, with what each returned.\<close>

fun dec_n :: "nat \<Rightarrow> 'o route_item \<Rightarrow> db_store \<Rightarrow> 'o route_item \<times> db_store \<times> bool list" where
  "dec_n 0 it st = (it, st, [])"
| "dec_n (Suc n) it st =
     (case dec_item it st of (it', st', b) \<Rightarrow>
        (case dec_n n it' st' of (it'', st'', bs) \<Rightarrow> (it'', st'', b # bs)))"

lemma dec_n_deleted:
  assumes "v_del (iview it)" "v_count (iview it) = Suc n"
  shows "dec_n (Suc n) it st =
    (case free_item it st of (it', st') \<Rightarrow> (it', st', replicate n False @ [True]))"
  using assms
proof (induction n arbitrary: it)
  case 0
  have "free_item (it\<lparr>ilock := ilock it - 1\<rparr>) st = free_item it st" by (simp add: free_item_def Let_def)
  then show ?case using 0 dec_item_view(2) [of it st] by (simp split: prod.splits)
next
  case (Suc n)
  let ?it = "it\<lparr>ilock := ilock it - 1\<rparr>"
  have v: "view (ilock it - 1) = (iview it)\<lparr>v_count := Suc n\<rparr>" using Suc.prems dec_item_view(1) [of it] by simp
  have "dec_n (Suc n) ?it st = (case free_item ?it st of (it', st') \<Rightarrow> (it', st', replicate n False @ [True]))"
    using Suc.IH [of ?it] v Suc.prems by simp
  moreover have "free_item ?it st = free_item it st" by (simp add: free_item_def Let_def)
  moreover have "dec_item it st = (?it, st, False)" using dec_item_view(2) [of it st] Suc.prems by simp
  ultimately show ?case by (simp split: prod.splits)
qed

section \<open>Properties\<close>

definition demo_item :: "nat route_item" where
  "demo_item = empty_item\<lparr>key := 0x0600000000000005, data := Some 9, ilock := AVAILABLE_ITEM + 2\<rparr>"

definition demo_store :: db_store where
  "demo_store = \<lparr>copy_count = (\<lambda>_. 1), freed = []\<rparr>"

lemma demo_item_view: "iview demo_item = \<lparr>v_res = False, v_avail = True, v_del = False, v_count = 2\<rparr>"
proof -
  have "view AVAILABLE_ITEM = \<lparr>v_res = False, v_avail = True, v_del = False, v_count = 0\<rparr>" by code_simp
  then show ?thesis using view_add [of AVAILABLE_ITEM 2] by (simp add: demo_item_def)
qed

text \<open>
  C27.  Reference counting of a route item: once an item with \<open>n + 1\<close> references is
  marked for deletion, no new reference can be taken, the first \<open>n\<close> releases keep it,
  and the last release frees the slot; a data block whose only route item this was is
  freed at that moment, once.
\<close>

theorem route_item_freed_at_last_release:
  assumes "v_count (view (ilock it)) = Suc n" "fst (mark_delete it) = it'"
  shows "inc_item it' c k = (it', False) \<and>
    (\<exists>it'' st'. dec_n (Suc n) it' st = (it'', st', replicate n False @ [True]) \<and>
       ilock it'' = 0 \<and> key it'' = 0 \<and> data it'' = None \<and>
       (arts_guid_get_type (key it) = type_code ARTS_DB \<and> data it = Some p \<and> copy_count st p = 1 \<longrightarrow>
          freed st' = p # freed st))"
proof -
  have v: "iview it' = (iview it)\<lparr>v_del := True\<rparr>" using mark_delete_view(1) [of it] assms(2) by simp
  have same: "key it' = key it" "data it' = data it"
    using mark_delete_view(2) [of it] assms(2) by (metis route_item.ext_inject route_item.surjective route_item.update_convs(3))+
  have "inc_item it' c k = (it', False)" using v by (simp add: inc_item_deleted)
  moreover have "dec_n (Suc n) it' st = (case free_item it' st of (it'', st') \<Rightarrow> (it'', st', replicate n False @ [True]))"
    using v assms(1) by (intro dec_n_deleted) simp_all
  ultimately show ?thesis
    using same by (simp add: free_item_def Let_def arts_atomic_sub_def split: option.splits)
qed

theorem route_item_freed_at_last_release_witness:
  "\<exists>it'' st'. dec_n 2 (fst (mark_delete demo_item)) demo_store = (it'', st', [False, True]) \<and>
     ilock it'' = 0 \<and> freed st' = [9]"
proof -
  have c: "v_count (iview demo_item) = Suc 1" by (simp add: demo_item_view)
  have t: "arts_guid_get_type (key demo_item) = type_code ARTS_DB" by code_simp
  from route_item_freed_at_last_release [OF c refl, of 1 0 demo_store 9] t
  show ?thesis by (auto simp: demo_item_def demo_store_def numeral_2_eq_2)
qed

text \<open>
  Life cycle of a slot: an empty slot can be reserved by exactly one caller, a
  reserved slot becomes available by the first write, and each later attempt to
  reserve (with a reference) or to write fails and leaves the slot unchanged.
\<close>

theorem route_item_reserve_then_write:
  assumes "ilock it = 0" "mark_reserve it u = (it1, b)" "mark_write it1 = (it2, w)"
  shows "b \<and> check_item_state it1 RESERVED_KEY \<and> mark_reserve it1 True = (it1, False) \<and>
         w \<and> check_item_state it2 AVAILABLE_KEY \<and> mark_write it2 = (it2, False) \<and>
         mark_reserve it2 True = (it2, False) \<and>
         v_count (view (ilock it2)) = (if u then 1 else 0)"
proof -
  have v1: "b" "iview it1 = \<lparr>v_res = True, v_avail = False, v_del = False, v_count = (if u then 1 else 0)\<rparr>"
    using mark_reserve_free [OF assms(1), of u] assms(2) by simp_all
  then have v2: "w" "iview it2 = \<lparr>v_res = False, v_avail = True, v_del = False, v_count = (if u then 1 else 0)\<rparr>"
    using mark_write_view [of it1] assms(3) by auto
  have nz: "ilock it1 \<noteq> 0" "ilock it2 \<noteq> 0" using v1 v2 view_0 by force+
  have "mark_write it2 = (it2, False)" using v2 mark_write_view(1) [of it2] by simp
  then show ?thesis
    using v1 v2 nz by (simp add: check_item_state_def mark_reserve_def arts_atomic_cswap_u64_def)
qed

theorem route_item_reserve_then_write_witness:
  "check_item_state (fst (mark_write (fst (mark_reserve (empty_item :: nat route_item) True)))) AVAILABLE_KEY"
proof -
  obtain it1 b where r: "mark_reserve (empty_item :: nat route_item) True = (it1, b)" by fastforce
  obtain it2 w where m: "mark_write it1 = (it2, w)" by fastforce
  have "ilock (empty_item :: nat route_item) = 0" by (simp add: empty_item_def)
  from route_item_reserve_then_write [OF this r m] show ?thesis by (simp add: r m)
qed

text \<open>
  C28.  Reserving without taking a reference is not a compare-and-swap: on a slot that
  another caller has just made available it reports failure but sets the reserved bit,
  so lookups for an available item no longer find it.
\<close>

theorem failed_reserve_hides_item:
  assumes "check_item_state it AVAILABLE_KEY" "mark_reserve it False = (it', b)"
  shows "\<not> b \<and> check_item_state it' REQUESTED_KEY \<and> \<not> check_item_state it' AVAILABLE_KEY"
proof -
  have a: "v_avail (iview it)" "\<not> v_del (iview it)" using assms(1) by (auto simp: check_item_state_def Let_def)
  then have "ilock it \<noteq> 0" using view_0 by force
  then show ?thesis
    using assms(2) a by (auto simp: mark_reserve_def arts_atomic_fetch_or_u64_def check_item_state_def)
qed

theorem failed_reserve_hides_item_witness:
  "\<not> check_item_state (fst (mark_reserve demo_item False)) AVAILABLE_KEY"
proof -
  obtain it b where r: "mark_reserve demo_item False = (it, b)" by fastforce
  have "check_item_state demo_item AVAILABLE_KEY" by (simp add: check_item_state_def demo_item_view)
  from failed_reserve_hides_item [OF this r] show ?thesis by (simp add: r)
qed

end
