(* ===== verification/Route_Table.thy ===== *)
theory Route_Table
  imports Route_Item
begin

text \<open>
  The route table of \<^verbatim>\<open>gas/route_table.c\<close>: a chain of hash tables, each twice the size of
  the one before, whose buckets hold eight items.  A chain is the list of its tables; a
  pointer to an item is a pair of a table and a slot.  Calls run one at a time: the
  reader and writer locks on the \<^verbatim>\<open>next\<close> pointers and the striped GUID locks are free
  when a call starts and free again when it returns.
\<close>

section \<open>Data\<close>

abbreviation COLLISION_RESOLVES :: nat where
  "COLLISION_RESOLVES \<equiv> 8"

record 'o route_table =
  tdata :: "'o route_item list"
  tsize :: u32
  tshift :: u32

type_synonym 'o chain = "'o route_table list"
type_synonym loc = "nat \<times> nat"

definition arts_guid_lock_index :: "arts_guid_t \<Rightarrow> u32" where
  "arts_guid_lock_index k =
     (let hash = k * 11400714819323198485; hash = hash XOR drop_bit 32 hash
      in ucast (hash mod 8192))"

text \<open>The cases of the hash switch; control falls through from the matching one to the end.\<close>

definition hash_cases :: "(nat \<times> u64) list" where
  "hash_cases =
     [(10, 1021), (11, 2039), (12, 4093), (13, 8191), (14, 16381), (15, 32749), (16, 65521),
      (17, 131071), (18, 262139), (19, 524287), (20, 1048573), (21, 2097143), (22, 4194301),
      (31, 2147483647), (32, 4294967291)]"

definition get_route_table_key :: "u64 \<Rightarrow> u32 \<Rightarrow> u64" where
  "get_route_table_key x shift =
     (let hash = foldl (\<lambda>h c. h * snd c) 14695981039346656037
            (dropWhile (\<lambda>c. fst c \<noteq> unat shift) hash_cases)
      in drop_bit (64 - unat shift) (x * hash) * of_nat COLLISION_RESOLVES)"

text \<open>Which table of the node holds a GUID: that of a worker, or the remote one (\<open>None\<close>).\<close>

definition arts_get_route_table :: "guid_state \<Rightarrow> arts_guid_t \<Rightarrow> nat option" where
  "arts_get_route_table gs guid =
     (let k = ARTS_GUID_GET_KEY guid in
      if keys_per_thread gs \<noteq> 0 then
        let global_thread = k div keys_per_thread gs in
        if min_global_guid_thread gs \<le> global_thread \<and> global_thread < max_global_guid_thread gs
        then Some (unat (global_thread - min_global_guid_thread gs))
        else None
      else None)"

definition arts_new_route_table :: "u32 \<Rightarrow> u32 \<Rightarrow> 'o route_table" where
  "arts_new_route_table sz shift =
     \<lparr>tdata = replicate (COLLISION_RESOLVES * unat sz) empty_item, tsize = sz, tshift = shift\<rparr>"

section \<open>Search\<close>

definition bucket :: "arts_guid_t \<Rightarrow> 'o route_table \<Rightarrow> nat" where
  "bucket k t = unat (get_route_table_key k (tshift t))"

fun scan_key :: "'o route_item list \<Rightarrow> arts_guid_t \<Rightarrow> item_state_t \<Rightarrow> nat \<Rightarrow> nat \<Rightarrow> nat option res" where
  "scan_key its k st 0 pos = Inr None"
| "scan_key its k st (Suc n) pos =
     (if length its \<le> pos then Inl Out_Of_Bounds
      else if check_item_state (its ! pos) st \<and> key (its ! pos) = k then Inr (Some pos)
      else scan_key its k st n (pos + 1))"

fun search_from :: "nat \<Rightarrow> 'o chain \<Rightarrow> arts_guid_t \<Rightarrow> item_state_t \<Rightarrow> loc option res" where
  "search_from i [] k st = Inr None"
| "search_from i (t # ts) k st =
     rbind (scan_key (tdata t) k st COLLISION_RESOLVES (bucket k t)) (\<lambda>r.
       case r of Some j \<Rightarrow> Inr (Some (i, j)) | None \<Rightarrow> search_from (Suc i) ts k st)"

definition arts_route_table_search_for_key :: "'o chain \<Rightarrow> arts_guid_t \<Rightarrow> item_state_t \<Rightarrow> loc option res" where
  "arts_route_table_search_for_key c k st = search_from 0 c k st"

fun scan_empty :: "'o route_item list \<Rightarrow> bool \<Rightarrow> nat \<Rightarrow> nat \<Rightarrow> nat option res" where
  "scan_empty its used 0 pos = Inr None"
| "scan_empty its used (Suc n) pos =
     (if length its \<le> pos then Inl Out_Of_Bounds
      else if ilock (its ! pos) = 0 \<and> snd (mark_reserve (its ! pos) used) then Inr (Some pos)
      else scan_empty its used n (pos + 1))"

text \<open>
  The search for a free slot.  Where the chain ends, a table of twice the size is
  appended, \<open>grow\<close> times at most; the first slot of a new bucket is free, so one
  growth is enough.
\<close>

fun empty_from :: "nat \<Rightarrow> 'o chain \<Rightarrow> arts_guid_t \<Rightarrow> bool \<Rightarrow> ('o chain \<times> loc) res" where
  "empty_from grow [] k used = Inl ARTS_ERROR"
| "empty_from grow (t # ts) k used =
     rbind (scan_empty (tdata t) used COLLISION_RESOLVES (bucket k t)) (\<lambda>r.
       case r of
         Some j \<Rightarrow>
           let it = (fst (mark_reserve (tdata t ! j) used))\<lparr>key := k\<rparr>
           in Inr (t\<lparr>tdata := (tdata t)[j := it]\<rparr> # ts, (0, j))
       | None \<Rightarrow>
           if ts = [] then
             (case grow of 0 \<Rightarrow> Inl Out_Of_Fuel
              | Suc g \<Rightarrow>
                  rbind (empty_from g [arts_new_route_table (2 * tsize t) (tshift t + 1)] k used)
                    (\<lambda>(ts', i, j). Inr (t # ts', (Suc i, j))))
           else rbind (empty_from grow ts k used) (\<lambda>(ts', i, j). Inr (t # ts', (Suc i, j))))"

definition arts_route_table_search_for_empty :: "'o chain \<Rightarrow> arts_guid_t \<Rightarrow> bool \<Rightarrow> ('o chain \<times> loc) res" where
  "arts_route_table_search_for_empty c k used = empty_from 1 c k used"

section \<open>Items of a chain\<close>

definition item_at :: "'o chain \<Rightarrow> loc \<Rightarrow> 'o route_item" where
  "item_at c p = tdata (c ! fst p) ! snd p"

definition set_at :: "'o chain \<Rightarrow> loc \<Rightarrow> 'o route_item \<Rightarrow> 'o chain" where
  "set_at c p it = c[fst p := (c ! fst p)\<lparr>tdata := (tdata (c ! fst p))[snd p := it]\<rparr>]"

section \<open>Insertion and removal\<close>

definition internal_route_table_add_item ::
    "'o chain \<Rightarrow> nat option \<Rightarrow> arts_guid_t \<Rightarrow> u32 \<Rightarrow> bool \<Rightarrow> ('o chain \<times> loc) res" where
  "internal_route_table_add_item c item k rank used =
     rbind (arts_route_table_search_for_empty c k used) (\<lambda>(c, p).
       let it = set_item (item_at c p) item;
           it = it\<lparr>irank := rank\<rparr>;
           it = fst (mark_write it)
       in Inr (set_at c p it, p))"

definition internal_route_table_remove_item ::
    "'o chain \<Rightarrow> db_store \<Rightarrow> arts_guid_t \<Rightarrow> ('o chain \<times> db_store \<times> bool) res" where
  "internal_route_table_remove_item c st k =
     rbind (arts_route_table_search_for_key c k AVAILABLE_KEY) (\<lambda>r.
       case r of None \<Rightarrow> Inr (c, st, False)
       | Some p \<Rightarrow>
           let it = fst (mark_delete (item_at c p)) in
           if SHOULD_DELETE (ilock it)
           then (case free_item it st of (it', st') \<Rightarrow> Inr (set_at c p it', st', False))
           else Inr (set_at c p it, st, False))"

definition arts_route_table_hide_item :: "'o chain \<Rightarrow> arts_guid_t \<Rightarrow> ('o chain \<times> bool) res" where
  "arts_route_table_hide_item c k =
     rbind (arts_route_table_search_for_key c k AVAILABLE_KEY) (\<lambda>r.
       case r of None \<Rightarrow> Inr (c, False)
       | Some p \<Rightarrow> Inr (set_at c p ((item_at c p)\<lparr>data := None\<rparr>), False))"

text \<open>
  \<^verbatim>\<open>internal_route_table_add_item_race\<close> with the GUID lock free; \<open>True\<close> in the result
  is \<^verbatim>\<open>added_item\<close>.
\<close>

definition internal_route_table_add_item_race ::
    "'o chain \<Rightarrow> nat option \<Rightarrow> arts_guid_t \<Rightarrow> u32 \<Rightarrow> bool \<Rightarrow> bool \<Rightarrow> u32 \<Rightarrow> ('o chain \<times> loc \<times> bool) res" where
  "internal_route_table_add_item_race c item k rank used_res used_avail to_add =
     rbind (arts_route_table_search_for_key c k ALLOCATED_KEY) (\<lambda>r.
       case r of
         Some p \<Rightarrow>
           let it = item_at c p in
           if check_item_state it RESERVED_KEY then
             let it = set_item it item;
                 it = it\<lparr>irank := rank\<rparr>;
                 it = fst (mark_write it);
                 it = (if used_res then fst (inc_item it 1 (key it)) else it)
             in Inr (set_at c p it, p, True)
           else if used_avail \<and> check_item_state it AVAILABLE_KEY
           then Inr (set_at c p (fst (inc_item it 1 (key it))), p, False)
           else Inr (c, p, False)
       | None \<Rightarrow>
           rbind (internal_route_table_add_item c item k rank used_res) (\<lambda>(c, p).
             let it = item_at c p;
                 it = (if to_add \<noteq> 0 then fst (inc_item it to_add (key it)) else it)
             in Inr (set_at c p it, p, True)))"

definition internal_route_table_add_deleted_item_race ::
    "'o chain \<Rightarrow> nat option \<Rightarrow> arts_guid_t \<Rightarrow> u32 \<Rightarrow> ('o chain \<times> loc) res" where
  "internal_route_table_add_deleted_item_race c item k rank =
     rbind (arts_route_table_search_for_empty c k False) (\<lambda>(c, p).
       let it = set_item (item_at c p) item;
           it = it\<lparr>irank := rank\<rparr>;
           it = fst (mark_delete it);
           it = fst (mark_write it)
       in Inr (set_at c p it, p))"

definition arts_route_table_reserve_item_race ::
    "'o chain \<Rightarrow> arts_guid_t \<Rightarrow> bool \<Rightarrow> ('o chain \<times> loc \<times> bool) res" where
  "arts_route_table_reserve_item_race c k used =
     rbind (arts_route_table_search_for_key c k ALLOCATED_KEY) (\<lambda>r.
       case r of
         None \<Rightarrow> rbind (arts_route_table_search_for_empty c k used) (\<lambda>(c, p). Inr (c, p, True))
       | Some p \<Rightarrow>
           let it = item_at c p;
               it = (if used then fst (inc_item it 1 (key it)) else it)
           in Inr (set_at c p it, p, False))"

section \<open>Lookup, references and ranks\<close>

definition lookup_item :: "'o chain \<Rightarrow> arts_guid_t \<Rightarrow> nat option res" where
  "lookup_item c k =
     rbind (arts_route_table_search_for_key c k AVAILABLE_KEY) (\<lambda>r.
       case r of None \<Rightarrow> Inr None | Some p \<Rightarrow> Inr (data (item_at c p)))"

text \<open>The location stands for the pointer to the data field.\<close>

definition lookup_item_with_state ::
    "'o chain \<Rightarrow> arts_guid_t \<Rightarrow> item_state_t \<Rightarrow> bool \<Rightarrow> ('o chain \<times> loc option \<times> item_state_t) res" where
  "lookup_item_with_state c k mn inc =
     rbind (arts_route_table_search_for_key c k mn) (\<lambda>r.
       case r of None \<Rightarrow> Inr (c, None, NO_KEY)
       | Some p \<Rightarrow>
           (case (if inc then inc_item (item_at c p) 1 (key (item_at c p)) else (item_at c p, True)) of
              (it, ok) \<Rightarrow>
                if ok then Inr (set_at c p it, Some p, get_item_state (Some it))
                else Inr (c, None, NO_KEY)))"

definition internal_route_table_lookup_db ::
    "'o chain \<Rightarrow> arts_guid_t \<Rightarrow> ('o chain \<times> nat option \<times> int \<times> loc option) res" where
  "internal_route_table_lookup_db c k =
     rbind (arts_route_table_search_for_key c k AVAILABLE_KEY) (\<lambda>r.
       case r of None \<Rightarrow> Inr (c, None, - 1, None)
       | Some p \<Rightarrow>
           (case inc_item (item_at c p) 1 (key (item_at c p)) of
              (it, ok) \<Rightarrow>
                if ok then Inr (set_at c p it, data it, sint (irank it), Some p)
                else Inr (c, None, sint (irank it), None)))"

definition internal_inc_db_version :: "'o chain \<Rightarrow> loc \<Rightarrow> 'o chain" where
  "internal_inc_db_version c p =
     set_at c p ((item_at c p)\<lparr>touched := fst (arts_atomic_add (touched (item_at c p)) 1)\<rparr>)"

definition lookup_db :: "'o chain \<Rightarrow> arts_guid_t \<Rightarrow> bool \<Rightarrow> ('o chain \<times> nat option \<times> int) res" where
  "lookup_db c k touch =
     rbind (internal_route_table_lookup_db c k) (\<lambda>(c, d, rank, p).
       case (d, p) of
         (Some x, Some q) \<Rightarrow> Inr (if touch then internal_inc_db_version c q else c, d, rank)
       | _ \<Rightarrow> Inr (c, d, rank))"

definition internal_route_table_return_db ::
    "'o chain \<Rightarrow> db_store \<Rightarrow> arts_guid_t \<Rightarrow> bool \<Rightarrow> bool \<Rightarrow> ('o chain \<times> db_store \<times> bool) res" where
  "internal_route_table_return_db c st k mark_to_delete do_delete =
     rbind (arts_route_table_search_for_key c k AVAILABLE_KEY) (\<lambda>r.
       case r of None \<Rightarrow> Inr (c, st, False)
       | Some p \<Rightarrow>
           let it = item_at c p in
           if mark_to_delete \<and> do_delete then
             (case dec_item (fst (try_mark_delete it 1)) st of
                (it', st', b) \<Rightarrow> Inr (set_at c p it', st', b))
           else if mark_to_delete \<and> \<not> do_delete then
             (case dec_item it st of
                (it', st', b) \<Rightarrow> Inr (set_at c p (fst (try_mark_delete it' 0)), st', False))
           else
             (case dec_item it st of (it', st', b) \<Rightarrow> Inr (set_at c p it', st', b)))"

definition lookup_rank :: "'o chain \<Rightarrow> arts_guid_t \<Rightarrow> int res" where
  "lookup_rank c k =
     rbind (arts_route_table_search_for_key c k AVAILABLE_KEY) (\<lambda>r.
       case r of None \<Rightarrow> Inr (- 1) | Some p \<Rightarrow> Inr (sint (irank (item_at c p))))"

definition set_rank :: "'o chain \<Rightarrow> arts_guid_t \<Rightarrow> u32 \<Rightarrow> ('o chain \<times> int) res" where
  "set_rank c k rank =
     rbind (arts_route_table_search_for_key c k AVAILABLE_KEY) (\<lambda>r.
       case r of None \<Rightarrow> Inr (c, - 1)
       | Some p \<Rightarrow> Inr (set_at c p ((item_at c p)\<lparr>irank := rank\<rparr>), sint (irank (item_at c p))))"

section \<open>Out-of-order operations\<close>

definition fire_oo :: "'o chain \<Rightarrow> arts_guid_t \<Rightarrow> ('o chain \<times> ('o \<times> nat option) list) res" where
  "fire_oo c k =
     rbind (arts_route_table_search_for_key c k AVAILABLE_KEY) (\<lambda>r.
       case r of None \<Rightarrow> Inr (c, [])
       | Some p \<Rightarrow>
           rbind (arts_out_of_order_list_fire_callback (ooList (item_at c p))) (\<lambda>(oo, xs).
             Inr (set_at c p ((item_at c p)\<lparr>ooList := oo\<rparr>), map (\<lambda>x. (x, data (item_at c p))) xs)))"

definition add_oo_at :: "'o chain \<Rightarrow> loc \<Rightarrow> 'o \<Rightarrow> ('o chain \<times> bool) res" where
  "add_oo_at c p x =
     rbind (arts_out_of_order_list_add_item (ooList (item_at c p)) x) (\<lambda>(oo, b).
       Inr (set_at c p ((item_at c p)\<lparr>ooList := oo\<rparr>), b))"

definition inc_at :: "'o chain \<Rightarrow> loc \<Rightarrow> bool \<Rightarrow> 'o chain" where
  "inc_at c p inc =
     (if inc then set_at c p (fst (inc_item (item_at c p) 1 (key (item_at c p)))) else c)"

definition arts_route_table_add_oo :: "'o chain \<Rightarrow> arts_guid_t \<Rightarrow> 'o \<Rightarrow> bool \<Rightarrow> ('o chain \<times> bool) res" where
  "arts_route_table_add_oo c k x inc =
     rbind (arts_route_table_reserve_item_race c k True) (\<lambda>(c, p, fresh).
       if fresh \<or> check_item_state (item_at c p) RESERVED_KEY
       then add_oo_at (inc_at c p inc) p x
       else Inr (inc_at c p inc, False))"

definition add_oo_existing :: "'o chain \<Rightarrow> arts_guid_t \<Rightarrow> 'o \<Rightarrow> bool \<Rightarrow> ('o chain \<times> bool) res" where
  "add_oo_existing c k x inc =
     rbind (arts_route_table_search_for_key c k AVAILABLE_KEY) (\<lambda>r.
       case r of None \<Rightarrow> Inr (c, False) | Some p \<Rightarrow> add_oo_at (inc_at c p inc) p x)"

definition reset_oo :: "'o chain \<Rightarrow> arts_guid_t \<Rightarrow> 'o chain res" where
  "reset_oo c k =
     rbind (arts_route_table_search_for_key c k ANY_KEY) (\<lambda>r.
       case r of None \<Rightarrow> Inl Null_Deref
       | Some p \<Rightarrow> Inr (set_at c p ((item_at c p)\<lparr>ooList := arts_out_of_order_list_reset (ooList (item_at c p))\<rparr>)))"

section \<open>Reservation, deletion and clean-up\<close>

text \<open>
  \<^verbatim>\<open>arts_route_table_reserve\<close>: the location stands for the data pointer, the flag is
  \<^verbatim>\<open>dec\<close>.  With no other thread running, a refused reference is refused forever.
\<close>

definition reserve :: "'o chain \<Rightarrow> arts_guid_t \<Rightarrow> ('o chain \<times> loc \<times> bool \<times> item_state_t) res" where
  "reserve c k =
     rbind (arts_route_table_reserve_item_race c k True) (\<lambda>(c, p, fresh).
       if fresh then Inr (c, p, False, get_item_state (Some (item_at c p)))
       else
         (case inc_item (item_at c p) 1 (key (item_at c p)) of
            (it, ok) \<Rightarrow>
              if ok then Inr (set_at c p it, p, True, get_item_state (Some it)) else Inl Spins_Forever))"

definition route_table_dec_item :: "'o chain \<Rightarrow> db_store \<Rightarrow> arts_guid_t \<Rightarrow> loc option \<Rightarrow> 'o chain \<times> db_store" where
  "route_table_dec_item c st k dp =
     (case dp of None \<Rightarrow> (c, st)
      | Some p \<Rightarrow>
          if key (item_at c p) = k
          then (case dec_item (item_at c p) st of (it, st', b) \<Rightarrow> (set_at c p it, st'))
          else (c, st))"

definition route_table_mark_delete :: "'o chain \<Rightarrow> db_store \<Rightarrow> arts_guid_t \<Rightarrow> ('o chain \<times> db_store \<times> bool) res" where
  "route_table_mark_delete c st k =
     rbind (arts_route_table_search_for_key c k AVAILABLE_KEY) (\<lambda>r.
       case r of None \<Rightarrow> Inr (c, st, False)
       | Some p \<Rightarrow>
           (case dec_item (fst (mark_delete (item_at c p))) st of
              (it, st', b) \<Rightarrow> Inr (set_at c p it, st', b)))"

definition route_table_update_item ::
    "'o chain \<Rightarrow> arts_guid_t \<Rightarrow> nat option \<Rightarrow> u32 \<Rightarrow> item_state_t \<Rightarrow> ('o chain \<times> bool) res" where
  "route_table_update_item c k d rank st =
     rbind (arts_route_table_search_for_key c k st) (\<lambda>r.
       case r of None \<Rightarrow> Inl Spins_Forever
       | Some p \<Rightarrow> Inr (set_at c p (fst (mark_write ((item_at c p)\<lparr>data := d, irank := rank\<rparr>))), True))"

text \<open>The next slot in use, from slot \<open>i\<close> of a table with \<open>n\<close> slots to go.\<close>

fun next_used :: "'o route_item list \<Rightarrow> nat \<Rightarrow> nat \<Rightarrow> nat option res" where
  "next_used its i 0 = Inr None"
| "next_used its i (Suc n) =
     (if length its \<le> i then Inl Out_Of_Bounds
      else if ilock (its ! i) \<noteq> 0 then Inr (Some i)
      else next_used its (Suc i) n)"

fun iterate_from :: "nat \<Rightarrow> nat \<Rightarrow> 'o chain \<Rightarrow> loc option res" where
  "iterate_from ti i [] = Inr None"
| "iterate_from ti i (t # ts) =
     rbind (next_used (tdata t) i (unat (tsize t) * COLLISION_RESOLVES - i)) (\<lambda>r.
       case r of Some j \<Rightarrow> Inr (Some (ti, j)) | None \<Rightarrow> iterate_from (Suc ti) 0 ts)"

text \<open>An iterator is the table and slot to continue from.\<close>

definition arts_route_table_iterate :: "'o chain \<Rightarrow> loc \<Rightarrow> (loc \<times> loc option) res" where
  "arts_route_table_iterate c itr =
     rbind (iterate_from (fst itr) (snd itr) (drop (fst itr) c)) (\<lambda>r.
       case r of None \<Rightarrow> Inr (itr, None) | Some (ti, j) \<Rightarrow> Inr ((ti, Suc j), Some (ti, j)))"

text \<open>
  One item of the clean-up: data blocks and every typed item free their slot, and the
  data of events and buffers is released (recorded in the list).
\<close>

definition clean_item ::
    "(nat \<Rightarrow> u64) \<Rightarrow> 'o route_item \<Rightarrow> db_store \<Rightarrow> 'o route_item \<times> db_store \<times> u64 \<times> nat list" where
  "clean_item db_size it st =
     (let ty = arts_guid_get_type (key it);
          owned = (case data it of None \<Rightarrow> [] | Some d \<Rightarrow> [d])
      in if ty = type_code ARTS_DB then
           (case free_item it st of (it', st') \<Rightarrow>
              (it', st', case data it of None \<Rightarrow> 0 | Some d \<Rightarrow> db_size d, []))
         else if ty = type_code ARTS_EVENT \<or> ty = type_code ARTS_BUFFER then
           (case free_item it st of (it', st') \<Rightarrow> (it', st', 0, owned))
         else if ty \<noteq> type_code ARTS_NULL then
           (case free_item it st of (it', st') \<Rightarrow> (it', st', 0, []))
         else (it, st, 0, []))"

fun clean_loop ::
    "nat \<Rightarrow> (nat \<Rightarrow> u64) \<Rightarrow> 'o chain \<Rightarrow> db_store \<Rightarrow> loc \<Rightarrow> ('o chain \<times> db_store \<times> u64 \<times> nat list) res" where
  "clean_loop 0 db_size c st itr = Inl Out_Of_Fuel"
| "clean_loop (Suc n) db_size c st itr =
     rbind (arts_route_table_iterate c itr) (\<lambda>(itr', r).
       case r of None \<Rightarrow> Inr (c, st, 0, [])
       | Some p \<Rightarrow>
           (case clean_item db_size (item_at c p) st of
              (it, st', sz, owned) \<Rightarrow>
                rbind (clean_loop n db_size (set_at c p it) st' itr') (\<lambda>(c', st'', sz', owned').
                  Inr (c', st'', sz + sz', owned @ owned'))))"

text \<open>One iteration per slot and one to see the end are enough.\<close>

definition arts_clean_up_route_table ::
    "(nat \<Rightarrow> u64) \<Rightarrow> 'o chain \<Rightarrow> db_store \<Rightarrow> ('o chain \<times> db_store \<times> u64 \<times> nat list) res" where
  "arts_clean_up_route_table db_size c st =
     clean_loop (Suc (sum_list (map (\<lambda>t. length (tdata t)) c))) db_size c st (0, 0)"

section \<open>The node\<close>

text \<open>The tables of a node: one chain per worker and one for remote GUIDs.\<close>

record 'o node_tables =
  local_tables :: "nat \<Rightarrow> 'o chain"
  remote_route_table :: "'o chain"

definition get_chain :: "guid_state \<Rightarrow> arts_guid_t \<Rightarrow> 'o node_tables \<Rightarrow> 'o chain" where
  "get_chain gs k n =
     (case arts_get_route_table gs k of Some i \<Rightarrow> local_tables n i | None \<Rightarrow> remote_route_table n)"

definition put_chain :: "guid_state \<Rightarrow> arts_guid_t \<Rightarrow> 'o chain \<Rightarrow> 'o node_tables \<Rightarrow> 'o node_tables" where
  "put_chain gs k c n =
     (case arts_get_route_table gs k of
        Some i \<Rightarrow> n\<lparr>local_tables := (local_tables n)(i := c)\<rparr>
      | None \<Rightarrow> n\<lparr>remote_route_table := c\<rparr>)"

definition arts_route_table_add_item ::
    "guid_state \<Rightarrow> nat option \<Rightarrow> arts_guid_t \<Rightarrow> u32 \<Rightarrow> bool \<Rightarrow> 'o node_tables \<Rightarrow> 'o node_tables res" where
  "arts_route_table_add_item gs item k rank used n =
     rbind (internal_route_table_add_item (get_chain gs k n) item k rank used)
       (\<lambda>(c, p). Inr (put_chain gs k c n))"

definition arts_route_table_add_item_race ::
    "guid_state \<Rightarrow> nat option \<Rightarrow> arts_guid_t \<Rightarrow> u32 \<Rightarrow> bool \<Rightarrow> 'o node_tables \<Rightarrow> ('o node_tables \<times> bool) res" where
  "arts_route_table_add_item_race gs item k rank used n =
     rbind (internal_route_table_add_item_race (get_chain gs k n) item k rank used False 0)
       (\<lambda>(c, p, added). Inr (put_chain gs k c n, added))"

definition arts_route_table_lookup_item :: "guid_state \<Rightarrow> arts_guid_t \<Rightarrow> 'o node_tables \<Rightarrow> nat option res" where
  "arts_route_table_lookup_item gs k n = lookup_item (get_chain gs k n) k"

definition arts_route_table_invalidate_item ::
    "guid_state \<Rightarrow> arts_guid_t \<Rightarrow> 'o node_tables \<Rightarrow> db_store \<Rightarrow> ('o node_tables \<times> db_store \<times> bool) res" where
  "arts_route_table_invalidate_item gs k n st =
     rbind (internal_route_table_remove_item (get_chain gs k n) st k)
       (\<lambda>(c, st', b). Inr (put_chain gs k c n, st', b))"

definition arts_route_table_remove_item ::
    "guid_state \<Rightarrow> arts_guid_t \<Rightarrow> 'o node_tables \<Rightarrow> db_store \<Rightarrow> ('o node_tables \<times> db_store \<times> bool) res" where
  "arts_route_table_remove_item gs k n st = arts_route_table_invalidate_item gs k n st"

definition arts_route_table_return_db ::
    "node_cfg \<Rightarrow> guid_state \<Rightarrow> arts_guid_t \<Rightarrow> bool \<Rightarrow> 'o node_tables \<Rightarrow> db_store
      \<Rightarrow> ('o node_tables \<times> db_store \<times> bool) res" where
  "arts_route_table_return_db cfg gs k mark_to_delete n st =
     (let is_remote = (arts_guid_get_rank k \<noteq> arts_global_rank_id cfg) in
      rbind (internal_route_table_return_db (get_chain gs k n) st k mark_to_delete is_remote)
        (\<lambda>(c, st', b). Inr (put_chain gs k c n, st', b)))"

section \<open>Bounds\<close>

definition table_ok :: "'o route_table \<Rightarrow> bool" where
  "table_ok t \<longleftrightarrow>
     0 < unat (tshift t) \<and> unat (tshift t) < 32 \<and> unat (tsize t) = 2 ^ unat (tshift t) \<and>
     length (tdata t) = COLLISION_RESOLVES * 2 ^ unat (tshift t)"

lemma drop_bit_bound:
  assumes "0 < s" "s \<le> 64"
  shows "unat (drop_bit (64 - s) (w :: u64)) < 2 ^ s"
proof -
  have "unat w < 2 ^ (64 - s) * 2 ^ s"
    using assms unsigned_less [of w] by (simp flip: power_add)
  then have "unat w div 2 ^ (64 - s) < 2 ^ s" by (metis less_mult_imp_div_less mult.commute)
  then show ?thesis by (simp only: unat_drop_bit_eq) (simp only: drop_bit_eq_div)
qed

lemma bucket_bound:
  assumes "table_ok t"
  shows "bucket k t + COLLISION_RESOLVES \<le> length (tdata t)"
proof -
  let ?s = "unat (tshift t)"
  let ?h = "foldl (\<lambda>h c. h * snd c) 14695981039346656037 (dropWhile (\<lambda>c. fst c \<noteq> ?s) hash_cases)"
  let ?d = "drop_bit (64 - ?s) (k * ?h)"
  have s: "0 < ?s" "?s \<le> 31" using assms by (auto simp: table_ok_def)
  have d: "unat ?d < 2 ^ ?s" using s by (intro drop_bit_bound) simp_all
  moreover have "(2 :: nat) ^ ?s \<le> 2 ^ 31" using s by (intro power_increasing) simp_all
  ultimately have "unat ?d * 8 < 2 ^ 64" by simp
  then have "unat (?d * 8) = unat ?d * 8" by (subst unat_mult_lt) simp_all
  then have "bucket k t = unat ?d * 8" by (simp add: bucket_def get_route_table_key_def Let_def)
  then show ?thesis using d assms by (simp add: table_ok_def)
qed

lemma new_table_ok:
  fixes t :: "'o route_table"
  assumes "table_ok t" "unat (tshift t) < 31"
  shows "table_ok (arts_new_route_table (2 * tsize t) (tshift t + 1) :: 'o route_table)"
proof -
  let ?s = "unat (tshift t)"
  have "(2 :: nat) ^ ?s \<le> 2 ^ 30" using assms by (intro power_increasing) simp_all
  then have "unat (2 * tsize t) = 2 * 2 ^ ?s" using assms by (subst unat_mult_lt) (simp_all add: table_ok_def)
  moreover have "unat (tshift t + 1) = ?s + 1" using assms by (subst unat_add_lt) simp_all
  ultimately show ?thesis using assms by (simp add: table_ok_def arts_new_route_table_def)
qed

section \<open>The interface of the table\<close>

text \<open>
  What the rest of the runtime relies on: a GUID that is not in the table can be
  inserted, is then found with the data it was given, and no other GUID is touched.
  \<open>inv n s\<close> is the invariant of a store that can take \<open>n\<close> more insertions.
\<close>

locale guid_store =
  fixes inv :: "nat \<Rightarrow> 's \<Rightarrow> bool"
    and present :: "'s \<Rightarrow> 'k \<Rightarrow> bool"
    and ins :: "'k \<Rightarrow> 'v \<Rightarrow> 's \<Rightarrow> 's res"
    and get :: "'s \<Rightarrow> 'k \<Rightarrow> 'v option res"
  assumes ins_law: "inv (Suc n) s \<Longrightarrow> \<not> present s k \<Longrightarrow>
      \<exists>s'. ins k v s = Inr s' \<and> inv n s' \<and> present s' k \<and> get s' k = Inr (Some v) \<and>
        (\<forall>k'. k' \<noteq> k \<longrightarrow> present s' k' = present s k' \<and> get s' k' = get s k')"
begin

primrec ins_all :: "('k \<times> 'v) list \<Rightarrow> 's \<Rightarrow> 's res" where
  "ins_all [] s = Inr s"
| "ins_all (x # xs) s = rbind (ins (fst x) (snd x) s) (ins_all xs)"

lemma ins_all_lookup:
  assumes "inv (length xs + n) s" "distinct (map fst xs)" "\<forall>x\<in>set xs. \<not> present s (fst x)"
  shows "\<exists>s'. ins_all xs s = Inr s' \<and> inv n s' \<and>
    (\<forall>k. get s' k = (case map_of xs k of Some v \<Rightarrow> Inr (Some v) | None \<Rightarrow> get s k))"
  using assms
proof (induction xs arbitrary: s)
  case (Cons x xs)
  obtain s1 where s1: "ins (fst x) (snd x) s = Inr s1" "inv (length xs + n) s1"
    "get s1 (fst x) = Inr (Some (snd x))"
    "\<forall>k'. k' \<noteq> fst x \<longrightarrow> present s1 k' = present s k' \<and> get s1 k' = get s k'"
    using ins_law [of "length xs + n" s "fst x" "snd x"] Cons.prems by auto
  have "\<forall>y\<in>set xs. \<not> present s1 (fst y)" using Cons.prems(2,3) s1(4) by (metis distinct.simps(2) image_eqI list.set_intros(2) list.set_map list.simps(9))
  with Cons.IH [OF s1(2)] Cons.prems(2) obtain s' where s': "ins_all xs s1 = Inr s'" "inv n s'"
    "\<forall>k. get s' k = (case map_of xs k of Some v \<Rightarrow> Inr (Some v) | None \<Rightarrow> get s1 k)" by auto
  have "map_of xs (fst x) = None" using Cons.prems(2) by (auto simp: map_of_eq_None_iff)
  then show ?case using s1 s' by (auto split: option.splits)
qed simp

end

section \<open>Search\<close>

abbreviation matches :: "arts_guid_t \<Rightarrow> item_state_t \<Rightarrow> 'o route_item \<Rightarrow> bool" where
  "matches k st it \<equiv> check_item_state it st \<and> key it = k"

definition in_bucket :: "'o chain \<Rightarrow> arts_guid_t \<Rightarrow> loc \<Rightarrow> bool" where
  "in_bucket c k p \<longleftrightarrow>
     fst p < length c \<and> bucket k (c ! fst p) \<le> snd p \<and> snd p < bucket k (c ! fst p) + COLLISION_RESOLVES"

definition holds :: "'o chain \<Rightarrow> item_state_t \<Rightarrow> arts_guid_t \<Rightarrow> loc \<Rightarrow> bool" where
  "holds c st k p \<longleftrightarrow> in_bucket c k p \<and> matches k st (item_at c p)"

lemma scan_key_spec:
  assumes "pos + n \<le> length its"
  shows "\<exists>r. scan_key its k st n pos = Inr r \<and>
    (case r of Some j \<Rightarrow> pos \<le> j \<and> j < pos + n \<and> matches k st (its ! j)
     | None \<Rightarrow> \<forall>j. pos \<le> j \<and> j < pos + n \<longrightarrow> \<not> matches k st (its ! j))"
  using assms
proof (induction n arbitrary: pos)
  case (Suc n)
  show ?case
  proof (cases "matches k st (its ! pos)")
    case True
    then show ?thesis using Suc.prems by simp
  next
    case False
    obtain r where r: "scan_key its k st n (pos + 1) = Inr r"
      "case r of Some j \<Rightarrow> pos + 1 \<le> j \<and> j < pos + 1 + n \<and> matches k st (its ! j)
       | None \<Rightarrow> \<forall>j. pos + 1 \<le> j \<and> j < pos + 1 + n \<longrightarrow> \<not> matches k st (its ! j)"
      using Suc.IH [of "pos + 1"] Suc.prems by auto
    have "\<not> matches k st (its ! j)" if "r = None" "pos \<le> j" "j < pos + Suc n" for j
      using that r(2) False by (cases "j = pos") auto
    then show ?thesis using Suc.prems False r by (auto split: option.splits)
  qed
qed auto

lemma search_from_spec:
  assumes "\<forall>t\<in>set c. table_ok t"
  shows "\<exists>r. search_from i c k st = Inr r \<and>
    (case r of Some p \<Rightarrow> i \<le> fst p \<and> holds c st k (fst p - i, snd p) | None \<Rightarrow> \<forall>p. \<not> holds c st k p)"
  using assms
proof (induction c arbitrary: i)
  case Nil
  then show ?case by (simp add: holds_def in_bucket_def)
next
  case (Cons t ts)
  have b: "bucket k t + 8 \<le> length (tdata t)" using Cons.prems by (intro bucket_bound) simp
  obtain r where r: "scan_key (tdata t) k st 8 (bucket k t) = Inr r"
    "case r of Some j \<Rightarrow> bucket k t \<le> j \<and> j < bucket k t + 8 \<and> matches k st (tdata t ! j)
     | None \<Rightarrow> \<forall>j. bucket k t \<le> j \<and> j < bucket k t + 8 \<longrightarrow> \<not> matches k st (tdata t ! j)"
    using scan_key_spec [OF b] by blast
  show ?case
  proof (cases r)
    case (Some j)
    then show ?thesis using r by (auto simp: holds_def in_bucket_def item_at_def)
  next
    case None
    obtain q where q: "search_from (Suc i) ts k st = Inr q"
      "case q of Some p \<Rightarrow> Suc i \<le> fst p \<and> holds ts st k (fst p - Suc i, snd p) | None \<Rightarrow> \<forall>p. \<not> holds ts st k p"
      using Cons.IH [of "Suc i"] Cons.prems by auto
    have shift: "holds (t # ts) st k (Suc a, b) = holds ts st k (a, b)" for a b
      by (simp add: holds_def in_bucket_def item_at_def)
    have zero: "\<not> holds (t # ts) st k (0, b)" for b
      using r(2) None by (auto simp: holds_def in_bucket_def item_at_def)
    show ?thesis
    proof (cases q)
      case None
      have "\<not> holds (t # ts) st k p" for p
        using q(2) None zero shift by (cases p; cases "fst p") auto
      then show ?thesis using r(1) \<open>r = None\<close> q(1) None by simp
    next
      case (Some p)
      then have "Suc i \<le> fst p" "holds ts st k (fst p - Suc i, snd p)" using q(2) by auto
      moreover have "fst p - i = Suc (fst p - Suc i)" using \<open>Suc i \<le> fst p\<close> by simp
      ultimately show ?thesis using r(1) \<open>r = None\<close> q(1) Some shift by simp
    qed
  qed
qed

definition chain_ok :: "'o chain \<Rightarrow> bool" where
  "chain_ok c \<longleftrightarrow>
     c \<noteq> [] \<and> (\<forall>t\<in>set c. table_ok t) \<and>
     (\<forall>k p q. holds c ALLOCATED_KEY k p \<and> holds c ALLOCATED_KEY k q \<longrightarrow> p = q)"

lemma allocated_weaken:
  "st \<in> {AVAILABLE_KEY, RESERVED_KEY, REQUESTED_KEY} \<Longrightarrow> holds c st k p \<Longrightarrow> holds c ALLOCATED_KEY k p"
  by (auto simp: holds_def check_item_state_def Let_def)

lemma search_found:
  assumes "chain_ok c" "st \<in> {ALLOCATED_KEY, AVAILABLE_KEY, RESERVED_KEY, REQUESTED_KEY}" "holds c st k p"
  shows "arts_route_table_search_for_key c k st = Inr (Some p)"
proof -
  obtain r where r: "search_from 0 c k st = Inr r"
    "case r of Some p \<Rightarrow> 0 \<le> fst p \<and> holds c st k (fst p - 0, snd p) | None \<Rightarrow> \<forall>p. \<not> holds c st k p"
    using search_from_spec [of c 0 k st] assms(1) by (auto simp: chain_ok_def)
  then obtain q where "r = Some q" "holds c st k q" using assms(3) by (cases r; cases p) auto
  moreover have "q = p"
    using assms calculation(2) allocated_weaken [of st c k] unfolding chain_ok_def by blast
  ultimately show ?thesis using r(1) by (simp add: arts_route_table_search_for_key_def)
qed

lemma search_missing:
  assumes "chain_ok c" "\<forall>p. \<not> holds c st k p"
  shows "arts_route_table_search_for_key c k st = Inr None"
proof -
  obtain r where "search_from 0 c k st = Inr r"
    "case r of Some p \<Rightarrow> 0 \<le> fst p \<and> holds c st k (fst p - 0, snd p) | None \<Rightarrow> \<forall>p. \<not> holds c st k p"
    using search_from_spec [of c 0 k st] assms(1) by (auto simp: chain_ok_def)
  then show ?thesis using assms(2) by (cases r) (auto simp: arts_route_table_search_for_key_def)
qed

section \<open>Changing one slot\<close>

definition loc_ok :: "'o chain \<Rightarrow> loc \<Rightarrow> bool" where
  "loc_ok c p \<longleftrightarrow> fst p < length c \<and> snd p < length (tdata (c ! fst p))"

lemma in_bucket_loc: "\<forall>t\<in>set c. table_ok t \<Longrightarrow> in_bucket c k p \<Longrightarrow> loc_ok c p"
  using bucket_bound [of "c ! fst p" k] by (auto simp: in_bucket_def loc_ok_def)

lemma holds_loc: "chain_ok c \<Longrightarrow> holds c st k p \<Longrightarrow> loc_ok c p"
  using in_bucket_loc [of c k p] by (simp add: holds_def chain_ok_def)

lemma set_at_fields [simp]:
  "length (set_at c p it) = length c"
  "i < length c \<Longrightarrow> tshift (set_at c p it ! i) = tshift (c ! i)"
  "i < length c \<Longrightarrow> tsize (set_at c p it ! i) = tsize (c ! i)"
  "i < length c \<Longrightarrow> length (tdata (set_at c p it ! i)) = length (tdata (c ! i))"
  by (cases "i = fst p"; simp add: set_at_def)+

lemma item_set_at:
  "loc_ok c p \<Longrightarrow> loc_ok c q \<Longrightarrow> item_at (set_at c p it) q = (if q = p then it else item_at c q)"
  by (cases p; cases q; cases "fst q = fst p") (auto simp: item_at_def set_at_def loc_ok_def nth_list_update)

lemma set_at_twice [simp]: "set_at (set_at c p a) p b = set_at c p b"
  by (cases "fst p < length c") (simp_all add: set_at_def list_update_beyond)

lemma bucket_set_at [simp]: "i < length c \<Longrightarrow> bucket k (set_at c p it ! i) = bucket k (c ! i)"
  by (simp add: bucket_def)

lemma in_bucket_set_at [simp]: "in_bucket (set_at c p it) k q = in_bucket c k q"
  by (auto simp: in_bucket_def)

lemma tables_set_at: "\<forall>t\<in>set c. table_ok t \<Longrightarrow> \<forall>t\<in>set (set_at c p it). table_ok t"
  by (simp add: all_set_conv_all_nth table_ok_def)

lemma holds_set_at:
  assumes "\<forall>t\<in>set c. table_ok t" "loc_ok c p"
  shows "holds (set_at c p it) st k q = (in_bucket c k q \<and> matches k st (if q = p then it else item_at c q))"
proof (cases "in_bucket c k q")
  case True
  then have "loc_ok c q" using assms(1) in_bucket_loc by blast
  then show ?thesis using True by (auto simp: holds_def item_set_at [OF assms(2)])
qed (simp add: holds_def)

lemma chain_ok_set_at:
  assumes "chain_ok c" "loc_ok c p"
    "\<And>k q. matches k ALLOCATED_KEY it \<Longrightarrow> holds c ALLOCATED_KEY k q \<Longrightarrow> q = p"
  shows "chain_ok (set_at c p it)"
proof -
  have t: "\<forall>t\<in>set c. table_ok t" using assms(1) by (simp add: chain_ok_def)
  have u: "holds c ALLOCATED_KEY k q \<Longrightarrow> holds c ALLOCATED_KEY k q' \<Longrightarrow> q = q'" for k q q'
    using assms(1) unfolding chain_ok_def by blast
  have new: "q = p \<and> matches k ALLOCATED_KEY it \<or> q \<noteq> p \<and> holds c ALLOCATED_KEY k q"
    if "holds (set_at c p it) ALLOCATED_KEY k q" for k q
    using that [unfolded holds_set_at [OF t assms(2)]] by (cases "q = p") (auto simp: holds_def)
  have "q = q'" if "holds (set_at c p it) ALLOCATED_KEY k q" "holds (set_at c p it) ALLOCATED_KEY k q'" for k q q'
    using new [OF that(1)] new [OF that(2)] u assms(3) by blast
  moreover have "set_at c p it \<noteq> []" using assms(1) by (metis chain_ok_def length_0_conv set_at_fields(1))
  ultimately show ?thesis using tables_set_at [OF t] unfolding chain_ok_def by blast
qed

section \<open>Free slots\<close>

lemma mark_reserve_free_ok: "ilock it = 0 \<Longrightarrow> snd (mark_reserve it used)"
  by (simp add: mark_reserve_def Let_def arts_defs)

lemma scan_empty_spec:
  assumes "pos + n \<le> length its"
  shows "\<exists>r. scan_empty its used n pos = Inr r \<and>
    (case r of Some j \<Rightarrow> pos \<le> j \<and> j < pos + n \<and> ilock (its ! j) = 0
     | None \<Rightarrow> \<forall>j. pos \<le> j \<and> j < pos + n \<longrightarrow> ilock (its ! j) \<noteq> 0)"
  using assms
proof (induction n arbitrary: pos)
  case (Suc n)
  show ?case
  proof (cases "ilock (its ! pos) = 0")
    case True
    then show ?thesis using Suc.prems by (simp add: mark_reserve_free_ok)
  next
    case False
    obtain r where r: "scan_empty its used n (pos + 1) = Inr r"
      "case r of Some j \<Rightarrow> pos + 1 \<le> j \<and> j < pos + 1 + n \<and> ilock (its ! j) = 0
       | None \<Rightarrow> \<forall>j. pos + 1 \<le> j \<and> j < pos + 1 + n \<longrightarrow> ilock (its ! j) \<noteq> 0"
      using Suc.IH [of "pos + 1"] Suc.prems by auto
    have "ilock (its ! j) \<noteq> 0" if "r = None" "pos \<le> j" "j < pos + Suc n" for j
      using that r(2) False by (cases "j = pos") auto
    then show ?thesis using Suc.prems False r by (auto split: option.splits)
  qed
qed auto

text \<open>The chain a free slot is taken from: the old one, or the old one and a new table.\<close>

definition grown :: "'o chain \<Rightarrow> 'o chain \<Rightarrow> bool" where
  "grown c c' \<longleftrightarrow>
     c' = c \<or> c' = c @ [arts_new_route_table (2 * tsize (last c)) (tshift (last c) + 1)]"

definition reserved_item :: "'o route_item \<Rightarrow> arts_guid_t \<Rightarrow> bool \<Rightarrow> 'o route_item" where
  "reserved_item it k used = (fst (mark_reserve it used))\<lparr>key := k\<rparr>"

lemma bucket_new_free:
  fixes t t' :: "'o route_table"
  assumes "table_ok t" "unat (tshift t) < 31"
  defines "t' \<equiv> arts_new_route_table (2 * tsize t) (tshift t + 1)"
  shows "bucket k t' < length (tdata t')" "tdata t' ! bucket k t' = empty_item"
proof -
  have "bucket k t' + 8 \<le> length (tdata t')"
    using bucket_bound [OF new_table_ok [OF assms(1,2)], of k] unfolding t'_def .
  then show "bucket k t' < length (tdata t')" by simp
  then show "tdata t' ! bucket k t' = empty_item"
    by (simp add: t'_def arts_new_route_table_def)
qed

lemma empty_in_table:
  assumes "scan_empty (tdata t) used 8 (bucket k t) = Inr (Some j)"
    "bucket k t \<le> j" "j < bucket k t + 8" "ilock (tdata t ! j) = 0"
  shows "empty_from g (t # ts) k used =
      Inr (set_at (t # ts) (0, j) (reserved_item (item_at (t # ts) (0, j)) k used), (0, j))"
    "in_bucket (t # ts) k (0, j)" "ilock (item_at (t # ts) (0, j)) = 0"
  using assms by (simp_all add: Let_def set_at_def item_at_def reserved_item_def in_bucket_def)

lemma grown_Cons: "ts \<noteq> [] \<Longrightarrow> grown ts c' \<Longrightarrow> grown (t # ts) (t # c')"
  by (auto simp: grown_def)

lemma shift_chain:
  "set_at (t # c) (Suc i, j) it = t # set_at c (i, j) it"
  "item_at (t # c) (Suc i, j) = item_at c (i, j)"
  "in_bucket (t # c) k (Suc i, j) = in_bucket c k (i, j)"
  by (simp_all add: set_at_def item_at_def in_bucket_def)

lemma empty_from_spec:
  assumes "c \<noteq> []" "\<forall>t\<in>set c. table_ok t \<and> unat (tshift t) < 31"
  shows "\<exists>c' i j. empty_from (Suc g) c k used =
      Inr (set_at c' (i, j) (reserved_item (item_at c' (i, j)) k used), (i, j)) \<and>
    grown c c' \<and> in_bucket c' k (i, j) \<and> ilock (item_at c' (i, j)) = 0"
  using assms
proof (induction c)
  case (Cons t ts)
  have t: "table_ok t" "unat (tshift t) < 31" using Cons.prems by auto
  obtain r where r: "scan_empty (tdata t) used 8 (bucket k t) = Inr r"
    "case r of Some j \<Rightarrow> bucket k t \<le> j \<and> j < bucket k t + 8 \<and> ilock (tdata t ! j) = 0
     | None \<Rightarrow> \<forall>j. bucket k t \<le> j \<and> j < bucket k t + 8 \<longrightarrow> ilock (tdata t ! j) \<noteq> 0"
    using scan_empty_spec [OF bucket_bound [OF t(1)]] by blast
  show ?case
  proof (cases r)
    case (Some j)
    then have j: "scan_empty (tdata t) used 8 (bucket k t) = Inr (Some j)"
      "bucket k t \<le> j" "j < bucket k t + 8" "ilock (tdata t ! j) = 0" using r by simp_all
    show ?thesis using empty_in_table [OF j]
      by (intro exI [of _ "t # ts"] exI [of _ 0] exI [of _ j]) (simp add: grown_def)
  next
    case None
    show ?thesis
    proof (cases "ts = []")
      case True
      let ?t = "arts_new_route_table (2 * tsize t) (tshift t + 1) :: 'a route_table"
      let ?j = "bucket k ?t"
      have n: "?j < length (tdata ?t)" "ilock (tdata ?t ! ?j) = 0"
        using bucket_new_free [OF t, of k] by (simp_all add: empty_item_def)
      then have "scan_empty (tdata ?t) used 8 ?j = Inr (Some ?j)"
        by (simp add: eval_nat_numeral mark_reserve_free_ok)
      note e = empty_in_table [OF this _ _ n(2)]
      have "empty_from (Suc g) (t # ts) k used =
          rbind (empty_from g [?t] k used) (\<lambda>(ts', i, j). Inr (t # ts', Suc i, j))"
        using r(1) None True by simp
      also have "\<dots> = Inr (set_at [t, ?t] (1, ?j) (reserved_item (item_at [t, ?t] (1, ?j)) k used), (1, ?j))"
        using e(1) by (simp add: shift_chain del: empty_from.simps)
      finally show ?thesis using e(2,3) True
        by (intro exI [of _ "[t, ?t]"] exI [of _ 1] exI [of _ ?j]) (simp add: shift_chain grown_def)
    next
      case False
      from Cons.IH [OF False] Cons.prems(2) obtain c' i j where e:
        "empty_from (Suc g) ts k used = Inr (set_at c' (i, j) (reserved_item (item_at c' (i, j)) k used), (i, j))"
        "grown ts c'" "in_bucket c' k (i, j)" "ilock (item_at c' (i, j)) = 0" by auto
      have "empty_from (Suc g) (t # ts) k used =
          rbind (empty_from (Suc g) ts k used) (\<lambda>(ts', i, j). Inr (t # ts', Suc i, j))"
        using r(1) None False by simp
      then show ?thesis using e grown_Cons [OF False e(2)]
        by (intro exI [of _ "t # c'"] exI [of _ "Suc i"] exI [of _ j]) (simp add: shift_chain del: empty_from.simps)
    qed
  qed
qed simp

section \<open>Insertion\<close>

text \<open>\<open>room n c\<close>: the chain can still grow by \<open>n\<close> tables before the sizes leave 32 bits.\<close>

definition room :: "nat \<Rightarrow> 'o chain \<Rightarrow> bool" where
  "room n c \<longleftrightarrow> (\<forall>t\<in>set c. unat (tshift t) + n \<le> 31)"

lemma last_ok: "chain_ok c \<Longrightarrow> table_ok (last c)"
  by (simp add: chain_ok_def)

lemma room_grown:
  assumes "chain_ok c" "room (Suc n) c" "grown c c'"
  shows "room n c'" "c' \<noteq> []" "\<forall>t\<in>set c'. table_ok t"
proof -
  have s: "\<forall>t\<in>set c. unat (tshift t) + n \<le> 31" using assms(2) by (auto simp: room_def)
  have l: "table_ok (last c)" "unat (tshift (last c)) + Suc n \<le> 31" "last c \<in> set c"
    using assms(1,2) by (auto simp: chain_ok_def room_def)
  then have "unat (tshift (last c) + 1) = unat (tshift (last c)) + 1"
    by (subst unat_add_lt) simp_all
  then show "room n c'"
    using assms(3) l s by (auto simp: grown_def room_def arts_new_route_table_def)
  show "c' \<noteq> []" using assms(1,3) by (auto simp: grown_def chain_ok_def)
  show "\<forall>t\<in>set c'. table_ok t"
    using assms(1,3) new_table_ok [OF l(1)] l(2) by (auto simp: grown_def chain_ok_def)
qed

lemma item_grown:
  assumes "chain_ok c" "grown c c'" "in_bucket c' k q"
  shows "in_bucket c k q \<and> item_at c' q = item_at c q \<or> (\<not> in_bucket c k q \<and> (room 1 c \<longrightarrow> item_at c' q = empty_item))"
proof (cases "fst q < length c")
  case True
  then show ?thesis using assms(2,3) by (auto simp: grown_def in_bucket_def item_at_def nth_append)
next
  case False
  let ?t = "arts_new_route_table (2 * tsize (last c)) (tshift (last c) + 1) :: 'a route_table"
  have q: "c' = c @ [?t]" "fst q = length c" "bucket k ?t \<le> snd q" "snd q < bucket k ?t + 8"
    using assms(2,3) False by (auto simp: grown_def in_bucket_def less_Suc_eq)
  have "item_at c' q = empty_item" if "room 1 c"
  proof -
    have "last c \<in> set c" using assms(1) by (simp add: chain_ok_def)
    then have "unat (tshift (last c)) < 31" using that by (fastforce simp: room_def)
    from bucket_bound [OF new_table_ok [OF last_ok [OF assms(1)] this], of k]
    have "snd q < length (tdata ?t)" using q(4) by simp
    then show ?thesis using q by (simp add: item_at_def arts_new_route_table_def)
  qed
  then show ?thesis using False by (simp add: in_bucket_def)
qed

lemma empty_not_allocated [simp]: "\<not> check_item_state (empty_item :: 'o route_item) st"
  by (cases st) (simp_all add: check_item_state_def empty_item_def view_0)

lemma holds_grown:
  assumes "chain_ok c" "grown c c'" "room 1 c"
  shows "holds c' st k q = holds c st k q"
proof -
  have "in_bucket c k q \<Longrightarrow> in_bucket c' k q"
    using assms(2) by (auto simp: grown_def in_bucket_def nth_append)
  then show ?thesis
    using item_grown [OF assms(1,2), of k q] assms(3) by (auto simp: holds_def)
qed

lemma chain_ok_grown:
  assumes "chain_ok c" "grown c c'" "room 1 c"
  shows "chain_ok c'"
proof -
  have "room (Suc 0) c" using assms(3) by simp
  note g = room_grown [OF assms(1) this assms(2)]
  show ?thesis using g assms(1) unfolding chain_ok_def holds_grown [OF assms] by blast
qed

text \<open>The new item, and what a chain with it in a free slot holds.\<close>

definition added_item :: "'o route_item \<Rightarrow> nat option \<Rightarrow> arts_guid_t \<Rightarrow> u32 \<Rightarrow> bool \<Rightarrow> 'o route_item" where
  "added_item it d k rank used = fst (mark_write ((set_item (reserved_item it k used) d)\<lparr>irank := rank\<rparr>))"

lemma mark_write_fields:
  "key (fst (mark_write it)) = key it" "data (fst (mark_write it)) = data it" "irank (fst (mark_write it)) = irank it"
  by (simp_all add: mark_write_def Let_def)

lemma added_item_fields:
  assumes "ilock it = 0"
  shows "key (added_item it d k rank used) = k" "data (added_item it d k rank used) = d"
    "irank (added_item it d k rank used) = rank"
    "iview (added_item it d k rank used) =
       \<lparr>v_res = False, v_avail = True, v_del = False, v_count = (if used then 1 else 0)\<rparr>"
proof -
  let ?it = "(set_item (reserved_item it k used) d)\<lparr>irank := rank\<rparr>"
  have v: "iview ?it = \<lparr>v_res = True, v_avail = False, v_del = False, v_count = (if used then 1 else 0)\<rparr>"
    using mark_reserve_free(2) [OF assms, of used] by (simp add: set_item_def reserved_item_def)
  then show "iview (added_item it d k rank used) =
       \<lparr>v_res = False, v_avail = True, v_del = False, v_count = (if used then 1 else 0)\<rparr>"
    using mark_write_view(2) [of ?it] by (simp add: added_item_def)
qed (simp_all add: added_item_def mark_write_fields set_item_def reserved_item_def)

lemma add_item_spec:
  assumes "chain_ok c" "room (Suc n) c" "\<forall>p. \<not> holds c ALLOCATED_KEY k p"
  shows "\<exists>c' p it. internal_route_table_add_item c d k rank used = Inr (set_at c' p (added_item it d k rank used), p) \<and>
    ilock it = 0 \<and> in_bucket c' k p \<and> grown c c' \<and> it = item_at c' p"
proof -
  have "c \<noteq> []" "\<forall>t\<in>set c. table_ok t \<and> unat (tshift t) < 31"
    using assms(1,2) by (auto simp: chain_ok_def room_def)
  from empty_from_spec [OF this, of 0 k used] obtain c' i j where e:
    "empty_from 1 c k used = Inr (set_at c' (i, j) (reserved_item (item_at c' (i, j)) k used), (i, j))"
    "grown c c'" "in_bucket c' k (i, j)" "ilock (item_at c' (i, j)) = 0" by auto
  have "loc_ok c' (i, j)" using e(3) room_grown(3) [OF assms(1,2) e(2)] by (rule in_bucket_loc [rotated])
  then have "item_at (set_at c' (i, j) (reserved_item (item_at c' (i, j)) k used)) (i, j) = reserved_item (item_at c' (i, j)) k used"
    by (simp add: item_set_at)
  then have "internal_route_table_add_item c d k rank used =
      Inr (set_at c' (i, j) (added_item (item_at c' (i, j)) d k rank used), (i, j))"
    using e(1) by (simp add: internal_route_table_add_item_def arts_route_table_search_for_empty_def added_item_def Let_def)
  then show ?thesis using e by blast
qed

text \<open>What a chain holds after an item is written into a free slot of the key's bucket.\<close>

lemma holds_added:
  fixes d :: "nat option" and rank :: u32 and used :: bool
  assumes "chain_ok c" "room 1 c" "grown c c'" "in_bucket c' k p" "it = item_at c' p" "ilock it = 0"
    "\<forall>p. \<not> holds c ALLOCATED_KEY k p"
  defines "c'' \<equiv> set_at c' p (added_item it d k rank used)"
  shows "chain_ok c''" "holds c'' AVAILABLE_KEY k p" "item_at c'' p = added_item it d k rank used"
    "k' \<noteq> k \<Longrightarrow> holds c'' st k' q = holds c st k' q"
    "k' \<noteq> k \<Longrightarrow> holds c st k' q \<Longrightarrow> item_at c'' q = item_at c q"
proof -
  note ok = chain_ok_grown [OF assms(1,3,2)] and h = holds_grown [OF assms(1,3,2)]
  note a = added_item_fields [OF assms(6), of d k rank used]
  have t: "\<forall>t\<in>set c'. table_ok t" using ok by (simp add: chain_ok_def)
  have l: "loc_ok c' p" using in_bucket_loc [OF t assms(4)] .
  show "item_at c'' p = added_item it d k rank used" using l by (simp add: c''_def item_set_at)
  show "chain_ok c''" unfolding c''_def
    by (rule chain_ok_set_at [OF ok l]) (use a(1) assms(7) h in auto)
  show "holds c'' AVAILABLE_KEY k p"
    using assms(4) a by (simp add: c''_def holds_set_at [OF t l] check_item_state_def Let_def)
  have z: "\<not> check_item_state it st" for st
    using assms(6) by (cases st) (simp_all add: check_item_state_def view_0)
  show other: "holds c'' st k' q = holds c st k' q" if "k' \<noteq> k"
    using that a(1) z [of st] assms(5) h [of st k' q]
    unfolding c''_def holds_set_at [OF t l] by (cases "q = p") (auto simp: holds_def)
  show "item_at c'' q = item_at c q" if "k' \<noteq> k" "holds c st k' q"
  proof -
    have "holds c' st k' q" using that(2) h by simp
    then have b: "in_bucket c' k' q" "check_item_state (item_at c' q) st" by (auto simp: holds_def)
    then have "q \<noteq> p" using z assms(5) by metis
    moreover have "loc_ok c' q" using in_bucket_loc [OF t b(1)] .
    moreover have "item_at c' q = item_at c q"
      using item_grown [OF assms(1,3) b(1)] that(2) by (auto simp: holds_def)
    ultimately show ?thesis using l by (simp add: c''_def item_set_at)
  qed
qed

text \<open>\<open>store_add\<close> inserts on behalf of this rank, with no reference held.\<close>

definition store_inv :: "nat \<Rightarrow> 'o chain \<Rightarrow> bool" where
  "store_inv n c \<longleftrightarrow> chain_ok c \<and> room n c"

definition allocated :: "'o chain \<Rightarrow> arts_guid_t \<Rightarrow> bool" where
  "allocated c k \<longleftrightarrow> (\<exists>p. holds c ALLOCATED_KEY k p)"

definition store_add :: "u32 \<Rightarrow> arts_guid_t \<Rightarrow> nat \<Rightarrow> 'o chain \<Rightarrow> 'o chain res" where
  "store_add rank k d c =
     rbind (internal_route_table_add_item_race c (Some d) k rank False False 0) (\<lambda>(c', p, b). Inr c')"

lemma lookup_cong:
  assumes "chain_ok c" "chain_ok c'"
    "\<And>q. holds c' AVAILABLE_KEY k q = holds c AVAILABLE_KEY k q"
    "\<And>q. holds c AVAILABLE_KEY k q \<Longrightarrow> item_at c' q = item_at c q"
  shows "lookup_item c' k = lookup_item c k"
proof (cases "\<exists>q. holds c AVAILABLE_KEY k q")
  case True
  then obtain q where q: "holds c AVAILABLE_KEY k q" by blast
  then show ?thesis
    using assms search_found [OF assms(1) _ q] search_found [OF assms(2), of AVAILABLE_KEY k q]
    by (simp add: lookup_item_def)
next
  case False
  then show ?thesis
    using search_missing [OF assms(1)] search_missing [OF assms(2)] assms(3) by (simp add: lookup_item_def)
qed

lemma add_item_race_absent:
  assumes "chain_ok c" "room (Suc n) c" "\<not> allocated c k"
  shows "\<exists>c' p. internal_route_table_add_item_race c d k rank used avail 0 = Inr (c', p, True) \<and>
     store_inv n c' \<and> allocated c' k \<and> lookup_item c' k = Inr d \<and>
     (\<forall>k'. k' \<noteq> k \<longrightarrow> allocated c' k' = allocated c k' \<and> lookup_item c' k' = lookup_item c k')"
proof -
  have na: "\<forall>p. \<not> holds c ALLOCATED_KEY k p" using assms(3) by (simp add: allocated_def)
  obtain c1 p it where e: "internal_route_table_add_item c d k rank used = Inr (set_at c1 p (added_item it d k rank used), p)"
    "ilock it = 0" "in_bucket c1 k p" "grown c c1" "it = item_at c1 p"
    using add_item_spec [OF assms(1,2) na] by blast
  let ?c = "set_at c1 p (added_item it d k rank used)"
  have r1: "room 1 c" using assms(2) by (fastforce simp: room_def)
  note h = holds_added [OF assms(1) r1 e(4,3,5,2) na, where d = d and rank = rank and used = used]
  have "room n ?c" using room_grown(1) [OF assms(1,2) e(4)] by (simp add: room_def all_set_conv_all_nth)
  moreover have "internal_route_table_add_item_race c d k rank used avail 0 = Inr (?c, p, True)"
    using e(1) search_missing [OF assms(1) na] h(3)
    by (simp add: internal_route_table_add_item_race_def)
  moreover have "allocated ?c k" using allocated_weaken [OF _ h(2)] unfolding allocated_def by blast
  moreover have "lookup_item ?c k = Inr d"
    using search_found [OF h(1) _ h(2)] h(3) added_item_fields(2) [OF e(2)] by (simp add: lookup_item_def)
  moreover have "allocated ?c k' = allocated c k' \<and> lookup_item ?c k' = lookup_item c k'" if "k' \<noteq> k" for k'
    using lookup_cong [OF assms(1) h(1)] h(4,5) [OF that] by (simp add: allocated_def)
  ultimately show ?thesis using h(1) unfolding store_inv_def by blast
qed

interpretation rt: guid_store store_inv allocated "store_add rank" lookup_item for rank
proof
  fix n and c :: "'o chain" and k v
  assume "store_inv (Suc n) c" "\<not> allocated c k"
  then show "\<exists>c'. store_add rank k v c = Inr c' \<and> store_inv n c' \<and> allocated c' k \<and>
      lookup_item c' k = Inr (Some v) \<and>
      (\<forall>k'. k' \<noteq> k \<longrightarrow> allocated c' k' = allocated c k' \<and> lookup_item c' k' = lookup_item c k')"
    using add_item_race_absent [of c n k "Some v" rank False False]
    by (auto simp: store_inv_def store_add_def)
qed

primrec store_add_all :: "u32 \<Rightarrow> (arts_guid_t \<times> nat) list \<Rightarrow> 'o chain \<Rightarrow> 'o chain res" where
  "store_add_all rank [] c = Inr c"
| "store_add_all rank (x # xs) c = rbind (store_add rank (fst x) (snd x) c) (store_add_all rank xs)"

lemma store_add_all_eq: "store_add_all rank xs (c :: 'o chain) = rt.ins_all rank xs c"
proof (induction xs arbitrary: c)
  case (Cons x xs)
  have "store_add_all rank xs = (rt.ins_all rank xs :: 'o chain \<Rightarrow> _)" by (rule ext) (rule Cons.IH)
  then show ?case by simp
qed simp

section \<open>Which table a GUID belongs to\<close>

lemma init_window:
  fixes s0 :: guid_state
  assumes "cluster_cfg cfg" "n < nranks cfg" "0 < m"
  defines "s \<equiv> fold (\<lambda>t. arts_guid_key_generator_init (node_of cfg n) (worker t)) [0..<m] s0"
  shows "unat (min_global_guid_thread s) = ntables cfg * n"
    "unat (max_global_guid_thread s) = ntables cfg * n + nworkers cfg"
proof -
  obtain m' where m: "m = Suc m'" using assms(3) by (cases m) auto
  have w1: "unat (worker_thread_count cfg + 1) = nworkers cfg + 1"
    using assms(1) by (subst unat_add_lt) (simp_all add: cluster_cfg_def)
  have r: "unat (of_nat n :: u32) = n" using assms by (intro unat_of_nat_lt) (simp add: cluster_cfg_def)
  let ?nt = "(if arts_global_rank_count cfg = 1 then ucast (worker_thread_count cfg)
      else ucast (worker_thread_count cfg + 1)) :: u64"
  have nt: "unat ?nt = ntables cfg" by (simp add: ntables_def unat_ucast_up w1)
  have nr: "unat (ucast (of_nat n :: u32) :: u64) = n" by (simp add: unat_ucast_up r)
  have "ntables cfg \<le> 2 ^ 32" "n \<le> 2 ^ 16" using assms(1,2) by (auto simp: ntables_def cluster_cfg_def)
  then have b: "ntables cfg * n \<le> 2 ^ 32 * 2 ^ 16" by (intro mult_le_mono) auto
  have mn: "unat (?nt * ucast (of_nat n :: u32)) = ntables cfg * n"
    using b by (subst unat_mult_lt) (simp_all add: nt nr)
  have mx: "unat (?nt * ucast (of_nat n :: u32) + ?nt) = ntables cfg * n + ntables cfg"
    using b \<open>ntables cfg \<le> 2 ^ 32\<close> by (subst unat_add_lt) (simp_all only: mn nt, simp)
  show "unat (min_global_guid_thread s) = ntables cfg * n"
    using mn by (simp add: s_def m arts_guid_key_generator_init_def node_of_def Let_def split: if_splits)
  have "unat (?nt * ucast (of_nat n :: u32) + ?nt - (if arts_global_rank_count cfg = 1 then 0 else 1)) =
      ntables cfg * n + nworkers cfg"
    by (subst unat_sub_le) (use mx in \<open>auto simp: ntables_def\<close>)
  then show "unat (max_global_guid_thread s) = ntables cfg * n + nworkers cfg"
    by (simp add: s_def m arts_guid_key_generator_init_def node_of_def Let_def split: if_splits)
qed

definition window_ok :: "node_cfg \<Rightarrow> nat \<Rightarrow> guid_state \<Rightarrow> bool" where
  "window_ok cfg n s \<longleftrightarrow>
     unat (min_global_guid_thread s) = ntables cfg * n \<and>
     unat (max_global_guid_thread s) = ntables cfg * n + nworkers cfg"

lemma switch_window:
  "set_guid_generator_after_parallel_start c s = Inr s' \<Longrightarrow> window_ok cfg n s' = window_ok cfg n s"
  by (auto simp: set_guid_generator_after_parallel_start_def window_ok_def Let_def split: if_splits)

lemma started_window:
  assumes "cluster_cfg cfg" "0 < nworkers cfg" "started_cluster cfg on cl" "n < nranks cfg"
  shows "window_ok cfg n (cl n)"
proof -
  have "started_node (node_of cfg n) on = Inr (cl n)" using assms(3,4) by (simp add: started_cluster_def)
  then have "set_guid_generator_after_parallel_start (node_of cfg n)
      (fold (\<lambda>t. arts_guid_key_generator_init (node_of cfg n) (worker t))
         [0..<nworkers cfg] (guid_state_init\<lparr>global_guid_on := on\<rparr>)) = Inr (cl n)" (is "set_guid_generator_after_parallel_start _ ?s = _")
    by (simp add: started_node_def node_of_def)
  then have "window_ok cfg n (cl n) = window_ok cfg n ?s" by (rule switch_window)
  then show ?thesis using init_window [OF assms(1,4,2)] by (simp add: window_ok_def)
qed

lemma create_window:
  "arts_guid_create_for_rank_internal th r ty c s = Inr (s', g) \<Longrightarrow> window_ok cfg n s' = window_ok cfg n s"
  by (auto simp: arts_guid_create_for_rank_internal_def window_ok_def Let_def split: if_splits option.splits)

lemma create_run_window:
  assumes "create_run qs cl = Inr (cl', gs)"
  shows "window_ok cfg n (cl' n) = window_ok cfg n (cl n)"
  using assms
proof (induction qs arbitrary: cl gs)
  case (Cons q qs)
  then obtain s g gs' where c: "create q cl = Inr (s, g)" "create_run qs (cl(req_node q := s)) = Inr (cl', gs')" by auto
  show ?case using Cons.IH [OF c(2)] create_window [OF c(1)] by (cases "n = req_node q") simp_all
qed simp

lemma create_run_keeps_ok:
  assumes "cluster_cfg cfg" "cluster_ok cfg K cl" "\<forall>q\<in>set qs. req_ok cfg q" "create_run qs cl = Inr (cl', gs)"
  shows "cluster_ok cfg K cl'"
  using assms(2-)
proof (induction qs arbitrary: cl gs)
  case (Cons q qs)
  then obtain s g gs' where c: "create q cl = Inr (s, g)" "create_run qs (cl(req_node q := s)) = Inr (cl', gs')" by auto
  have "req_ok cfg q" using Cons.prems(2) by simp
  from create_step(1) [OF assms(1) Cons.prems(1) this c(1)] show ?case
    using Cons.IH [OF _ _ c(2)] Cons.prems(2) by (simp del: fun_upd_apply)
qed simp

lemma window_test:
  fixes a b t N W :: nat
  assumes "t < W" "W \<le> N"
  shows "N * a \<le> N * b + t \<and> N * b + t < N * a + W \<longleftrightarrow> a = b"
proof -
  have "N * (x + 1) \<le> N * y" if "x < y" for x y :: nat using that by (intro mult_le_mono) auto
  then show ?thesis using assms by (cases a b rule: linorder_cases) (fastforce simp: algebra_simps)+
qed

lemma issued_block:
  assumes "req_ok cfg q" "unat K * ((nworkers cfg + 1) * nranks cfg) \<le> 2 ^ 40"
    "issued cfg (unat K) q v g" "x \<in> guid_range g (req_count q)"
  shows "unat (ARTS_GUID_GET_KEY x) div unat K = gid cfg (req_node q) (req_thread q)" "0 < unat K"
proof -
  let ?a = "gid cfg (req_node q) (req_thread q)"
  obtain k where k: "k < unat K" "k + unat K * ?a < 2 ^ 40"
    "x = ARTS_GUID_MAKE (ucast (type_code (req_type q))) (ucast (req_route q)) (of_nat (k + unat K * ?a))"
    using issued_elem [OF assms] by blast
  have "unat (of_nat (k + unat K * ?a) :: u64) = k + unat K * ?a" using k(2) by (intro unat_of_nat_lt) simp
  then have "unat (ARTS_GUID_GET_KEY x) = k + unat K * ?a"
    using k(2,3) guid_range_keys [of "k + unat K * ?a" 1 x] by (force simp: guid_range_def)
  then show "unat (ARTS_GUID_GET_KEY x) div unat K = ?a" "0 < unat K" using k(1) by simp_all
qed

lemma route_table_of_block:
  assumes "window_ok cfg m s" "unat (keys_per_thread s) = K" "0 < K"
    "unat (ARTS_GUID_GET_KEY x) div K = gid cfg n t" "t < nworkers cfg"
  shows "arts_get_route_table s x = (if m = n then Some t else None)"
proof -
  let ?g = "ARTS_GUID_GET_KEY x div keys_per_thread s"
  have g: "unat ?g = ntables cfg * n + t" using assms(2,4) by (simp add: unat_div gid_def)
  have nz: "keys_per_thread s \<noteq> 0" using assms(2,3) by auto
  have "nworkers cfg \<le> ntables cfg" by (simp add: ntables_def)
  note w = window_test [OF assms(5) this, of m n]
  have "min_global_guid_thread s \<le> ?g \<and> ?g < max_global_guid_thread s \<longleftrightarrow> m = n"
    using w assms(1) unfolding word_le_nat_alt word_less_nat_alt g window_ok_def by simp
  moreover have "unat (?g - min_global_guid_thread s) = t" if "m = n"
    using that g assms(1) by (subst unat_sub_le) (simp_all add: window_ok_def)
  ultimately show ?thesis using nz by (auto simp: arts_get_route_table_def Let_def)
qed

section \<open>Properties\<close>

text \<open>
  C29.  The search of a chain never leaves a table's slots.  It returns a slot of the
  key's bucket that holds the key in the wanted state, and reports nothing only if no
  table of the chain has such a slot.
\<close>

theorem route_table_search_in_bounds:
  assumes "\<forall>t\<in>set c. table_ok t"
  shows "\<exists>r. arts_route_table_search_for_key c k st = Inr r \<and>
    (case r of
       Some p \<Rightarrow> fst p < length c \<and> snd p < length (tdata (c ! fst p)) \<and>
                 key (item_at c p) = k \<and> check_item_state (item_at c p) st
     | None \<Rightarrow> \<forall>p. in_bucket c k p \<and> key (item_at c p) = k \<longrightarrow> \<not> check_item_state (item_at c p) st)"
proof -
  obtain r where "search_from 0 c k st = Inr r"
    "case r of Some p \<Rightarrow> 0 \<le> fst p \<and> holds c st k (fst p - 0, snd p) | None \<Rightarrow> \<forall>p. \<not> holds c st k p"
    using search_from_spec [OF assms] by blast
  then show ?thesis using in_bucket_loc [OF assms, of k]
    by (cases r) (auto simp: arts_route_table_search_for_key_def holds_def loc_ok_def)
qed

definition demo_table :: "nat route_table" where
  "demo_table = arts_new_route_table 2 1"

lemma demo_table_ok: "table_ok demo_table"
  by (simp add: demo_table_def table_ok_def arts_new_route_table_def)

theorem route_table_search_in_bounds_witness:
  "\<exists>r. arts_route_table_search_for_key [demo_table] 77 AVAILABLE_KEY = Inr r"
  using route_table_search_in_bounds [of "[demo_table]" 77 AVAILABLE_KEY] demo_table_ok by auto

text \<open>
  C11.  Insertion and lookup.  Inserting distinct GUIDs that are not in the chain
  succeeds, growing the chain where a bucket is full; afterwards every inserted GUID is
  found with its data, the lookup of every other GUID is unchanged, and every GUID is
  still in one slot at most.
\<close>

theorem route_table_lookup_after_insert:
  assumes "chain_ok c" "room (length xs) c" "distinct (map fst xs)" "\<forall>x\<in>set xs. \<not> allocated c (fst x)"
  shows "\<exists>c'. store_add_all rank xs c = Inr c' \<and> chain_ok c' \<and>
    (\<forall>k. lookup_item c' k = (case map_of xs k of Some d \<Rightarrow> Inr (Some d) | None \<Rightarrow> lookup_item c k))"
  using rt.ins_all_lookup [where xs = xs and n = 0 and s = c and rank = rank] assms
  by (auto simp: store_add_all_eq store_inv_def)

lemma demo_chain: "chain_ok [demo_table]" "room 2 [demo_table]" "\<not> allocated [demo_table] k"
proof -
  have e: "\<not> holds [demo_table] ALLOCATED_KEY k p" for k p
  proof
    assume h: "holds [demo_table] ALLOCATED_KEY k p"
    then have "loc_ok [demo_table] p" using in_bucket_loc [of "[demo_table]" k p] demo_table_ok
      by (auto simp: holds_def)
    then have "item_at [demo_table] p = empty_item"
      unfolding loc_ok_def item_at_def demo_table_def arts_new_route_table_def
      by (simp del: replicate.simps) (metis (no_types, lifting) nth_Cons_0 nth_replicate length_replicate route_table.select_convs(1))
    then show False using h by (simp add: holds_def)
  qed
  then show "chain_ok [demo_table]" using demo_table_ok unfolding chain_ok_def by auto
  show "\<not> allocated [demo_table] k" using e unfolding allocated_def by blast
qed (simp add: room_def demo_table_def arts_new_route_table_def)

theorem route_table_lookup_after_insert_witness:
  "\<exists>c. store_add_all 0 [(7, 100), (8, 200)] [demo_table] = Inr c \<and> lookup_item c 8 = Inr (Some 200)"
proof -
  have "room (length [(7 :: arts_guid_t, 100 :: nat), (8, 200)]) [demo_table]" using demo_chain(2) by (simp add: numeral_2_eq_2)
  from route_table_lookup_after_insert [OF demo_chain(1) this, of 0] demo_chain(3)
  obtain c where c: "store_add_all 0 [(7, 100), (8, 200)] [demo_table] = Inr c"
    "\<forall>k. lookup_item c k = (case map_of [(7, 100), (8, 200)] k of Some d \<Rightarrow> Inr (Some d) | None \<Rightarrow> lookup_item [demo_table] k)"
    by (auto simp del: store_add_all.simps map_of.simps)
  then show ?thesis by (intro exI [of _ c]) (simp del: store_add_all.simps)
qed

text \<open>
  C30.  Where a GUID lives.  A GUID that worker \<open>t\<close> of node \<open>n\<close> created is looked up in
  the route table of worker \<open>t\<close> on node \<open>n\<close>, and in the table of remote GUIDs on every
  other node, whatever rank the GUID is routed to.
\<close>

theorem guid_lives_in_creators_table:
  assumes "cluster_cfg cfg" "unat on \<le> 2 ^ 40" "started_cluster cfg on cl"
    and "\<forall>q\<in>set qs. req_ok cfg q" "create_run qs cl = Inr (cl', gs)"
    and "i < length qs" "x \<in> guid_range (gs ! i) (req_count (qs ! i))" "m < nranks cfg"
  shows "arts_get_route_table (cl' m) x =
    (if m = req_node (qs ! i) then Some (req_thread (qs ! i)) else None)"
proof -
  obtain K where ok: "cluster_ok cfg K cl" using started_cluster_ok [OF assms(1-3)] by blast
  have q: "req_ok cfg (qs ! i)" using assms(4,6) by simp
  note K = cluster_ok_bound [OF ok q]
  obtain v where v: "issued cfg (unat K) (qs ! i) v (gs ! i)"
    using create_run_issued [OF assms(1) ok assms(4,5)] assms(6) by (auto simp: list_all2_conv_all_nth)
  note b = issued_block [OF q K v assms(7)]
  have "0 < nworkers cfg" "req_thread (qs ! i) < nworkers cfg" using q by (auto simp: req_ok_def)
  then have "window_ok cfg m (cl' m)"
    using create_run_window [OF assms(5)] started_window [OF assms(1) _ assms(3,8)] by simp
  moreover have "keys_per_thread (cl' m) = K"
    using create_run_keeps_ok [OF assms(1) ok assms(4,5)] assms(8) by (simp add: cluster_ok_def node_ok_def)
  ultimately show ?thesis
    using b \<open>req_thread (qs ! i) < nworkers cfg\<close> by (intro route_table_of_block) simp_all
qed

theorem guid_lives_in_creators_table_witness:
  "\<exists>cl :: cluster. arts_get_route_table (cl 1) 432347396746947233 = Some 1 \<and> arts_get_route_table (cl 0) 432347396746947233 = None"
proof -
  obtain cl' where r: "create_run demo_reqs demo_cluster
      = Inr (cl', [432346663739195393, 432347396746947233, 432346663739195396])"
    using run_result [OF demo_run] by blast
  have "(432347396746947233 :: arts_guid_t) \<in> guid_range 432347396746947233 2"
    unfolding guid_range_def by (rule image_eqI [of _ _ 0]) simp_all
  then have "arts_get_route_table (cl' m) 432347396746947233 = (if m = 1 then Some 1 else None)" if "m < 2" for m
    using guid_lives_in_creators_table [OF demo_cfg_ok(1,2) demo_started demo_cfg_ok(3) r, of 1 432347396746947233 m] that
    by (simp add: demo_reqs_def demo_req_def demo_cfg_def)
  then show ?thesis by (intro exI [of _ cl']) simp
qed

text \<open>
  C31.  Returning the last reference of a remote copy that is to be deleted frees
  nothing.  \<^verbatim>\<open>try_mark_delete\<close> already drops the reference, so the decrement that
  follows borrows from the delete flag: the item stays available, with \<open>2 ^ 61 - 1\<close>
  references.
\<close>

theorem return_db_delete_leaks:
  assumes "chain_ok c" "holds c AVAILABLE_KEY k p" "ilock (item_at c p) = AVAILABLE_ITEM + 1"
  shows "\<exists>c'. internal_route_table_return_db c st k True True = Inr (c', st, False) \<and>
    check_item_state (item_at c' p) AVAILABLE_KEY \<and> v_count (view (ilock (item_at c' p))) = 2 ^ 61 - 1"
proof -
  let ?it = "item_at c p" and ?l = "(AVAILABLE_ITEM OR DELETE_ITEM) - 1"
  have n: "?l = 6917529027641081855" by (simp add: AVAILABLE_ITEM_def DELETE_ITEM_def)
  have v: "view ?l = \<lparr>v_res = False, v_avail = True, v_del = False, v_count = 2 ^ 61 - 1\<rparr>" "GET_COUNT ?l \<noteq> 0"
    unfolding n by (simp_all add: view_def take_bit_eq_mod)
  have l: "loc_ok c p" using assms(1,2) by (rule holds_loc)
  have "dec_item (fst (try_mark_delete ?it 1)) st = (?it\<lparr>ilock := ?l\<rparr>, st, False)"
    using assms(3) v(2) by (simp add: try_mark_delete_def dec_item_def arts_atomic_cswap_u64_def arts_atomic_sub_u64_def Let_def)
  then have "internal_route_table_return_db c st k True True = Inr (set_at c p (?it\<lparr>ilock := ?l\<rparr>), st, False)"
    using search_found [OF assms(1) _ assms(2)] by (simp add: internal_route_table_return_db_def)
  then show ?thesis using v l by (auto simp: item_set_at check_item_state_def)
qed

text \<open>
  C32.  A data block that is marked for deletion while a second reference is out is
  never freed: the mark hides the item from the search that \<^verbatim>\<open>return_db\<close> makes, so
  returning the second reference changes nothing.
\<close>

theorem deleted_item_reference_lost:
  assumes "chain_ok c" "holds c AVAILABLE_KEY k p" "v_count (view (ilock (item_at c p))) = Suc (Suc n)"
  shows "\<exists>c'. route_table_mark_delete c st k = Inr (c', st, False) \<and>
    internal_route_table_return_db c' st k m d = Inr (c', st, False) \<and>
    data (item_at c' p) = data (item_at c p) \<and> ilock (item_at c' p) \<noteq> 0"
proof -
  let ?it = "fst (mark_delete (item_at c p))"
  let ?it' = "?it\<lparr>ilock := ilock ?it - 1\<rparr>"
  have l: "loc_ok c p" using assms(1,2) by (rule holds_loc)
  have t: "\<forall>t\<in>set c. table_ok t" using assms(1) by (simp add: chain_ok_def)
  have v: "v_del (iview ?it)" "v_count (iview ?it) = Suc (Suc n)" using assms(3) by (simp_all add: mark_delete_view(1))
  then have d: "dec_item ?it st = (?it', st, False)" and v': "v_del (iview ?it')" "v_count (iview ?it') = Suc n"
    using dec_item_view(1) [of ?it] dec_item_view(2) [of ?it st] by simp_all
  have f: "key ?it' = k" "data ?it' = data (item_at c p)"
    using assms(2) by (simp_all add: holds_def mark_delete_def arts_atomic_fetch_or_u64_def)
  have nz: "ilock ?it' \<noteq> 0" using v'(1) view_0 by auto
  have na: "\<not> check_item_state ?it' ALLOCATED_KEY" "\<not> check_item_state ?it' AVAILABLE_KEY"
    using v'(1) by (simp_all add: check_item_state_def Let_def)
  have ok: "chain_ok (set_at c p ?it')" using chain_ok_set_at [OF assms(1) l] na(1) by blast
  have u: "q = p" if "holds c AVAILABLE_KEY k q" for q
    using that assms(1,2) allocated_weaken [of AVAILABLE_KEY c k] unfolding chain_ok_def by blast
  have "\<not> holds (set_at c p ?it') AVAILABLE_KEY k q" for q
  proof (cases "q = p")
    case True
    then show ?thesis using na(2) holds_set_at [OF t l, of ?it' AVAILABLE_KEY k q] by simp
  next
    case False
    then show ?thesis using u [of q] holds_set_at [OF t l, of ?it' AVAILABLE_KEY k q] by (auto simp: holds_def [of c])
  qed
  then have "\<forall>q. \<not> holds (set_at c p ?it') AVAILABLE_KEY k q" by blast
  note miss = search_missing [OF ok this]
  have "route_table_mark_delete c st k = Inr (set_at c p ?it', st, False)"
    using search_found [OF assms(1) _ assms(2)] d by (simp add: route_table_mark_delete_def)
  moreover have "internal_route_table_return_db (set_at c p ?it') st k m d = Inr (set_at c p ?it', st, False)" for m d
    using miss by (simp add: internal_route_table_return_db_def)
  ultimately show ?thesis using l f nz by (auto simp: item_set_at)
qed

text \<open>A table of one item, for the witnesses.\<close>

definition demo_slot :: "u64 \<Rightarrow> nat chain" where
  "demo_slot l = set_at [demo_table] (0, bucket 7 demo_table) (empty_item\<lparr>key := 7, data := Some 9, ilock := l\<rparr>)"

lemma demo_slot_ok:
  "chain_ok (demo_slot l)"
  "check_item_state (empty_item\<lparr>ilock := l\<rparr> :: nat route_item) AVAILABLE_KEY \<Longrightarrow>
     holds (demo_slot l) AVAILABLE_KEY 7 (0, bucket 7 demo_table)"
  "ilock (item_at (demo_slot l) (0, bucket 7 demo_table)) = l"
proof -
  have b: "in_bucket [demo_table] 7 (0, bucket 7 demo_table)" by (simp add: in_bucket_def)
  have t: "\<forall>t\<in>set [demo_table]. table_ok t" using demo_table_ok by simp
  note l = in_bucket_loc [OF t b]
  show "chain_ok (demo_slot l)" unfolding demo_slot_def
    using demo_chain(3) by (intro chain_ok_set_at [OF demo_chain(1) l]) (auto simp: allocated_def)
  show "holds (demo_slot l) AVAILABLE_KEY 7 (0, bucket 7 demo_table)"
    if "check_item_state (empty_item\<lparr>ilock := l\<rparr> :: nat route_item) AVAILABLE_KEY"
    using that b by (simp add: demo_slot_def holds_set_at [OF t l] check_item_state_def Let_def)
  show "ilock (item_at (demo_slot l) (0, bucket 7 demo_table)) = l"
    using l by (simp add: demo_slot_def item_set_at)
qed

theorem return_db_delete_leaks_witness:
  "\<exists>c'. internal_route_table_return_db (demo_slot (AVAILABLE_ITEM + 1)) demo_store 7 True True = Inr (c', demo_store, False) \<and>
     check_item_state (item_at c' (0, bucket 7 demo_table)) AVAILABLE_KEY"
proof -
  have "check_item_state (empty_item\<lparr>ilock := AVAILABLE_ITEM + 1\<rparr> :: nat route_item) AVAILABLE_KEY" by code_simp
  from return_db_delete_leaks [OF demo_slot_ok(1) demo_slot_ok(2) [OF this] demo_slot_ok(3), of demo_store]
  show ?thesis by blast
qed

theorem deleted_item_reference_lost_witness:
  "\<exists>c'. route_table_mark_delete (demo_slot (AVAILABLE_ITEM + 2)) demo_store 7 = Inr (c', demo_store, False) \<and>
     internal_route_table_return_db c' demo_store 7 False False = Inr (c', demo_store, False) \<and>
     ilock (item_at c' (0, bucket 7 demo_table)) \<noteq> 0"
proof -
  have a: "check_item_state (empty_item\<lparr>ilock := AVAILABLE_ITEM + 2\<rparr> :: nat route_item) AVAILABLE_KEY" by code_simp
  have "v_count (view (AVAILABLE_ITEM + 2)) = Suc (Suc 0)" by code_simp
  then have "v_count (view (ilock (item_at (demo_slot (AVAILABLE_ITEM + 2)) (0, bucket 7 demo_table)))) = Suc (Suc 0)"
    by (simp only: demo_slot_ok(3))
  from deleted_item_reference_lost [OF demo_slot_ok(1) demo_slot_ok(2) [OF a] this, of demo_store False False]
  show ?thesis by blast
qed

end
