(* ===== verification/Event.thy ===== *)
theory Event
  imports Guid Atomics
begin

text \<open>
  Events of \<^verbatim>\<open>sync/event.c\<close>: latches with a list of dependents, and channel events
  with a queue of versions.  A node keeps the events its route table holds as available;
  calls into other components (signals to EDTs, messages, parked operations, callbacks)
  are recorded in order as effects.  A fire that satisfies other events runs them as
  nested calls, so the functions that fire take a bound on the nesting.
\<close>

section \<open>Data\<close>

datatype arts_event_types_t =
    ARTS_EVENT_LATCH | ARTS_EVENT_ONCE | ARTS_EVENT_STICKY | ARTS_EVENT_IDEM
  | ARTS_EVENT_COUNTED | ARTS_EVENT_CHANNEL

datatype arts_db_access_mode_t =
    DB_MODE_NULL | DB_MODE_RO | DB_MODE_EW | DB_MODE_RW | DB_MODE_VALUE | DB_MODE_PTR
  | DB_MODE_LC_SYNC | DB_MODE_LC_NO_COPY | DB_MODE_MEMSET

abbreviation ARTS_EVENT_LATCH_DECR_SLOT :: u32 where "ARTS_EVENT_LATCH_DECR_SLOT \<equiv> 0"
abbreviation ARTS_EVENT_LATCH_INCR_SLOT :: u32 where "ARTS_EVENT_LATCH_INCR_SLOT \<equiv> 1"
abbreviation ARTS_EVENT_UPDATE :: u32 where "ARTS_EVENT_UPDATE \<equiv> 2"
abbreviation INITIAL_DEPENDENT_SIZE :: nat where "INITIAL_DEPENDENT_SIZE \<equiv> 4"

record dependent =
  dtype :: arts_type_t
  dslot :: u32
  daddr :: arts_guid_t
  dcallback :: nat
  done_writing :: bool
  dmode :: arts_db_access_mode_t
  byte_offset :: u64
  dsize :: u64

text \<open>A dependent list is the list of its nodes; the size of a node is its length.\<close>

type_synonym dependent_list = "dependent list list"

record event_version =
  version :: u32
  vlatch_count :: u32
  vdependent_count :: u32
  vdata :: arts_guid_t
  vdependent :: dependent_list

record event =
  fired :: bool
  etype :: arts_event_types_t
  elock :: u32
  latch_count :: u32
  epos :: u32
  dependent_count :: u32
  edata :: arts_guid_t
  versions :: "event_version list option"
  edependent :: dependent_list

datatype effect =
    Signal_Edt arts_guid_t u32 arts_guid_t arts_db_access_mode_t u32
  | Signal_Edt_Ptr arts_guid_t u32 arts_guid_t u64 u64
  | Call_Back nat arts_guid_t
  | Set_Dep_Metadata arts_guid_t u32 arts_db_access_mode_t u32 u64 u64
  | Remote_Satisfy arts_guid_t arts_guid_t u32
  | Oo_Satisfy arts_guid_t arts_guid_t arts_guid_t u32 bool
  | Remote_Add_Dep arts_guid_t arts_guid_t u32 u32 arts_db_access_mode_t u32
  | Oo_Add_Dep arts_guid_t arts_guid_t u32 arts_db_access_mode_t u32 arts_guid_t
  | Remote_Event_Move u32 arts_guid_t event
  | Fire_Oo arts_guid_t

text \<open>
  A node: its configuration, the events it holds, the GUID generator, the data blocks
  that are available on it, and the effects so far.
\<close>

record event_node =
  cfg :: node_cfg
  events :: "arts_guid_t \<Rightarrow> event option"
  guids :: guid_state
  db_here :: "arts_guid_t \<Rightarrow> bool"
  effects :: "effect list"

definition emit :: "effect \<Rightarrow> event_node \<Rightarrow> event_node" where
  "emit x st = st\<lparr>effects := effects st @ [x]\<rparr>"

definition put_event :: "arts_guid_t \<Rightarrow> event \<Rightarrow> event_node \<Rightarrow> event_node" where
  "put_event g e st = st\<lparr>events := (events st)(g := Some e)\<rparr>"

definition remove_event :: "arts_guid_t \<Rightarrow> event_node \<Rightarrow> event_node" where
  "remove_event g st = st\<lparr>events := (events st)(g := None)\<rparr>"

section \<open>Dependent lists\<close>

definition no_dependent :: dependent where
  "no_dependent = \<lparr>dtype = ARTS_NULL, dslot = 0, daddr = 0, dcallback = 0, done_writing = False,
     dmode = DB_MODE_NULL, byte_offset = 0, dsize = 0\<rparr>"

definition new_dependents :: dependent_list where
  "new_dependents = [replicate INITIAL_DEPENDENT_SIZE no_dependent]"

text \<open>The node and index of a position; a node of twice the size is appended at the end.\<close>

fun arts_dependent_get :: "dependent_list \<Rightarrow> nat \<Rightarrow> (dependent_list \<times> nat \<times> nat) res" where
  "arts_dependent_get [] pos = Inl Null_Deref"
| "arts_dependent_get (c # cs) pos =
     (if length c \<le> pos then
        if cs = [] then
          (if pos = length c \<and> c \<noteq> []
           then Inr ([c, replicate (2 * length c) no_dependent], 1, 0)
           else Inl Spins_Forever)
        else rbind (arts_dependent_get cs (pos - length c)) (\<lambda>(cs', i, j). Inr (c # cs', Suc i, j))
      else Inr (c # cs, 0, pos))"

definition write_dependent :: "dependent_list \<Rightarrow> nat \<Rightarrow> dependent \<Rightarrow> dependent_list res" where
  "write_dependent cs pos d =
     rbind (arts_dependent_get cs pos) (\<lambda>(cs', i, j).
       Inr (cs'[i := (cs' ! i)[j := d\<lparr>done_writing := True\<rparr>]]))"

text \<open>
  The dependents a fire loop visits: the first \<open>n\<close> of the list, each fully written.
\<close>

fun written_dependents :: "nat \<Rightarrow> dependent_list \<Rightarrow> dependent list res" where
  "written_dependents n [] = (if n = 0 then Inr [] else Inl Spins_Forever)"
| "written_dependents n (c # cs) =
     (if n = 0 then Inr []
      else if list_all done_writing (take n c)
      then rbind (written_dependents (n - length c) cs) (\<lambda>ds. Inr (take n c @ ds))
      else Inl Spins_Forever)"

section \<open>Channel versions\<close>

definition new_version :: "event \<Rightarrow> u32 \<Rightarrow> event_version" where
  "new_version e n =
     \<lparr>version = n, vlatch_count = 0, vdependent_count = 0, vdata = edata e, vdependent = new_dependents\<rparr>"

definition channel_get_versions :: "event \<Rightarrow> event \<times> event_version list" where
  "channel_get_versions e =
     (case versions e of
        Some vs \<Rightarrow> (e, vs)
      | None \<Rightarrow> let vs = [new_version e 0] in (e\<lparr>versions := Some vs\<rparr>, vs))"

text \<open>The pushed version is the last of the list.\<close>

definition channel_push_version :: "event \<Rightarrow> event" where
  "channel_push_version e =
     (case channel_get_versions e of
        (e, vs) \<Rightarrow>
          let n = (if vs = [] then 0 else version (last vs) + 1)
          in e\<lparr>versions := Some (vs @ [new_version e n])\<rparr>)"

definition channel_free_version :: "event \<Rightarrow> event \<times> bool" where
  "channel_free_version e =
     (case versions e of
        None \<Rightarrow> (e, True)
      | Some [] \<Rightarrow> (e, True)
      | Some [v] \<Rightarrow>
          (e\<lparr>versions := Some [v\<lparr>vlatch_count := 0, vdependent_count := 0, vdata := edata e,
                                vdependent := take 1 (vdependent v)\<rparr>]\<rparr>, True)
      | Some (v # vs) \<Rightarrow> (e\<lparr>versions := Some vs\<rparr>, False))"

definition set_version :: "nat \<Rightarrow> event_version \<Rightarrow> event \<Rightarrow> event" where
  "set_version i v e = e\<lparr>versions := map_option (\<lambda>vs. vs[i := v]) (versions e)\<rparr>"

definition get_version :: "nat \<Rightarrow> event \<Rightarrow> event_version option" where
  "get_version i e =
     (case versions e of Some vs \<Rightarrow> if i < length vs then Some (vs ! i) else None | None \<Rightarrow> None)"

definition last_version :: "event \<Rightarrow> nat" where
  "last_version e = (case versions e of Some vs \<Rightarrow> length vs - 1 | None \<Rightarrow> 0)"

section \<open>Firing\<close>

text \<open>\<open>sat\<close> is the nested call of \<^verbatim>\<open>arts_event_satisfy_slot\<close>: event, data, slot.\<close>

type_synonym satisfier = "event_node \<Rightarrow> arts_guid_t \<Rightarrow> arts_guid_t \<Rightarrow> u32 \<Rightarrow> event_node res"

definition channel_deliver :: "satisfier \<Rightarrow> arts_guid_t \<Rightarrow> dependent \<Rightarrow> event_node \<Rightarrow> event_node res" where
  "channel_deliver sat dat d st =
     (case dtype d of
        ARTS_EDT \<Rightarrow>
          if dat \<noteq> NULL_GUID then
            if byte_offset d \<noteq> 0 \<or> dsize d \<noteq> 0 then
              if db_here st dat
              then Inr (emit (Signal_Edt_Ptr (daddr d) (dslot d) dat (byte_offset d) (dsize d)) st)
              else Inr st
            else Inr (emit (Signal_Edt (daddr d) (dslot d) dat DB_MODE_NULL 0) st)
          else Inr st
      | ARTS_EVENT \<Rightarrow> sat st (daddr d) dat (dslot d)
      | ARTS_CALLBACK \<Rightarrow> Inr (emit (Call_Back (dcallback d) dat) st)
      | _ \<Rightarrow> Inr st)"

text \<open>
  \<^verbatim>\<open>channel_fire_dependents\<close> on version \<open>i\<close>; the event is locked and stays as it is while
  its dependents run.
\<close>

definition channel_fire_dependents ::
    "satisfier \<Rightarrow> arts_guid_t \<Rightarrow> event \<Rightarrow> nat \<Rightarrow> event_node \<Rightarrow> (event \<times> event_node) res" where
  "channel_fire_dependents sat g e i st =
     (case get_version i e of
        None \<Rightarrow> Inl Null_Deref
      | Some v \<Rightarrow>
          rbind (written_dependents (unat (vdependent_count v)) (vdependent v)) (\<lambda>ds.
            rbind (each (channel_deliver sat (vdata v)) ds (put_event g e st)) (\<lambda>st'.
              case events st' g of
                None \<Rightarrow> Inl Null_Deref
              | Some e' \<Rightarrow> Inr (fst (channel_free_version e'), st'))))"

text \<open>
  What a satisfaction does to the versions: the event, the version it acted on and the
  value of that version's latch.
\<close>

definition channel_count :: "event \<Rightarrow> event_version \<Rightarrow> u32 \<Rightarrow> arts_guid_t \<Rightarrow> (event \<times> nat \<times> u32) res" where
  "channel_count e front slot dat =
     (if slot = ARTS_EVENT_LATCH_INCR_SLOT then
        let (e, i) = (if vlatch_count front = 1
                      then (channel_push_version e, last_version (channel_push_version e)) else (e, 0));
            v = the (get_version i e);
            (c, r) = arts_atomic_add (vlatch_count v) 1
        in Inr (set_version i (v\<lparr>vlatch_count := c\<rparr>) e, i, r)
      else if slot = ARTS_EVENT_LATCH_DECR_SLOT then
        let (e, i) = (if vlatch_count front = - 1
                      then (channel_push_version e, last_version (channel_push_version e)) else (e, 0));
            v = the (get_version i e);
            v = (if dat \<noteq> NULL_GUID then v\<lparr>vdata := dat\<rparr> else v);
            (c, r) = arts_atomic_sub (vlatch_count v) 1
        in Inr (set_version i (v\<lparr>vlatch_count := c\<rparr>) e, i, r)
      else if slot = ARTS_EVENT_UPDATE then Inr (e, 0, vlatch_count front)
      else Inl ARTS_ERROR)"

text \<open>The fire, if the latch is zero, and the release of the lock.\<close>

definition channel_finish ::
    "satisfier \<Rightarrow> arts_guid_t \<Rightarrow> event \<Rightarrow> nat \<Rightarrow> u32 \<Rightarrow> event_node \<Rightarrow> event_node res" where
  "channel_finish sat g e i r st =
     rbind (if r = 0 then channel_fire_dependents sat g e i st else Inr (e, st)) (\<lambda>(e, st).
       Inr (put_event g (e\<lparr>elock := arts_unlock (elock e)\<rparr>) st))"

definition channel_satisfy_slot ::
    "satisfier \<Rightarrow> arts_guid_t \<Rightarrow> event \<Rightarrow> u32 \<Rightarrow> arts_guid_t \<Rightarrow> event_node \<Rightarrow> event_node res" where
  "channel_satisfy_slot sat g e slot dat st =
     rbind (arts_lock (elock e)) (\<lambda>l.
       let e = fst (channel_get_versions (e\<lparr>elock := l\<rparr>)) in
       case get_version 0 e of
         None \<Rightarrow> Inl Assert_Failed
       | Some front \<Rightarrow>
           rbind (channel_count e front slot dat) (\<lambda>(e, i, r). channel_finish sat g e i r st))"

definition deliver :: "satisfier \<Rightarrow> arts_guid_t \<Rightarrow> dependent \<Rightarrow> event_node \<Rightarrow> event_node res" where
  "deliver sat dat d st =
     (case dtype d of
        ARTS_EDT \<Rightarrow> Inr (emit (Signal_Edt (daddr d) (dslot d) dat DB_MODE_NULL 0) st)
      | ARTS_EVENT \<Rightarrow> sat st (daddr d) dat (dslot d)
      | ARTS_CALLBACK \<Rightarrow> Inr (emit (Call_Back (dcallback d) dat) st)
      | _ \<Rightarrow> Inr st)"

definition auto_destroy :: "arts_event_types_t \<Rightarrow> bool" where
  "auto_destroy t \<longleftrightarrow> t = ARTS_EVENT_LATCH \<or> t = ARTS_EVENT_ONCE \<or> t = ARTS_EVENT_COUNTED"

text \<open>The latch reached zero: \<open>e\<close> has not fired, for the caller checked.\<close>

definition fire_event :: "satisfier \<Rightarrow> arts_guid_t \<Rightarrow> event \<Rightarrow> event_node \<Rightarrow> event_node res" where
  "fire_event sat g e st =
     (let e = e\<lparr>fired := True, epos := dependent_count e + 1\<rparr> in
      rbind (written_dependents (unat (dependent_count e)) (edependent e)) (\<lambda>ds.
        rbind (each (deliver sat (edata e)) ds (put_event g e st)) (\<lambda>st'.
          Inr (if auto_destroy (etype e) then remove_event g st' else st'))))"

text \<open>
  \<open>hold\<close> is the running EDT if it has invalidations outstanding.
\<close>

primrec arts_event_satisfy_slot ::
    "nat \<Rightarrow> arts_guid_t option \<Rightarrow> event_node \<Rightarrow> arts_guid_t \<Rightarrow> arts_guid_t \<Rightarrow> u32 \<Rightarrow> event_node res" where
  "arts_event_satisfy_slot 0 hold st g dat slot = Inl Out_Of_Fuel"
| "arts_event_satisfy_slot (Suc n) hold st g dat slot =
     (case hold of
        Some edt \<Rightarrow> Inr (emit (Oo_Satisfy edt g dat slot True) st)
      | None \<Rightarrow>
          (case events st g of
             None \<Rightarrow>
               if arts_guid_get_rank g \<noteq> arts_global_rank_id (cfg st)
               then Inr (emit (Remote_Satisfy g dat slot) st)
               else Inr (emit (Oo_Satisfy g g dat slot False) st)
           | Some e \<Rightarrow>
               let sat = arts_event_satisfy_slot n hold in
               if etype e = ARTS_EVENT_CHANNEL then channel_satisfy_slot sat g e slot dat st
               else if fired e then
                 (if etype e = ARTS_EVENT_IDEM \<or> etype e = ARTS_EVENT_STICKY then Inr st
                  else Inl ARTS_ERROR)
               else if slot = ARTS_EVENT_LATCH_INCR_SLOT then
                 (if etype e = ARTS_EVENT_ONCE \<or> etype e = ARTS_EVENT_COUNTED then Inl ARTS_ERROR
                  else case arts_atomic_add (latch_count e) 1 of
                    (c, r) \<Rightarrow>
                      let e = e\<lparr>latch_count := c\<rparr>
                      in if r = 0 then fire_event sat g e st else Inr (put_event g e st))
               else if slot = ARTS_EVENT_LATCH_DECR_SLOT then
                 (case arts_atomic_sub (latch_count e) 1 of
                    (c, r) \<Rightarrow>
                      let e = e\<lparr>latch_count := c, edata := (if dat \<noteq> NULL_GUID then dat else edata e)\<rparr>
                      in if r = 0 then fire_event sat g e st else Inr (put_event g e st))
               else Inl ARTS_ERROR))"

section \<open>Creation\<close>

definition new_event :: "u32 \<Rightarrow> arts_event_types_t \<Rightarrow> arts_guid_t \<Rightarrow> event" where
  "new_event latch ty dat =
     \<lparr>fired = False, etype = ty, elock = 0, latch_count = latch, epos = 0, dependent_count = 0,
      edata = dat, versions = None, edependent = new_dependents\<rparr>"

definition arts_event_create_internal ::
    "thread_info \<Rightarrow> arts_guid_t \<Rightarrow> u32 \<Rightarrow> u32 \<Rightarrow> arts_event_types_t \<Rightarrow> arts_guid_t \<Rightarrow> event_node
      \<Rightarrow> (event_node \<times> arts_guid_t \<times> bool) res" where
  "arts_event_create_internal th guid route latch ty dat st =
     (let e = new_event latch ty dat in
      if route = arts_global_rank_id (cfg st) then
        if guid \<noteq> NULL_GUID then
          if events st guid = None then Inr (emit (Fire_Oo guid) (put_event guid e st), guid, True)
          else Inr (st, guid, False)
        else
          rbind (arts_guid_create_for_rank th route (type_code ARTS_EVENT) (guids st)) (\<lambda>(gs, g).
            Inr (put_event g e (st\<lparr>guids := gs\<rparr>), g, True))
      else Inr (emit (Remote_Event_Move route guid e) (remove_event guid st), guid, True))"

definition arts_event_create_channel_internal ::
    "thread_info \<Rightarrow> arts_guid_t \<Rightarrow> u32 \<Rightarrow> u32 \<Rightarrow> arts_guid_t \<Rightarrow> event_node
      \<Rightarrow> (event_node \<times> arts_guid_t \<times> bool) res" where
  "arts_event_create_channel_internal th guid route latch dat st =
     arts_event_create_internal th guid route latch ARTS_EVENT_CHANNEL dat st"

definition create_of_type ::
    "thread_info \<Rightarrow> arts_guid_t \<Rightarrow> u32 \<Rightarrow> arts_event_types_t \<Rightarrow> u32 \<Rightarrow> arts_guid_t \<Rightarrow> event_node
      \<Rightarrow> (event_node \<times> arts_guid_t \<times> bool) res" where
  "create_of_type th guid route ty latch dat st =
     (case ty of
        ARTS_EVENT_ONCE \<Rightarrow> arts_event_create_internal th guid route 1 ty NULL_GUID st
      | ARTS_EVENT_STICKY \<Rightarrow> arts_event_create_internal th guid route 1 ty NULL_GUID st
      | ARTS_EVENT_IDEM \<Rightarrow> arts_event_create_internal th guid route 1 ty NULL_GUID st
      | ARTS_EVENT_CHANNEL \<Rightarrow> arts_event_create_channel_internal th guid route latch dat st
      | _ \<Rightarrow> arts_event_create_internal th guid route latch ty NULL_GUID st)"

abbreviation ARTS_HINT_CURRENT_NODE :: u32 where
  "ARTS_HINT_CURRENT_NODE \<equiv> - 1"

definition arts_event_create ::
    "thread_info \<Rightarrow> u32 \<Rightarrow> arts_event_types_t \<Rightarrow> u32 \<Rightarrow> arts_guid_t \<Rightarrow> event_node
      \<Rightarrow> (event_node \<times> arts_guid_t) res" where
  "arts_event_create th route ty latch dat st =
     (let route = (if route = ARTS_HINT_CURRENT_NODE then arts_global_rank_id (cfg st) else route) in
      rbind (create_of_type th NULL_GUID route ty latch dat st) (\<lambda>(st', g, ret). Inr (st', g)))"

definition arts_event_create_with_guid ::
    "thread_info \<Rightarrow> arts_guid_t \<Rightarrow> arts_event_types_t \<Rightarrow> u32 \<Rightarrow> arts_guid_t \<Rightarrow> event_node
      \<Rightarrow> (event_node \<times> arts_guid_t) res" where
  "arts_event_create_with_guid th guid ty latch dat st =
     rbind (create_of_type th guid (arts_guid_get_rank guid) ty latch dat st) (\<lambda>(st', g, ret).
       Inr (st', if ret then g else NULL_GUID))"

definition arts_event_destroy :: "arts_guid_t \<Rightarrow> event_node \<Rightarrow> event_node" where
  "arts_event_destroy g st = (if events st g \<noteq> None then remove_event g st else st)"

definition arts_is_event_fired :: "arts_guid_t \<Rightarrow> event_node \<Rightarrow> bool" where
  "arts_is_event_fired g st = (case events st g of Some e \<Rightarrow> fired e | None \<Rightarrow> False)"

section \<open>Dependences\<close>

text \<open>Registration on a version, and the fire under the lock when its latch is zero.\<close>

definition version_add ::
    "satisfier \<Rightarrow> arts_guid_t \<Rightarrow> event \<Rightarrow> nat \<Rightarrow> dependent \<Rightarrow> event_node \<Rightarrow> event_node res" where
  "version_add sat g e i d st =
     (case get_version i e of
        None \<Rightarrow> Inl Assert_Failed
      | Some v \<Rightarrow>
          rbind (write_dependent (vdependent v) (unat (vdependent_count v)) d) (\<lambda>ds.
            let v = v\<lparr>vdependent_count := fst (arts_atomic_fetch_add (vdependent_count v) 1), vdependent := ds\<rparr>;
                e = set_version i v e
            in channel_finish sat g e i (vlatch_count v) st))"

text \<open>
  Both variants register on a channel event without looking at its type; the byte-offset
  variant also keeps the slice.
\<close>

definition channel_add_dependence ::
    "satisfier \<Rightarrow> arts_guid_t \<Rightarrow> event \<Rightarrow> dependent \<Rightarrow> event_node \<Rightarrow> event_node res" where
  "channel_add_dependence sat g e d st =
     rbind (arts_lock (elock e)) (\<lambda>l.
       let e = fst (channel_get_versions (e\<lparr>elock := l\<rparr>)) in
       case get_version 0 e of
         None \<Rightarrow> Inl Assert_Failed
       | Some front \<Rightarrow>
           if 0 < latch_count e then
             let (e, i) = (if 0 < vdependent_count front
                           then (channel_push_version e, last_version (channel_push_version e)) else (e, 0));
                 v = the (get_version i e)
             in version_add sat g (set_version i (v\<lparr>vlatch_count := fst (arts_atomic_add (vlatch_count v) 1)\<rparr>) e) i d st
           else version_add sat g e 0 d st)"

definition arts_event_add_dependence_with_mode ::
    "satisfier \<Rightarrow> arts_guid_t \<Rightarrow> arts_guid_t \<Rightarrow> u32 \<Rightarrow> arts_db_access_mode_t \<Rightarrow> event_node \<Rightarrow> event_node res" where
  "arts_event_add_dependence_with_mode sat src dst slot mode st =
     (case events st src of
        None \<Rightarrow>
          let r = arts_guid_get_rank src in
          if r \<noteq> arts_global_rank_id (cfg st) then Inr (emit (Remote_Add_Dep src dst slot r mode 0) st)
          else Inr (emit (Oo_Add_Dep src dst slot DB_MODE_NULL 0 src) st)
      | Some e \<Rightarrow>
          channel_add_dependence sat src e
            \<lparr>dtype = (if arts_guid_get_type dst = type_code ARTS_EVENT then ARTS_EVENT else ARTS_EDT),
             dslot = slot, daddr = dst, dcallback = 0, done_writing = False, dmode = mode,
             byte_offset = 0, dsize = 0\<rparr> st)"

definition arts_event_add_dependence_with_byte_offset ::
    "satisfier \<Rightarrow> arts_guid_t \<Rightarrow> arts_guid_t \<Rightarrow> u32 \<Rightarrow> arts_db_access_mode_t \<Rightarrow> u64 \<Rightarrow> u64 \<Rightarrow> event_node
      \<Rightarrow> event_node res" where
  "arts_event_add_dependence_with_byte_offset sat src dst slot mode off len st =
     (case events st src of
        None \<Rightarrow>
          let r = arts_guid_get_rank src in
          if r \<noteq> arts_global_rank_id (cfg st) then Inr (emit (Remote_Add_Dep src dst slot r mode 0) st)
          else Inr (emit (Oo_Add_Dep src dst slot DB_MODE_NULL 0 src) st)
      | Some e \<Rightarrow>
          channel_add_dependence sat src e
            \<lparr>dtype = (if arts_guid_get_type dst = type_code ARTS_EVENT then ARTS_EVENT else ARTS_EDT),
             dslot = slot, daddr = dst, dcallback = 0, done_writing = False, dmode = mode,
             byte_offset = off, dsize = len\<rparr> st)"

text \<open>
  Registration on a latch.  A dependent that comes after the fire is told by the caller;
  \<open>self\<close> is what it does then.
\<close>

definition latch_add ::
    "arts_guid_t \<Rightarrow> event \<Rightarrow> dependent \<Rightarrow> (event_node \<Rightarrow> event_node res) \<Rightarrow> event_node \<Rightarrow> event_node res" where
  "latch_add g e d self st =
     (case arts_atomic_fetch_add (dependent_count e) 1 of
        (c, position) \<Rightarrow>
          rbind (write_dependent (edependent e) (unat position) d) (\<lambda>ds.
            let e = e\<lparr>dependent_count := c, edependent := ds\<rparr>;
                st = put_event g e st
            in if fired e then
                 if epos e = 0 then Inl Spins_Forever
                 else if epos e - 1 \<le> position then self st
                 else Inr st
               else Inr st))"

definition arts_add_dependence_ex ::
    "nat \<Rightarrow> arts_guid_t option \<Rightarrow> arts_guid_t \<Rightarrow> arts_guid_t \<Rightarrow> u32 \<Rightarrow> arts_db_access_mode_t \<Rightarrow> u32
      \<Rightarrow> event_node \<Rightarrow> event_node res" where
  "arts_add_dependence_ex n hold src dst slot mode flags st =
     (let sat = arts_event_satisfy_slot n hold;
          dest_type = arts_guid_get_type dst
      in if src = NULL_GUID \<or> arts_guid_get_type src = type_code ARTS_DB then
           if dest_type = type_code ARTS_EDT then Inr (emit (Signal_Edt dst slot src mode flags) st)
           else if dest_type = type_code ARTS_EVENT then sat st dst src slot
           else Inr st
         else
           let st = (if dest_type = type_code ARTS_EDT
                     then emit (Set_Dep_Metadata dst slot mode flags 0 0) st else st)
           in case events st src of
                None \<Rightarrow>
                  let r = arts_guid_get_rank src in
                  if r \<noteq> arts_global_rank_id (cfg st) then Inr (emit (Remote_Add_Dep src dst slot r mode flags) st)
                  else Inr (emit (Oo_Add_Dep src dst slot mode flags src) st)
              | Some e \<Rightarrow>
                  if etype e = ARTS_EVENT_CHANNEL
                  then arts_event_add_dependence_with_mode sat src dst slot DB_MODE_NULL st
                  else if dest_type = type_code ARTS_EDT then
                    latch_add src e
                      \<lparr>dtype = ARTS_EDT, dslot = slot, daddr = dst, dcallback = 0, done_writing = False,
                       dmode = DB_MODE_NULL, byte_offset = 0, dsize = 0\<rparr>
                      (\<lambda>st. Inr (emit (Signal_Edt dst slot (edata e) DB_MODE_NULL 0) st)) st
                  else if dest_type = type_code ARTS_EVENT then
                    latch_add src e
                      \<lparr>dtype = ARTS_EVENT, dslot = slot, daddr = dst, dcallback = 0, done_writing = False,
                       dmode = DB_MODE_NULL, byte_offset = 0, dsize = 0\<rparr>
                      (\<lambda>st. sat st dst (edata e) slot) st
                  else Inr st)"

definition arts_add_dependence ::
    "nat \<Rightarrow> arts_guid_t option \<Rightarrow> arts_guid_t \<Rightarrow> arts_guid_t \<Rightarrow> u32 \<Rightarrow> arts_db_access_mode_t
      \<Rightarrow> event_node \<Rightarrow> event_node res" where
  "arts_add_dependence n hold src dst slot mode st = arts_add_dependence_ex n hold src dst slot mode 0 st"

abbreviation UINT_MAX :: u64 where
  "UINT_MAX \<equiv> 4294967295"

definition arts_add_dependence_at_ex ::
    "nat \<Rightarrow> arts_guid_t option \<Rightarrow> arts_guid_t \<Rightarrow> arts_guid_t \<Rightarrow> u32 \<Rightarrow> arts_db_access_mode_t \<Rightarrow> u64 \<Rightarrow> u64 \<Rightarrow> u32
      \<Rightarrow> event_node \<Rightarrow> event_node res" where
  "arts_add_dependence_at_ex n hold src dst slot mode off len flags st =
     (if off = 0 \<and> len = 0 then arts_add_dependence_ex n hold src dst slot mode flags st
      else
        let sat = arts_event_satisfy_slot n hold;
            dest_type = arts_guid_get_type dst;
            st = (if dest_type = type_code ARTS_EDT
                  then emit (Set_Dep_Metadata dst slot mode flags off len) st else st)
        in if arts_guid_get_type src = type_code ARTS_DB then
             if dest_type = type_code ARTS_EDT then
               if mode \<noteq> DB_MODE_RO then Inl ARTS_ERROR
               else if len = 0 then Inl ARTS_ERROR
               else if off > UINT_MAX \<or> len > UINT_MAX then Inl ARTS_ERROR
               else Inr (emit (Signal_Edt dst slot src DB_MODE_NULL 0) st)
             else if dest_type = type_code ARTS_EVENT then sat st dst src slot
             else Inr st
           else arts_event_add_dependence_with_byte_offset sat src dst slot DB_MODE_NULL off len st)"

definition arts_add_dependence_at ::
    "nat \<Rightarrow> arts_guid_t option \<Rightarrow> arts_guid_t \<Rightarrow> arts_guid_t \<Rightarrow> u32 \<Rightarrow> arts_db_access_mode_t \<Rightarrow> u64 \<Rightarrow> u64
      \<Rightarrow> event_node \<Rightarrow> event_node res" where
  "arts_add_dependence_at n hold src dst slot mode off len st =
     arts_add_dependence_at_ex n hold src dst slot mode off len 0 st"

definition arts_add_local_event_callback ::
    "nat \<Rightarrow> arts_guid_t option \<Rightarrow> arts_guid_t \<Rightarrow> nat \<Rightarrow> event_node \<Rightarrow> event_node res" where
  "arts_add_local_event_callback n hold src callback st =
     (let d = \<lparr>dtype = ARTS_CALLBACK, dslot = 0, daddr = NULL_GUID, dcallback = callback, done_writing = False,
               dmode = DB_MODE_NULL, byte_offset = 0, dsize = 0\<rparr>
      in case events st src of
           None \<Rightarrow> Inr st
         | Some e \<Rightarrow>
             if arts_guid_get_type src \<noteq> type_code ARTS_EVENT then Inr st
             else if etype e = ARTS_EVENT_CHANNEL then
               rbind (arts_lock (elock e)) (\<lambda>l.
                 let e = fst (channel_get_versions (e\<lparr>elock := l\<rparr>))
                 in version_add (arts_event_satisfy_slot n hold) src e (last_version e) d st)
             else
               (case arts_atomic_fetch_add (dependent_count e) 1 of
                  (c, position) \<Rightarrow>
                    rbind (write_dependent (edependent e) (unat position) d) (\<lambda>ds.
                      let e = e\<lparr>dependent_count := c, edependent := ds\<rparr>;
                          st = put_event src e st
                      in if fired e \<and> \<not> auto_destroy (etype e) then
                           if epos e = 0 then Inl Spins_Forever
                           else if epos e - 1 \<le> position
                           then Inr (emit (Call_Back callback (edata e)) st)
                           else Inr st
                         else Inr st)))"

end
