(* ===== verification/Event_Props.thy ===== *)
theory Event_Props
  imports Event
begin

text \<open>
  Correctness of the events: dependent lists keep what is registered, a latch tells each
  dependent once, a channel pairs satisfactions with consumers in order, and the nested
  calls of a fire end.
\<close>

section \<open>Dependent lists\<close>

text \<open>A list of non-empty nodes whose first slots hold \<open>ds\<close>, all written.\<close>

definition reps :: "dependent_list \<Rightarrow> dependent list \<Rightarrow> bool" where
  "reps cs ds \<longleftrightarrow>
     cs \<noteq> [] \<and> (\<forall>c\<in>set cs. c \<noteq> []) \<and> length ds \<le> length (concat cs) \<and>
     take (length ds) (concat cs) = ds \<and> list_all done_writing ds"

lemma reps_new: "reps new_dependents []"
  by (simp add: reps_def new_dependents_def)

lemma dependent_get_spec:
  assumes "cs \<noteq> []" "\<forall>c\<in>set cs. c \<noteq> []" "pos \<le> length (concat cs)"
  shows "\<exists>cs' i j ext. arts_dependent_get cs pos = Inr (cs', i, j) \<and> cs' \<noteq> [] \<and> (\<forall>c\<in>set cs'. c \<noteq> []) \<and>
    concat cs' = concat cs @ ext \<and> i < length cs' \<and> j < length (cs' ! i) \<and> pos < length (concat cs') \<and>
    (\<forall>d. concat (cs'[i := (cs' ! i)[j := d]]) = (concat cs')[pos := d])"
  using assms
proof (induction cs arbitrary: pos)
  case (Cons c cs)
  consider (here) "pos < length c" | (grow) "length c \<le> pos" "cs = []" | (more) "length c \<le> pos" "cs \<noteq> []"
    by linarith
  then show ?case
  proof cases
    case here
    then show ?thesis using Cons.prems by (intro exI [of _ "c # cs"]) (auto simp: list_update_append)
  next
    case grow
    then have "pos = length c" "c \<noteq> []" using Cons.prems by auto
    then show ?thesis using grow
      by (intro exI [of _ "[c, replicate (2 * length c) no_dependent]"]) (auto simp: list_update_append)
  next
    case more
    then have "pos - length c \<le> length (concat cs)" using Cons.prems by simp
    from Cons.IH [OF more(2) _ this] Cons.prems(2) obtain cs' i j ext where ih: "arts_dependent_get cs (pos - length c) = Inr (cs', i, j)" "cs' \<noteq> []"
      "\<forall>c\<in>set cs'. c \<noteq> []" "concat cs' = concat cs @ ext" "i < length cs'" "j < length (cs' ! i)"
      "pos - length c < length (concat cs')"
      "\<forall>d. concat (cs'[i := (cs' ! i)[j := d]]) = (concat cs')[pos - length c := d]"
      by auto
    then show ?thesis using more Cons.prems
      by (intro exI [of _ "c # cs'"] exI [of _ "Suc i"] exI [of _ j] exI [of _ ext]) (auto simp: list_update_append)
  qed
qed simp

lemma write_dependent_reps:
  assumes "reps cs ds"
  shows "\<exists>cs'. write_dependent cs (length ds) d = Inr cs' \<and> reps cs' (ds @ [d\<lparr>done_writing := True\<rparr>])"
proof -
  let ?d = "d\<lparr>done_writing := True\<rparr>"
  obtain cs' i j ext where g: "arts_dependent_get cs (length ds) = Inr (cs', i, j)" "cs' \<noteq> []"
      "\<forall>c\<in>set cs'. c \<noteq> []" "concat cs' = concat cs @ ext" "i < length cs'" "j < length (cs' ! i)"
      "length ds < length (concat cs')" "\<forall>d. concat (cs'[i := (cs' ! i)[j := d]]) = (concat cs')[length ds := d]"
    using dependent_get_spec [of cs "length ds"] assms by (auto simp: reps_def)
  let ?cs = "cs'[i := (cs' ! i)[j := ?d]]"
  have "c \<noteq> []" if "c \<in> set ?cs" for c
  proof -
    have "cs' ! i \<noteq> []" using g(6) by auto
    moreover have "c \<in> set cs' \<or> c = (cs' ! i)[j := ?d]" using that set_update_subset_insert by fastforce
    ultimately show ?thesis using g(3) by (metis list_update_nonempty)
  qed
  moreover have "take (length ds) (concat cs') = ds" using assms g(4) by (auto simp: reps_def)
  then have "take (Suc (length ds)) (concat ?cs) = ds @ [?d]"
    using g(7,8) by (simp add: take_Suc_conv_app_nth)
  ultimately have "reps ?cs (ds @ [?d])"
    using g assms by (auto simp: reps_def)
  then show ?thesis using g(1) by (simp add: write_dependent_def)
qed

lemma written_spec:
  "n \<le> length (concat cs) \<Longrightarrow> list_all done_writing (take n (concat cs)) \<Longrightarrow>
     written_dependents n cs = Inr (take n (concat cs))"
  by (induction n cs rule: written_dependents.induct) (auto simp: list_all_iff)

lemma written_reps: "reps cs ds \<Longrightarrow> written_dependents (length ds) cs = Inr ds"
  using written_spec [of "length ds" cs] by (simp add: reps_def)

section \<open>Termination of nested fires\<close>

text \<open>The events on which a call can still do work: unfired latches and unlocked channels.\<close>

definition live :: "event_node \<Rightarrow> arts_guid_t set" where
  "live st = {g. \<exists>e. events st g = Some e \<and>
     (if etype e = ARTS_EVENT_CHANNEL then elock e = 0 else \<not> fired e)}"

definition runs_out :: "'a res \<Rightarrow> bool" where
  "runs_out r \<longleftrightarrow> r = Inl Out_Of_Fuel"

definition shrinks :: "nat \<Rightarrow> satisfier \<Rightarrow> bool" where
  "shrinks n sat \<longleftrightarrow> (\<forall>st g d s. finite (live st) \<and> card (live st) < n \<longrightarrow>
     \<not> runs_out (sat st g d s) \<and> (\<forall>st'. sat st g d s = Inr st' \<longrightarrow> live st' \<subseteq> live st))"

lemma runs_out_simps [simp]:
  "\<not> runs_out (Inr x)" "runs_out (Inl e) \<longleftrightarrow> e = Out_Of_Fuel"
  "runs_out (rbind m f) \<longleftrightarrow> runs_out m \<or> (\<exists>x. m = Inr x \<and> runs_out (f x))"
  by (auto simp: runs_out_def split: sum.splits) (cases m; auto)+

lemma live_simps [simp]:
  "live (emit x st) = live st"
  "live (remove_event g st) = live st - {g}"
  "live (put_event g e st) = (if (if etype e = ARTS_EVENT_CHANNEL then elock e = 0 else \<not> fired e)
     then insert g (live st) else live st - {g})"
  by (auto simp: live_def emit_def remove_event_def put_event_def)

lemma version_fields [simp]:
  "etype (fst (channel_get_versions e)) = etype e" "elock (fst (channel_get_versions e)) = elock e"
  "etype (channel_push_version e) = etype e" "elock (channel_push_version e) = elock e"
  "etype (set_version i v e) = etype e" "elock (set_version i v e) = elock e"
  "etype (fst (channel_free_version e)) = etype e" "elock (fst (channel_free_version e)) = elock e"
  by (auto simp: channel_get_versions_def channel_push_version_def set_version_def channel_free_version_def Let_def
      split: option.splits list.splits prod.splits)

lemma written_not_out [simp]: "\<not> runs_out (written_dependents n cs)"
  by (induction n cs rule: written_dependents.induct) auto

lemma lock_not_out [simp]: "\<not> runs_out (arts_lock l)"
  by (auto simp: arts_lock_def split: prod.splits)

text \<open>\<open>tame L r st\<close>: the result does not run out, and leaves no more to do than \<open>L\<close>.\<close>

definition tame :: "event_node res \<Rightarrow> arts_guid_t set \<Rightarrow> bool" where
  "tame r L \<longleftrightarrow> \<not> runs_out r \<and> (\<forall>st'. r = Inr st' \<longrightarrow> live st' \<subseteq> L)"

lemma each_tame:
  assumes "\<And>x st. live st \<subseteq> L \<Longrightarrow> tame (f x st) (live st)" "live st \<subseteq> L"
  shows "tame (each f xs st) (live st)"
  using assms(2)
proof (induction xs arbitrary: st)
  case (Cons x xs)
  have t: "tame (f x st) (live st)" using assms(1) Cons.prems .
  have "tame (each f xs st') (live st')" if "f x st = Inr st'" for st'
    using that t Cons.prems by (intro Cons.IH) (auto simp: tame_def)
  then show ?case using t by (fastforce simp: tame_def)
qed (simp add: tame_def)

lemma shrinks_tame:
  assumes "shrinks n sat" "finite L" "card L < n" "live st \<subseteq> L"
  shows "tame (sat st g d s) (live st)"
proof -
  have "finite (live st)" "card (live st) < n"
    using assms(2-4) card_mono [OF assms(2,4)] by (auto intro: finite_subset)
  then show ?thesis using assms(1) by (simp add: shrinks_def tame_def)
qed

lemma deliver_tame:
  assumes "shrinks n sat" "finite L" "card L < n" "live st \<subseteq> L"
  shows "tame (deliver sat dat d st) (live st)" "tame (channel_deliver sat dat d st) (live st)"
  using shrinks_tame [OF assms]
  by (auto simp: deliver_def channel_deliver_def tame_def split: arts_type_t.splits)

lemma card_without: "finite L \<Longrightarrow> g \<in> L \<Longrightarrow> card L < Suc n \<Longrightarrow> card (L - {g}) < n"
  by (metis card_Suc_Diff1 Suc_less_SucD)

lemma fire_event_tame:
  assumes "shrinks n sat" "finite (live st)" "card (live st) < Suc n" "g \<in> live st" "etype e \<noteq> ARTS_EVENT_CHANNEL"
  shows "tame (fire_event sat g e st) (live st)"
proof -
  let ?L = "live st - {g}"
  have c: "finite ?L" "card ?L < n" 
    using assms(2) card_without [OF assms(2,4,3)] by blast+
  let ?e = "e\<lparr>fired := True, epos := dependent_count e + 1\<rparr>"
  have l: "live (put_event g ?e st) = ?L" using assms(5) by simp
  have "tame (each (deliver sat (edata e)) ds (put_event g ?e st)) ?L" for ds
    using each_tame [of ?L "deliver sat (edata e)" "put_event g ?e st" ds] deliver_tame(1) [OF assms(1) c] l by simp
  note t = this
  have w: "written_dependents m cs \<noteq> Inl Out_Of_Fuel" for m cs using written_not_out [of m cs] by (simp add: runs_out_def)
  show ?thesis
  proof (cases "written_dependents (unat (dependent_count e)) (edependent e)")
    case (Inl x)
    then show ?thesis using w [of "unat (dependent_count e)" "edependent e"] by (simp add: tame_def fire_event_def Let_def)
  next
    case (Inr ds)
    then show ?thesis using t [of ds]
      by (cases "each (deliver sat (edata e)) ds (put_event g ?e st)") (auto simp: tame_def fire_event_def Let_def)
  qed
qed

lemma channel_fire_tame:
  assumes "shrinks n sat" "finite (live st)" "card (live st) < Suc n" "g \<in> live st"
    "etype e = ARTS_EVENT_CHANNEL" "elock e \<noteq> 0"
  shows "\<not> runs_out (channel_fire_dependents sat g e i st)"
    "channel_fire_dependents sat g e i st = Inr (e', st') \<Longrightarrow> live st' \<subseteq> live st - {g}"
proof -
  let ?L = "live st - {g}"
  have c: "finite ?L" "card ?L < n" 
    using assms(2) card_without [OF assms(2,4,3)] by blast+
  have l: "live (put_event g e st) = ?L" using assms(5,6) by simp
  have t: "tame (each (channel_deliver sat dat) ds (put_event g e st)) ?L" for ds dat
    using each_tame [of ?L "channel_deliver sat dat" "put_event g e st" ds] deliver_tame(2) [OF assms(1) c] l by simp
  show "\<not> runs_out (channel_fire_dependents sat g e i st)"
    using t by (auto simp: tame_def channel_fire_dependents_def split: option.splits)
  assume r: "channel_fire_dependents sat g e i st = Inr (e', st')"
  then obtain v where v: "get_version i e = Some v" by (auto simp: channel_fire_dependents_def split: option.splits)
  with r obtain ds where "each (channel_deliver sat (vdata v)) ds (put_event g e st) = Inr st'"
    by (auto simp: channel_fire_dependents_def split: option.splits)
  then show "live st' \<subseteq> ?L" using t [of "vdata v" ds] by (simp add: tame_def)
qed

lemma channel_count_fields:
  "\<not> runs_out (channel_count e front slot dat)"
  "channel_count e front slot dat = Inr (e', i, r) \<Longrightarrow> etype e' = etype e \<and> elock e' = elock e"
  by (auto simp: channel_count_def Let_def split: if_splits prod.splits)

lemma channel_finish_tame:
  assumes "shrinks n sat" "finite (live st)" "card (live st) < Suc n" "g \<in> live st"
    "etype e = ARTS_EVENT_CHANNEL" "elock e \<noteq> 0"
  shows "tame (channel_finish sat g e i r st) (live st)"
  using channel_fire_tame [OF assms, of i] assms(4)
  by (auto simp: tame_def channel_finish_def arts_unlock_def split: if_splits)

lemma channel_satisfy_tame:
  assumes "shrinks n sat" "finite (live st)" "card (live st) < Suc n"
    "events st g = Some e" "etype e = ARTS_EVENT_CHANNEL"
  shows "tame (channel_satisfy_slot sat g e slot dat st) (live st)"
proof (cases "elock e = 0")
  case False
  then show ?thesis by (simp add: tame_def channel_satisfy_slot_def arts_lock_def)
next
  case True
  let ?e = "fst (channel_get_versions (e\<lparr>elock := 1\<rparr>))"
  have l: "arts_lock (elock e) = Inr 1" using True by (simp add: arts_lock_def arts_atomic_cswap_def)
  have g: "g \<in> live st" using True assms(4,5) by (simp add: live_def)
  show ?thesis
  proof (cases "get_version 0 ?e")
    case None
    then show ?thesis by (simp add: tame_def channel_satisfy_slot_def l)
  next
    case (Some front)
    note c = channel_count_fields [of ?e front slot dat]
    show ?thesis
    proof (cases "channel_count ?e front slot dat")
      case (Inl x)
      then show ?thesis using c(1) Some by (simp add: tame_def channel_satisfy_slot_def l)
    next
      case (Inr y)
      obtain e' i r where y: "y = (e', i, r)" by (cases y) auto
      then have "tame (channel_finish sat g e' i r st) (live st)"
        using c(2) Inr assms(5) by (intro channel_finish_tame [OF assms(1-3) g]) simp_all
      then show ?thesis using Some Inr y by (simp add: channel_satisfy_slot_def l)
    qed
  qed
qed

lemma satisfy_shrinks: "shrinks n (arts_event_satisfy_slot n hold)"
proof (induction n)
  case (Suc n)
  have "tame (arts_event_satisfy_slot (Suc n) hold st g d s) (live st)"
    if "finite (live st)" "card (live st) < Suc n" for st g d s
  proof (cases "\<exists>e. hold = None \<and> events st g = Some e \<and> (etype e = ARTS_EVENT_CHANNEL \<or> \<not> fired e)")
    case False
    then show ?thesis by (auto simp: tame_def split: option.splits)
  next
    case True
    then obtain e where e: "hold = None" "events st g = Some e" "etype e = ARTS_EVENT_CHANNEL \<or> \<not> fired e" by blast
    show ?thesis
    proof (cases "etype e = ARTS_EVENT_CHANNEL")
      case True
      then show ?thesis using channel_satisfy_tame [OF Suc that e(2)] e by simp
    next
      case False
      then have "g \<in> live st" using e by (simp add: live_def)
      have f: "tame (fire_event (arts_event_satisfy_slot n hold) g e' st) (live st)"
        "tame (Inr (put_event g e' st)) (live st)" if "etype e' = etype e" "fired e' = fired e" for e'
        using that False e fire_event_tame [OF Suc \<open>finite (live st)\<close> \<open>card (live st) < Suc n\<close> \<open>g \<in> live st\<close>, of e']
          \<open>g \<in> live st\<close>
        by (auto simp: tame_def)
      have "tame (Inl ARTS_ERROR) (live st)" by (simp add: tame_def)
      then show ?thesis using False e f by (auto simp: Let_def split: prod.splits)
    qed
  qed
  then show ?case by (auto simp: shrinks_def tame_def simp del: arts_event_satisfy_slot.simps)
qed (simp add: shrinks_def)

text \<open>A larger bound does not change a result that did not run out.\<close>

definition agrees :: "satisfier \<Rightarrow> satisfier \<Rightarrow> bool" where
  "agrees sat sat' \<longleftrightarrow> (\<forall>st g d s. \<not> runs_out (sat st g d s) \<longrightarrow> sat' st g d s = sat st g d s)"

lemma each_agrees:
  assumes "\<And>x st. \<not> runs_out (f x st) \<Longrightarrow> f' x st = f x st"
  shows "\<not> runs_out (each f xs st) \<Longrightarrow> each f' xs st = each f xs st"
proof (induction xs arbitrary: st)
  case (Cons x xs)
  then have "f' x st = f x st" by (intro assms) simp
  then show ?case using Cons by (cases "f x st") auto
qed simp

lemma deliver_agrees:
  assumes "agrees sat sat'"
  shows "\<not> runs_out (deliver sat dat d st) \<Longrightarrow> deliver sat' dat d st = deliver sat dat d st"
    "\<not> runs_out (channel_deliver sat dat d st) \<Longrightarrow> channel_deliver sat' dat d st = channel_deliver sat dat d st"
  using assms by (auto simp: deliver_def channel_deliver_def agrees_def split: arts_type_t.splits)

lemma fire_agrees:
  assumes "agrees sat sat'"
  shows "\<not> runs_out (fire_event sat g e st) \<Longrightarrow> fire_event sat' g e st = fire_event sat g e st"
    "\<not> runs_out (channel_fire_dependents sat g e i st) \<Longrightarrow>
       channel_fire_dependents sat' g e i st = channel_fire_dependents sat g e i st"
proof -
  note d = each_agrees [where f = "deliver sat dat" and f' = "deliver sat' dat" for dat, OF deliver_agrees(1) [OF assms]]
  note c = each_agrees [where f = "channel_deliver sat dat" and f' = "channel_deliver sat' dat" for dat, OF deliver_agrees(2) [OF assms]]
  show "fire_event sat' g e st = fire_event sat g e st" if "\<not> runs_out (fire_event sat g e st)"
    using that d unfolding fire_event_def Let_def
    by (cases "written_dependents (unat (dependent_count e)) (edependent e)") simp_all
  show "channel_fire_dependents sat' g e i st = channel_fire_dependents sat g e i st"
    if "\<not> runs_out (channel_fire_dependents sat g e i st)"
  proof (cases "get_version i e")
    case (Some v)
    then show ?thesis using that c
      by (cases "written_dependents (unat (vdependent_count v)) (vdependent v)") (simp_all add: channel_fire_dependents_def)
  qed (simp add: channel_fire_dependents_def)
qed

lemma channel_agrees:
  assumes "agrees sat sat'" "\<not> runs_out (channel_satisfy_slot sat g e slot dat st)"
  shows "channel_satisfy_slot sat' g e slot dat st = channel_satisfy_slot sat g e slot dat st"
proof -
  have f: "\<not> runs_out (channel_finish sat g e i r st) \<Longrightarrow> channel_finish sat' g e i r st = channel_finish sat g e i r st" for e i r
    using fire_agrees(2) [OF assms(1)] by (auto simp: channel_finish_def)
  show ?thesis
  proof (cases "arts_lock (elock e)")
    case (Inr l)
    let ?e = "fst (channel_get_versions (e\<lparr>elock := l\<rparr>))"
    show ?thesis
    proof (cases "get_version 0 ?e")
      case (Some front)
      then show ?thesis using Inr assms(2) f
        by (cases "channel_count ?e front slot dat") (auto simp: channel_satisfy_slot_def)
    qed (simp add: channel_satisfy_slot_def Inr)
  qed (simp add: channel_satisfy_slot_def)
qed

lemma satisfy_agrees: "agrees (arts_event_satisfy_slot n hold) (arts_event_satisfy_slot (Suc n) hold)"
proof (induction n)
  case (Suc n)
  note f = fire_agrees(1) [OF Suc] and c = channel_agrees [OF Suc]
  have "arts_event_satisfy_slot (Suc (Suc n)) hold st g d s = arts_event_satisfy_slot (Suc n) hold st g d s"
    if "\<not> runs_out (arts_event_satisfy_slot (Suc n) hold st g d s)" for st g d s
  proof (cases "\<exists>e. hold = None \<and> events st g = Some e")
    case False
    then show ?thesis by (auto split: option.splits)
  next
    case True
    then obtain e where e: "hold = None" "events st g = Some e" by blast
    show ?thesis
      unfolding arts_event_satisfy_slot.simps(2) [of "Suc n"] arts_event_satisfy_slot.simps(2) [of n]
      using that e f c by (auto simp del: arts_event_satisfy_slot.simps(2) [of "Suc n"] simp: Let_def split: prod.splits)
  qed
  then show ?case unfolding agrees_def by blast
qed (simp add: agrees_def)

lemma satisfy_stable:
  assumes "\<not> runs_out (arts_event_satisfy_slot n hold st g d s)"
  shows "arts_event_satisfy_slot (n + k) hold st g d s = arts_event_satisfy_slot n hold st g d s"
proof (induction k)
  case (Suc k)
  then show ?case using assms satisfy_agrees [of "n + k" hold] by (simp add: agrees_def del: arts_event_satisfy_slot.simps)
qed simp

section \<open>Latches\<close>

text \<open>What is done to one event from outside: an EDT depends on it, or it is decremented.\<close>

datatype latch_op = Depend arts_guid_t u32 | Decrement arts_guid_t

fun latch_step :: "nat \<Rightarrow> arts_guid_t \<Rightarrow> arts_db_access_mode_t \<Rightarrow> latch_op \<Rightarrow> event_node \<Rightarrow> event_node res" where
  "latch_step n g m (Depend edt slot) st = arts_add_dependence n None g edt slot m st"
| "latch_step n g m (Decrement dat) st = arts_event_satisfy_slot n None st g dat ARTS_EVENT_LATCH_DECR_SLOT"

definition latch_run :: "nat \<Rightarrow> arts_guid_t \<Rightarrow> arts_db_access_mode_t \<Rightarrow> latch_op list \<Rightarrow> event_node \<Rightarrow> event_node res" where
  "latch_run n g m ops st = each (latch_step n g m) ops st"

fun is_signal :: "effect \<Rightarrow> bool" where
  "is_signal (Signal_Edt _ _ _ _ _) = True"
| "is_signal (Signal_Edt_Ptr _ _ _ _ _) = True"
| "is_signal _ = False"

definition signals :: "event_node \<Rightarrow> effect list" where
  "signals st = filter is_signal (effects st)"

fun waiters :: "latch_op list \<Rightarrow> (arts_guid_t \<times> u32) list" where
  "waiters [] = []"
| "waiters (Depend e s # ops) = (e, s) # waiters ops"
| "waiters (Decrement d # ops) = waiters ops"

fun payloads :: "latch_op list \<Rightarrow> arts_guid_t list" where
  "payloads [] = []"
| "payloads (Depend e s # ops) = payloads ops"
| "payloads (Decrement d # ops) = d # payloads ops"

text \<open>The last payload that is not null.\<close>

definition last_payload :: "arts_guid_t list \<Rightarrow> arts_guid_t" where
  "last_payload ds = foldl (\<lambda>a d. if d \<noteq> NULL_GUID then d else a) NULL_GUID ds"

definition told :: "arts_guid_t \<Rightarrow> arts_guid_t \<times> u32 \<Rightarrow> effect" where
  "told dat w = Signal_Edt (fst w) (snd w) dat DB_MODE_NULL 0"

definition edt_waiter :: "arts_guid_t \<times> u32 \<Rightarrow> dependent" where
  "edt_waiter w = \<lparr>dtype = ARTS_EDT, dslot = snd w, daddr = fst w, dcallback = 0, done_writing = True,
     dmode = DB_MODE_NULL, byte_offset = 0, dsize = 0\<rparr>"

lemma ops_append [simp]:
  "waiters (xs @ ys) = waiters xs @ waiters ys" "payloads (xs @ ys) = payloads xs @ payloads ys"
  by (induction xs rule: waiters.induct) simp_all

lemma ops_length: "length (waiters ops) + length (payloads ops) = length ops"
  by (induction ops rule: waiters.induct) simp_all

lemma last_payload_snoc [simp]: "last_payload (ds @ [d]) = (if d \<noteq> NULL_GUID then d else last_payload ds)"
  by (simp add: last_payload_def)

lemma node_simps [simp]:
  "events (emit x st) = events st" "effects (emit x st) = effects st @ [x]" "cfg (emit x st) = cfg st"
  "events (put_event g e st) = (events st)(g := Some e)" "effects (put_event g e st) = effects st"
  "events (remove_event g st) = (events st)(g := None)" "effects (remove_event g st) = effects st"
  by (simp_all add: emit_def put_event_def remove_event_def)

lemma signals_simps [simp]:
  "signals (emit x st) = signals st @ (if is_signal x then [x] else [])"
  "signals (put_event g e st) = signals st" "signals (remove_event g st) = signals st"
  by (simp_all add: signals_def)

lemma each_edt:
  "\<exists>st'. each (deliver sat dat) (map edt_waiter ws) st = Inr st' \<and> events st' = events st \<and>
     signals st' = signals st @ map (told dat) ws"
  by (induction ws arbitrary: st) (fastforce simp: deliver_def edt_waiter_def told_def)+

text \<open>
  The state of an event of latch \<open>L\<close> and type \<open>ty\<close> after \<open>ops\<close>, when \<open>s0\<close> was signalled
  before.
\<close>

definition latch_inv ::
    "nat \<Rightarrow> arts_event_types_t \<Rightarrow> arts_guid_t \<Rightarrow> effect list \<Rightarrow> latch_op list \<Rightarrow> event_node \<Rightarrow> bool" where
  "latch_inv L ty g s0 ops st \<longleftrightarrow>
     (if L \<le> length (payloads ops) then signals st = s0 @ map (told (last_payload (take L (payloads ops)))) (waiters ops)
      else signals st = s0) \<and>
     (if L \<le> length (payloads ops) \<and> auto_destroy ty then events st g = None
      else \<exists>e. events st g = Some e \<and> etype e = ty \<and> edata e = last_payload (take L (payloads ops)) \<and>
        reps (edependent e) (map edt_waiter (waiters ops)) \<and>
        unat (dependent_count e) = length (waiters ops) \<and>
        (if L \<le> length (payloads ops)
         then fired e \<and> epos e \<noteq> 0 \<and> unat (epos e) \<le> length (waiters ops) + 1
         else \<not> fired e \<and> unat (latch_count e) = L - length (payloads ops)))"

definition latch_guid :: "arts_guid_t \<Rightarrow> bool" where
  "latch_guid g \<longleftrightarrow> g \<noteq> NULL_GUID \<and> arts_guid_get_type g = type_code ARTS_EVENT"

fun latch_op_ok :: "latch_op \<Rightarrow> bool" where
  "latch_op_ok (Depend e s) = (arts_guid_get_type e = type_code ARTS_EDT)"
| "latch_op_ok (Decrement d) = True"

lemma reps_write_waiter:
  assumes "reps cs (map edt_waiter ws)"
  shows "\<exists>cs'. write_dependent cs (length ws)
      \<lparr>dtype = ARTS_EDT, dslot = s, daddr = e, dcallback = 0, done_writing = False,
       dmode = DB_MODE_NULL, byte_offset = 0, dsize = 0\<rparr> = Inr cs' \<and>
    reps cs' (map edt_waiter (ws @ [(e, s)]))"
  using write_dependent_reps [OF assms, of "\<lparr>dtype = ARTS_EDT, dslot = s, daddr = e, dcallback = 0, done_writing = False,
       dmode = DB_MODE_NULL, byte_offset = 0, dsize = 0\<rparr>"] by (simp add: edt_waiter_def)

lemma unat_Suc: "unat (c :: u32) < n \<Longrightarrow> n < 2 ^ 32 \<Longrightarrow> unat (c + 1) = unat c + 1"
  by (subst unat_add_lt) simp_all

lemma latch_depend:
  assumes "latch_guid g" "arts_guid_get_type x = type_code ARTS_EDT"
    "latch_inv L ty g s0 ops st" "\<not> (L \<le> length (payloads ops) \<and> auto_destroy ty)" "ty \<noteq> ARTS_EVENT_CHANNEL"
    "length (waiters ops) + 2 < 2 ^ 32"
  shows "\<exists>st'. arts_add_dependence n None g x s m st = Inr st' \<and> latch_inv L ty g s0 (ops @ [Depend x s]) st'"
proof -
  let ?D = "last_payload (take L (payloads ops))"
  obtain e where e: "events st g = Some e" "etype e = ty" "edata e = ?D"
    "reps (edependent e) (map edt_waiter (waiters ops))" "unat (dependent_count e) = length (waiters ops)"
    "if L \<le> length (payloads ops)
     then fired e \<and> epos e \<noteq> 0 \<and> unat (epos e) \<le> length (waiters ops) + 1
     else \<not> fired e \<and> unat (latch_count e) = L - length (payloads ops)"
    using assms(3,4) unfolding latch_inv_def by (auto split: if_splits)
  obtain cs where cs: "write_dependent (edependent e) (unat (dependent_count e))
      \<lparr>dtype = ARTS_EDT, dslot = s, daddr = x, dcallback = 0, done_writing = False,
       dmode = DB_MODE_NULL, byte_offset = 0, dsize = 0\<rparr> = Inr cs"
    "reps cs (map edt_waiter (waiters ops @ [(x, s)]))"
    using reps_write_waiter [OF e(4)] e(5) by auto
  have c: "unat (dependent_count e + 1) = length (waiters ops) + 1"
    using unat_Suc [of "dependent_count e" "length (waiters ops) + 1"] e(5) assms(6) by simp
  have p: "epos e - 1 \<le> dependent_count e" if "fired e"
  proof -
    have "epos e \<noteq> 0" "unat (epos e) \<le> unat (dependent_count e) + 1" using that e(5,6) by (auto split: if_splits)
    then have "unat (epos e - 1) = unat (epos e) - 1" by (intro unat_minus_one)
    then show ?thesis using \<open>unat (epos e) \<le> _\<close> by (simp add: word_le_nat_alt)
  qed
  show ?thesis
    using assms e cs c p
    by (auto simp: arts_add_dependence_def arts_add_dependence_ex_def latch_add_def latch_inv_def latch_guid_def
        arts_atomic_fetch_add_def told_def Let_def)
qed

lemma fire_latch:
  assumes "reps (edependent e) (map edt_waiter ws)" "unat (dependent_count e) = length ws"
    "etype e = ty" "ty \<noteq> ARTS_EVENT_CHANNEL"
  shows "\<exists>st'. fire_event sat g e st = Inr st' \<and> signals st' = signals st @ map (told (edata e)) ws \<and>
    events st' g = (if auto_destroy ty then None else Some (e\<lparr>fired := True, epos := dependent_count e + 1\<rparr>))"
proof -
  let ?e = "e\<lparr>fired := True, epos := dependent_count e + 1\<rparr>"
  have w: "written_dependents (unat (dependent_count e)) (edependent e) = Inr (map edt_waiter ws)"
    using written_reps [OF assms(1)] assms(2) by simp
  obtain st1 where "each (deliver sat (edata e)) (map edt_waiter ws) (put_event g ?e st) = Inr st1"
    "events st1 = events (put_event g ?e st)" "signals st1 = signals (put_event g ?e st) @ map (told (edata e)) ws"
    using each_edt by blast
  then show ?thesis using w assms(3) by (simp add: fire_event_def)
qed

lemma latch_decrement:
  assumes "latch_inv L ty g s0 ops st" "\<not> (L \<le> length (payloads ops) \<and> auto_destroy ty)" "ty \<noteq> ARTS_EVENT_CHANNEL"
    "length (waiters ops) + 2 < 2 ^ 32" "0 < L"
  shows "\<exists>st'. arts_event_satisfy_slot (Suc n) None st g d ARTS_EVENT_LATCH_DECR_SLOT = Inr st' \<and>
    latch_inv L ty g s0 (ops @ [Decrement d]) st'"
proof -
  let ?P = "payloads ops"
  obtain e where e: "events st g = Some e" "etype e = ty" "edata e = last_payload (take L ?P)"
    "reps (edependent e) (map edt_waiter (waiters ops))" "unat (dependent_count e) = length (waiters ops)"
    "if L \<le> length ?P then fired e \<and> epos e \<noteq> 0 \<and> unat (epos e) \<le> length (waiters ops) + 1
     else \<not> fired e \<and> unat (latch_count e) = L - length ?P"
    using assms(1,2) unfolding latch_inv_def by (auto split: if_splits)
  have pers: "ty = ARTS_EVENT_IDEM \<or> ty = ARTS_EVENT_STICKY" if "\<not> auto_destroy ty"
    using that assms(3) by (cases ty) (simp_all add: auto_destroy_def)
  show ?thesis
  proof (cases "L \<le> length ?P")
    case True
    then show ?thesis using e pers assms(1,2) by (auto simp: latch_inv_def)
  next
    case False
    let ?e = "e\<lparr>latch_count := latch_count e - 1, edata := (if d \<noteq> NULL_GUID then d else edata e)\<rparr>"
    have nz: "latch_count e \<noteq> 0" using e(6) False assms(5) by auto
    then have l: "unat (latch_count e - 1) = L - length ?P - 1" using e(6) False by (simp add: unat_minus_one)
    have run: "arts_event_satisfy_slot (Suc n) None st g d ARTS_EVENT_LATCH_DECR_SLOT =
        (if latch_count e - 1 = 0 then fire_event (arts_event_satisfy_slot n None) g ?e st else Inr (put_event g ?e st))"
      using e(1,2,6) False assms(3) by (simp add: arts_atomic_sub_def Let_def)
    have pay: "take L (?P @ [d]) = ?P @ [d]" "take L ?P = ?P" using False by auto
    show ?thesis
    proof (cases "latch_count e - 1 = 0")
      case True
      then have L: "L = Suc (length ?P)" using l False by simp
      have pre: "reps (edependent ?e) (map edt_waiter (waiters ops))" "unat (dependent_count ?e) = length (waiters ops)"
        "etype ?e = ty" using e by simp_all
      obtain st' where f: "fire_event (arts_event_satisfy_slot n None) g ?e st = Inr st'"
        "signals st' = signals st @ map (told (edata ?e)) (waiters ops)"
        "events st' g = (if auto_destroy ty then None else Some (?e\<lparr>fired := True, epos := dependent_count ?e + 1\<rparr>))"
        using fire_latch [OF pre assms(3)] by blast
      have c: "unat (dependent_count e + 1) = length (waiters ops) + 1"
        using unat_Suc [of "dependent_count e" "length (waiters ops) + 1"] e(5) assms(4) by simp
      then have "dependent_count e + 1 \<noteq> 0" by auto
      then show ?thesis using run True f e L pay assms(1) c by (auto simp: latch_inv_def)
    next
      case False
      then have "\<not> L \<le> Suc (length ?P)" using l \<open>\<not> L \<le> length ?P\<close> by (auto simp: unat_eq_0)
      then show ?thesis using run False e pay assms(1) l by (auto simp: latch_inv_def)
    qed
  qed
qed

lemma latch_run_inv:
  assumes "latch_guid g" "list_all latch_op_ok ops" "0 < L" "ty \<noteq> ARTS_EVENT_CHANNEL" "length ops + 2 < 2 ^ 32"
    "latch_inv L ty g s0 [] st" "auto_destroy ty \<longrightarrow> length (payloads (butlast ops)) < L"
  shows "\<exists>st'. latch_run (Suc n) g m ops st = Inr st' \<and> latch_inv L ty g s0 ops st'"
  using assms(2,5,7)
proof (induction ops rule: rev_induct)
  case Nil
  then show ?case using assms(6) by (simp add: latch_run_def)
next
  case (snoc op ops)
  have len: "length (waiters ops) + 2 < 2 ^ 32" using snoc.prems(2) ops_length [of ops] by simp
  have "length (payloads (butlast ops)) \<le> length (payloads ops)"
    by (cases ops rule: rev_cases) simp_all
  then obtain st1 where st1: "latch_run (Suc n) g m ops st = Inr st1" "latch_inv L ty g s0 ops st1"
    using snoc.IH snoc.prems by auto
  have live: "\<not> (L \<le> length (payloads ops) \<and> auto_destroy ty)" using snoc.prems(3) by auto
  have "\<exists>st'. latch_step (Suc n) g m op st1 = Inr st' \<and> latch_inv L ty g s0 (ops @ [op]) st'"
  proof (cases op)
    case (Depend x s)
    then show ?thesis using latch_depend [OF assms(1) _ st1(2) live assms(4) len] snoc.prems(1)
      by (simp del: arts_event_satisfy_slot.simps)
  next
    case (Decrement d)
    then show ?thesis using latch_decrement [OF st1(2) live assms(4) len assms(3)]
      by (simp del: arts_event_satisfy_slot.simps)
  qed
  then obtain st2 where "latch_step (Suc n) g m op st1 = Inr st2" "latch_inv L ty g s0 (ops @ [op]) st2" by blast
  then show ?case using st1(1) by (simp add: latch_run_def each_append)
qed

section \<open>Channels\<close>

definition vlist :: "event \<Rightarrow> event_version list" where
  "vlist e = (case versions e of Some vs \<Rightarrow> vs | None \<Rightarrow> [new_version e 0])"

definition idle :: "event_version \<Rightarrow> bool" where
  "idle v \<longleftrightarrow> vlatch_count v = 0 \<and> vdependent_count v = 0 \<and> reps (vdependent v) []"

definition waiting :: "event_version \<Rightarrow> arts_guid_t \<times> u32 \<Rightarrow> bool" where
  "waiting v w \<longleftrightarrow> vlatch_count v = 1 \<and> vdependent_count v = 1 \<and> reps (vdependent v) [edt_waiter w]"

definition posted :: "event_version \<Rightarrow> arts_guid_t \<Rightarrow> bool" where
  "posted v d \<longleftrightarrow> vlatch_count v = - 1 \<and> vdependent_count v = 0 \<and> vdata v = d \<and> reps (vdependent v) []"

text \<open>
  An unlocked satisfy channel on which the consumers \<open>W\<close> wait and the payloads \<open>P\<close> are
  posted; one of the two is empty.
\<close>

definition channel_inv :: "event \<Rightarrow> (arts_guid_t \<times> u32) list \<Rightarrow> arts_guid_t list \<Rightarrow> bool" where
  "channel_inv e W P \<longleftrightarrow>
     etype e = ARTS_EVENT_CHANNEL \<and> elock e = 0 \<and> 0 < latch_count e \<and>
     (if W \<noteq> [] then P = [] \<and> list_all2 waiting (vlist e) W
      else if P \<noteq> [] then list_all2 posted (vlist e) P
      else \<exists>v. vlist e = [v] \<and> idle v)"

lemma get_versions_vlist [simp]:
  "vlist (fst (channel_get_versions e)) = vlist e" "versions (fst (channel_get_versions e)) = Some (vlist e)"
  "latch_count (fst (channel_get_versions e)) = latch_count e" "edata (fst (channel_get_versions e)) = edata e"
  by (auto simp: channel_get_versions_def vlist_def new_version_def Let_def split: option.splits)

lemma vlist_lock [simp]: "vlist (e\<lparr>elock := l\<rparr>) = vlist e"
  by (simp add: vlist_def new_version_def split: option.splits)

lemma vlist_Some: "versions e = Some vs \<Longrightarrow> vlist e = vs"
  by (simp add: vlist_def)

lemma push_versions:
  assumes "versions e = Some vs" "vs \<noteq> []"
  shows "\<exists>n. versions (channel_push_version e) = Some (vs @ [new_version e n])"
    "last_version (channel_push_version e) = length vs"
    "latch_count (channel_push_version e) = latch_count e" "edata (channel_push_version e) = edata e"
  using assms by (simp_all add: channel_push_version_def channel_get_versions_def last_version_def new_version_def Let_def)

lemma new_version_idle: "idle (new_version e n)"
  by (simp add: idle_def new_version_def reps_new)

lemma reps_reset: "reps cs ds \<Longrightarrow> reps (take 1 cs) []"
  by (cases cs) (auto simp: reps_def)

lemma get_set_version:
  "versions e = Some vs \<Longrightarrow> i < length vs \<Longrightarrow> get_version i (set_version i v e) = Some v"
  "versions e = Some vs \<Longrightarrow> versions (set_version i v e) = Some (vs[i := v])"
  "latch_count (set_version i v e) = latch_count e" "edata (set_version i v e) = edata e"
  by (simp_all add: get_version_def set_version_def)

text \<open>Firing the front version with one consumer.\<close>

lemma channel_fire_one:
  assumes "versions e = Some (v # vs)" "vdependent_count v = 1" "reps (vdependent v) [edt_waiter w]"
    "vdata v \<noteq> NULL_GUID" "etype e = ARTS_EVENT_CHANNEL"
  shows "\<exists>st' e'. channel_finish sat g e 0 0 st = Inr st' \<and> events st' g = Some e' \<and>
    signals st' = signals st @ [told (vdata v) w] \<and> etype e' = ARTS_EVENT_CHANNEL \<and> elock e' = 0 \<and>
    latch_count e' = latch_count e \<and>
    (if vs = [] then \<exists>v'. vlist e' = [v'] \<and> idle v' else vlist e' = vs)"
proof -
  have w: "written_dependents (unat (vdependent_count v)) (vdependent v) = Inr [edt_waiter w]"
    using written_reps [OF assms(3)] assms(2) by simp
  have d: "each (channel_deliver sat (vdata v)) [edt_waiter w] st1 = Inr (emit (told (vdata v) w) st1)" for st1
    using assms(4) by (simp add: channel_deliver_def edt_waiter_def told_def)
  have g: "get_version 0 e = Some v" using assms(1) by (simp add: get_version_def)
  have "channel_finish sat g e 0 0 st =
      Inr (put_event g ((fst (channel_free_version e))\<lparr>elock := 0\<rparr>) (emit (told (vdata v) w) (put_event g e st)))"
    using g w d by (simp add: channel_finish_def channel_fire_dependents_def arts_unlock_def)
  then show ?thesis
    using assms(1,5) reps_reset [OF assms(3)]
    by (cases vs) (auto simp: channel_free_version_def vlist_def idle_def told_def)
qed

text \<open>The event while a call holds its lock.\<close>

definition locked :: "event \<Rightarrow> event" where
  "locked e = fst (channel_get_versions (e\<lparr>elock := 1\<rparr>))"

lemma locked_fields:
  "versions (locked e) = Some (vlist e)" "etype (locked e) = etype e" "latch_count (locked e) = latch_count e"
  "vlist e = v # vs \<Longrightarrow> get_version 0 (locked e) = Some v"
  by (simp_all add: locked_def get_version_def)

lemma channel_satisfy_locked:
  assumes "channel_inv e W P" "events st g = Some e" "vlist e = v # vs"
  shows "arts_event_satisfy_slot (Suc n) None st g d slot =
    rbind (channel_count (locked e) v slot d) (\<lambda>(e, i, r). channel_finish (arts_event_satisfy_slot n None) g e i r st)"
  using assms locked_fields(4) [OF assms(3)]
  by (simp add: channel_inv_def channel_satisfy_slot_def arts_lock_def arts_atomic_cswap_def locked_def)

definition edt_dep :: "arts_guid_t \<Rightarrow> u32 \<Rightarrow> dependent" where
  "edt_dep x s = (edt_waiter (x, s))\<lparr>done_writing := False\<rparr>"

lemma channel_depend_locked:
  assumes "channel_inv e W P" "events st g = Some e" "vlist e = v # vs"
    "latch_guid g" "arts_guid_get_type x = type_code ARTS_EDT"
  shows "arts_add_dependence n None g x s m st =
    (let (e', i) = (if 0 < vdependent_count v
                    then (channel_push_version (locked e), last_version (channel_push_version (locked e)))
                    else (locked e, 0));
         v' = the (get_version i e')
     in version_add (arts_event_satisfy_slot n None) g
          (set_version i (v'\<lparr>vlatch_count := vlatch_count v' + 1\<rparr>) e') i (edt_dep x s)
          (emit (Set_Dep_Metadata x s m 0 0 0) st))"
  using assms locked_fields(4) [OF assms(3)]
  by (simp add: channel_inv_def arts_add_dependence_def arts_add_dependence_ex_def latch_guid_def
      arts_event_add_dependence_with_mode_def channel_add_dependence_def arts_lock_def arts_atomic_cswap_def
      arts_atomic_add_def locked_def edt_dep_def edt_waiter_def Let_def)

lemma reps_write_dep:
  "reps cs (map edt_waiter ws) \<Longrightarrow>
   \<exists>cs'. write_dependent cs (length ws) (edt_dep x s) = Inr cs' \<and> reps cs' (map edt_waiter (ws @ [(x, s)]))"
  using write_dependent_reps [of cs "map edt_waiter ws" "edt_dep x s"] by (simp add: edt_dep_def edt_waiter_def)

lemma version_add_first:
  assumes "versions e = Some vs" "i < length vs" "vdependent_count (vs ! i) = 0" "reps (vdependent (vs ! i)) []"
  shows "\<exists>cs. version_add sat g e i (edt_dep x s) st =
      channel_finish sat g (set_version i ((vs ! i)\<lparr>vdependent_count := 1, vdependent := cs\<rparr>) e) i (vlatch_count (vs ! i)) st \<and>
    reps cs [edt_waiter (x, s)]"
proof -
  obtain cs where "write_dependent (vdependent (vs ! i)) 0 (edt_dep x s) = Inr cs" "reps cs [edt_waiter (x, s)]"
    using reps_write_dep [of "vdependent (vs ! i)" "[]" x s] assms(4) by auto
  then show ?thesis using assms
    by (auto simp: version_add_def get_version_def arts_atomic_fetch_add_def Let_def)
qed

text \<open>Ending a call without a fire.\<close>

lemma channel_finish_quiet:
  "r \<noteq> 0 \<Longrightarrow> channel_finish sat g e i r st = Inr (put_event g (e\<lparr>elock := 0\<rparr>) st)"
  by (simp add: channel_finish_def arts_unlock_def)

lemma list_all2_snoc_push:
  "list_all2 R vs xs \<Longrightarrow> R v x \<Longrightarrow> list_all2 R ((vs @ [u])[length vs := v]) (xs @ [x])"
  by (simp add: list_all2_appendI)

lemma channel_depend_wait:
  assumes "channel_inv e W []" "events st g = Some e" "latch_guid g" "arts_guid_get_type x = type_code ARTS_EDT"
  shows "\<exists>st' e'. arts_add_dependence n None g x s m st = Inr st' \<and> events st' g = Some e' \<and>
    channel_inv e' (W @ [(x, s)]) [] \<and> signals st' = signals st"
proof (cases W)
  case Nil
  then obtain v where v: "vlist e = [v]" "idle v" using assms(1) by (auto simp: channel_inv_def)
  let ?v = "v\<lparr>vlatch_count := 1\<rparr>"
  let ?e = "set_version 0 ?v (locked e)"
  have E: "versions ?e = Some [?v]" by (simp add: get_set_version(2) [OF locked_fields(1)] v)
  obtain cs where cs: "version_add (arts_event_satisfy_slot n None) g ?e 0 (edt_dep x s) (emit (Set_Dep_Metadata x s m 0 0 0) st) =
      channel_finish (arts_event_satisfy_slot n None) g (set_version 0 (?v\<lparr>vdependent_count := 1, vdependent := cs\<rparr>) ?e) 0 1
        (emit (Set_Dep_Metadata x s m 0 0 0) st)" "reps cs [edt_waiter (x, s)]"
    using version_add_first [OF E, of 0 "arts_event_satisfy_slot n None" g x s "emit (Set_Dep_Metadata x s m 0 0 0) st"] v(2)
    by (auto simp: idle_def)
  show ?thesis
    using channel_depend_locked [OF assms(1,2) v(1) assms(3,4), of n s m] cs v(2) assms(1) Nil
      locked_fields(4) [OF v(1)] E
    by (simp add: idle_def channel_finish_quiet channel_inv_def vlist_Some get_set_version waiting_def locked_fields)
next
  case (Cons w W')
  then obtain v vs where v: "vlist e = v # vs" "waiting v w" "list_all2 waiting (vlist e) W"
    using assms(1) by (auto simp: channel_inv_def list_all2_Cons2)
  let ?p = "channel_push_version (locked e)"
  obtain k where p: "versions ?p = Some (vlist e @ [new_version (locked e) k])" "last_version ?p = length (vlist e)"
    "latch_count ?p = latch_count e" "etype ?p = etype e"
    using push_versions [OF locked_fields(1), of e] v(1) locked_fields by auto
  let ?u = "new_version (locked e) k"
  let ?v = "?u\<lparr>vlatch_count := 1\<rparr>"
  let ?e = "set_version (length (vlist e)) ?v ?p"
  have gv: "get_version (length (vlist e)) ?p = Some ?u" using p(1) by (simp add: get_version_def)
  have E: "versions ?e = Some ((vlist e @ [?u])[length (vlist e) := ?v])" using p(1) by (simp add: get_set_version)
  obtain cs where cs: "version_add (arts_event_satisfy_slot n None) g ?e (length (vlist e)) (edt_dep x s) (emit (Set_Dep_Metadata x s m 0 0 0) st) =
      channel_finish (arts_event_satisfy_slot n None) g
        (set_version (length (vlist e)) (?v\<lparr>vdependent_count := 1, vdependent := cs\<rparr>) ?e) (length (vlist e)) 1
        (emit (Set_Dep_Metadata x s m 0 0 0) st)" "reps cs [edt_waiter (x, s)]"
    using version_add_first [OF E, of "length (vlist e)" "arts_event_satisfy_slot n None" g x s "emit (Set_Dep_Metadata x s m 0 0 0) st"]
    by (auto simp: new_version_def reps_new)
  have "vlatch_count ?u = 0" by (simp add: new_version_def)
  then have "arts_add_dependence n None g x s m st =
      Inr (put_event g ((set_version (length (vlist e)) (?v\<lparr>vdependent_count := 1, vdependent := cs\<rparr>) ?e)\<lparr>elock := 0\<rparr>)
        (emit (Set_Dep_Metadata x s m 0 0 0) st))"
    using channel_depend_locked [OF assms(1,2) v(1) assms(3,4), of n s m] cs(1) v(2) p(2) gv
    by (simp add: waiting_def channel_finish_quiet word_gt_0 Let_def)
  moreover have "waiting (?v\<lparr>vdependent_count := 1, vdependent := cs\<rparr>) (x, s)" using cs(2) by (simp add: waiting_def)
  ultimately show ?thesis
    using list_all2_snoc_push [OF v(3)] assms(1) Cons E p(3,4)
    by (simp add: channel_inv_def vlist_Some get_set_version)
qed

lemma channel_depend_match:
  assumes "channel_inv e [] (d # P)" "events st g = Some e" "latch_guid g" "arts_guid_get_type x = type_code ARTS_EDT"
    "d \<noteq> NULL_GUID"
  shows "\<exists>st' e'. arts_add_dependence n None g x s m st = Inr st' \<and> events st' g = Some e' \<and>
    channel_inv e' [] P \<and> signals st' = signals st @ [told d (x, s)]"
proof -
  obtain v vs where v: "vlist e = v # vs" "posted v d" "list_all2 posted vs P"
    using assms(1) by (auto simp: channel_inv_def list_all2_Cons2)
  let ?v = "v\<lparr>vlatch_count := 0\<rparr>" and ?st = "emit (Set_Dep_Metadata x s m 0 0 0) st"
  let ?e = "set_version 0 ?v (locked e)"
  have E: "versions ?e = Some (?v # vs)" by (simp add: get_set_version(2) [OF locked_fields(1)] v)
  obtain cs where cs: "version_add (arts_event_satisfy_slot n None) g ?e 0 (edt_dep x s) ?st =
      channel_finish (arts_event_satisfy_slot n None) g (set_version 0 (?v\<lparr>vdependent_count := 1, vdependent := cs\<rparr>) ?e) 0 0 ?st"
    "reps cs [edt_waiter (x, s)]"
    using version_add_first [OF E, of 0 "arts_event_satisfy_slot n None" g x s ?st] v(2) by (auto simp: posted_def)
  let ?f = "set_version 0 (?v\<lparr>vdependent_count := 1, vdependent := cs\<rparr>) ?e"
  have F: "versions ?f = Some (?v\<lparr>vdependent_count := 1, vdependent := cs\<rparr> # vs)"
    by (simp add: get_set_version(2) [OF E])
  have "vdata ?v = d" using v(2) by (simp add: posted_def)
  then obtain st' e' where f: "channel_finish (arts_event_satisfy_slot n None) g ?f 0 0 ?st = Inr st'" "events st' g = Some e'"
    "signals st' = signals ?st @ [told d (x, s)]" "etype e' = ARTS_EVENT_CHANNEL" "elock e' = 0"
    "latch_count e' = latch_count ?f" "if vs = [] then \<exists>v'. vlist e' = [v'] \<and> idle v' else vlist e' = vs"
    using channel_fire_one [OF F, of "(x, s)" "arts_event_satisfy_slot n None" g ?st] cs(2) assms(1,5)
    by (auto simp: channel_inv_def locked_fields)
  have "arts_add_dependence n None g x s m st = Inr st'"
    using channel_depend_locked [OF assms(1,2) v(1) assms(3,4), of n s m] cs(1) f(1) v(2) locked_fields(4) [OF v(1)]
    by (simp add: posted_def)
  moreover have "channel_inv e' [] P"
    using f(4-7) v(3) assms(1) by (cases vs) (auto simp: channel_inv_def get_set_version locked_fields list_all2_Cons1)
  ultimately show ?thesis using f(2,3) by auto
qed

lemma channel_decrement_post:
  assumes "channel_inv e [] P" "events st g = Some e" "d \<noteq> NULL_GUID"
  shows "\<exists>st' e'. arts_event_satisfy_slot (Suc n) None st g d ARTS_EVENT_LATCH_DECR_SLOT = Inr st' \<and>
    events st' g = Some e' \<and> channel_inv e' [] (P @ [d]) \<and> signals st' = signals st"
proof (cases P)
  case Nil
  then obtain v where v: "vlist e = [v]" "idle v" using assms(1) by (auto simp: channel_inv_def)
  let ?v = "v\<lparr>vdata := d, vlatch_count := - 1\<rparr>"
  have "channel_count (locked e) v ARTS_EVENT_LATCH_DECR_SLOT d = Inr (set_version 0 ?v (locked e), 0, - 1)"
    using v(2) assms(3) locked_fields(4) [OF v(1)]
    by (simp add: channel_count_def idle_def arts_atomic_sub_def)
  then have "arts_event_satisfy_slot (Suc n) None st g d ARTS_EVENT_LATCH_DECR_SLOT =
      Inr (put_event g ((set_version 0 ?v (locked e))\<lparr>elock := 0\<rparr>) st)"
    using channel_satisfy_locked [OF assms(1,2) v(1)] by (simp add: channel_finish_quiet)
  then show ?thesis
    using v assms(1) Nil
    by (simp add: channel_inv_def vlist_Some get_set_version(2) [OF locked_fields(1)] get_set_version(3) posted_def idle_def
        locked_fields(2,3) del: arts_event_satisfy_slot.simps)
next
  case (Cons p P')
  then obtain v vs where v: "vlist e = v # vs" "posted v p" "list_all2 posted (vlist e) P"
    using assms(1) by (auto simp: channel_inv_def list_all2_Cons2)
  let ?p = "channel_push_version (locked e)"
  obtain k where p: "versions ?p = Some (vlist e @ [new_version (locked e) k])" "last_version ?p = length (vlist e)"
    "latch_count ?p = latch_count e" "etype ?p = etype e"
    using push_versions [OF locked_fields(1), of e] v(1) locked_fields by auto
  let ?u = "new_version (locked e) k"
  let ?v = "?u\<lparr>vdata := d, vlatch_count := - 1\<rparr>"
  have gv: "get_version (length (vlist e)) ?p = Some ?u" using p(1) by (simp add: get_version_def)
  have u: "vlatch_count ?u = 0" "posted ?v d" by (simp_all add: new_version_def posted_def reps_new)
  have "channel_count (locked e) v ARTS_EVENT_LATCH_DECR_SLOT d =
      Inr (set_version (length (vlist e)) ?v ?p, length (vlist e), - 1)"
    using v(2) assms(3) gv u p(2) by (simp add: channel_count_def posted_def arts_atomic_sub_def Let_def)
  then have "arts_event_satisfy_slot (Suc n) None st g d ARTS_EVENT_LATCH_DECR_SLOT =
      Inr (put_event g ((set_version (length (vlist e)) ?v ?p)\<lparr>elock := 0\<rparr>) st)"
    using channel_satisfy_locked [OF assms(1,2) v(1)] by (simp add: channel_finish_quiet)
  then show ?thesis
    using list_all2_snoc_push [OF v(3) u(2)] assms(1) Cons p
    by (simp add: channel_inv_def vlist_Some get_set_version del: arts_event_satisfy_slot.simps)
qed

lemma channel_decrement_match:
  assumes "channel_inv e (w # W) []" "events st g = Some e" "d \<noteq> NULL_GUID"
  shows "\<exists>st' e'. arts_event_satisfy_slot (Suc n) None st g d ARTS_EVENT_LATCH_DECR_SLOT = Inr st' \<and>
    events st' g = Some e' \<and> channel_inv e' W [] \<and> signals st' = signals st @ [told d w]"
proof -
  obtain v vs where v: "vlist e = v # vs" "waiting v w" "list_all2 waiting vs W"
    using assms(1) by (auto simp: channel_inv_def list_all2_Cons2)
  let ?v = "v\<lparr>vdata := d, vlatch_count := 0\<rparr>"
  let ?f = "set_version 0 ?v (locked e)"
  have c: "channel_count (locked e) v ARTS_EVENT_LATCH_DECR_SLOT d = Inr (?f, 0, 0)"
    using v(2) assms(3) locked_fields(4) [OF v(1)]
    by (simp add: channel_count_def waiting_def arts_atomic_sub_def)
  have F: "versions ?f = Some (?v # vs)" by (simp add: get_set_version(2) [OF locked_fields(1)] v)
  obtain st' e' where f: "channel_finish (arts_event_satisfy_slot n None) g ?f 0 0 st = Inr st'" "events st' g = Some e'"
    "signals st' = signals st @ [told d w]" "etype e' = ARTS_EVENT_CHANNEL" "elock e' = 0"
    "latch_count e' = latch_count ?f" "if vs = [] then \<exists>v'. vlist e' = [v'] \<and> idle v' else vlist e' = vs"
    using channel_fire_one [OF F, of w "arts_event_satisfy_slot n None" g st] v(2) assms(1,3)
    by (auto simp: channel_inv_def locked_fields waiting_def)
  have "arts_event_satisfy_slot (Suc n) None st g d ARTS_EVENT_LATCH_DECR_SLOT = Inr st'"
    using channel_satisfy_locked [OF assms(1,2) v(1)] c f(1) by simp
  moreover have "channel_inv e' W []"
    using f(4-7) v(3) assms(1) by (cases vs) (auto simp: channel_inv_def get_set_version locked_fields list_all2_Cons1)
  ultimately show ?thesis using f(2,3) by blast
qed

fun channel_op_ok :: "latch_op \<Rightarrow> bool" where
  "channel_op_ok (Depend e s) = (arts_guid_get_type e = type_code ARTS_EDT)"
| "channel_op_ok (Decrement d) = (d \<noteq> NULL_GUID)"

lemma zip_snoc:
  "length xs < length ys \<Longrightarrow> zip (xs @ [x]) ys = zip xs ys @ [(x, ys ! length xs)]"
  "length ys \<le> length xs \<Longrightarrow> zip (xs @ [x]) ys = zip xs ys"
  "length ys < length xs \<Longrightarrow> zip xs (ys @ [y]) = zip xs ys @ [(xs ! length ys, y)]"
  "length xs \<le> length ys \<Longrightarrow> zip xs (ys @ [y]) = zip xs ys"
  by (induction xs ys rule: list_induct2') auto

lemma channel_run_inv:
  assumes "latch_guid g" "list_all channel_op_ok ops" "channel_inv e [] []" "events st g = Some e"
  shows "\<exists>st' e'. latch_run (Suc n) g m ops st = Inr st' \<and> events st' g = Some e' \<and>
    channel_inv e' (drop (length (payloads ops)) (waiters ops)) (drop (length (waiters ops)) (payloads ops)) \<and>
    signals st' = signals st @ map2 (\<lambda>w d. told d w) (waiters ops) (payloads ops)"
  using assms(2)
proof (induction ops rule: rev_induct)
  case Nil
  then show ?case using assms(3,4) by (simp add: latch_run_def)
next
  case (snoc op ops)
  let ?W = "waiters ops" and ?P = "payloads ops"
  obtain st1 e1 where st1: "latch_run (Suc n) g m ops st = Inr st1" "events st1 g = Some e1"
    "channel_inv e1 (drop (length ?P) ?W) (drop (length ?W) ?P)"
    "signals st1 = signals st @ map2 (\<lambda>w d. told d w) ?W ?P"
    using snoc by auto
  have run: "latch_run (Suc n) g m (ops @ [op]) st = latch_step (Suc n) g m op st1"
    using st1(1) by (cases "latch_step (Suc n) g m op st1") (simp_all add: latch_run_def each_append)
  have pay: "\<forall>d\<in>set ?P. d \<noteq> NULL_GUID"
    using snoc.prems by (induction ops rule: payloads.induct) auto
  show ?case
  proof (cases op)
    case (Depend x s)
    then have x: "arts_guid_get_type x = type_code ARTS_EDT" using snoc.prems by simp
    show ?thesis
    proof (cases "length ?W < length ?P")
      case True
      then have d: "drop (length ?W) ?P = ?P ! length ?W # drop (Suc (length ?W)) ?P" "drop (length ?P) ?W = []"
        by (simp_all add: Cons_nth_drop_Suc)
      have "?P ! length ?W \<noteq> NULL_GUID" using True pay by simp
      from channel_depend_match [OF st1(3) [unfolded d] st1(2) assms(1) x this, of "Suc n" s m]
      show ?thesis using Depend run st1(4) True by (auto simp: zip_snoc)
    next
      case False
      then have d: "drop (length ?W) ?P = []" by simp
      from channel_depend_wait [OF st1(3) [unfolded d] st1(2) assms(1) x, of "Suc n" s m]
      show ?thesis using Depend run st1(4) False by (auto simp: zip_snoc)
    qed
  next
    case (Decrement d)
    then have dn: "d \<noteq> NULL_GUID" using snoc.prems by simp
    show ?thesis
    proof (cases "length ?P < length ?W")
      case True
      then have w: "drop (length ?P) ?W = ?W ! length ?P # drop (Suc (length ?P)) ?W" "drop (length ?W) ?P = []"
        by (simp_all add: Cons_nth_drop_Suc)
      from channel_decrement_match [OF st1(3) [unfolded w] st1(2) dn, of n]
      show ?thesis using Decrement run st1(4) True by (auto simp: zip_snoc simp del: arts_event_satisfy_slot.simps)
    next
      case False
      then have w: "drop (length ?P) ?W = []" by simp
      from channel_decrement_post [OF st1(3) [unfolded w] st1(2) dn, of n]
      show ?thesis using Decrement run st1(4) False by (auto simp: zip_snoc simp del: arts_event_satisfy_slot.simps)
    qed
  qed
qed

section \<open>Where the code loses a signal\<close>

definition demo_node :: event_node where
  "demo_node = \<lparr>cfg = demo_cfg, events = (\<lambda>_. None), guids = guid_state_init, db_here = (\<lambda>_. False), effects = []\<rparr>"

definition demo_event :: arts_guid_t where
  "demo_event = 0x0200000000000009"

definition demo_edt :: "nat \<Rightarrow> arts_guid_t" where
  "demo_edt i = 0x0100000000000000 + of_nat i"

text \<open>A consumer of a channel that is satisfied without data is dropped.\<close>

lemma channel_null_payload_drops_consumer:
  "map_sum id signals (latch_run 1 demo_event DB_MODE_RO [Depend (demo_edt 1) 0, Decrement NULL_GUID, Decrement 5]
     (put_event demo_event (new_event 1 ARTS_EVENT_CHANNEL NULL_GUID) demo_node)) = Inr []"
  by code_simp

text \<open>A slice dependence on a latch is registered on a version, which the fire never looks at.\<close>

lemma slice_dependence_on_latch_lost:
  "map_sum id signals (rbind (arts_add_dependence_at 1 None demo_event (demo_edt 1) 0 DB_MODE_RO 8 16
       (put_event demo_event (new_event 1 ARTS_EVENT_STICKY NULL_GUID) demo_node))
     (latch_run 1 demo_event DB_MODE_RO [Decrement 5])) = Inr []"
  by code_simp

text \<open>An event created on another rank has no GUID.\<close>

lemma remote_event_has_no_guid:
  assumes "route \<noteq> arts_global_rank_id (cfg st)" "route \<noteq> ARTS_HINT_CURRENT_NODE"
  shows "map_sum id snd (arts_event_create th route ty latch dat st) = Inr NULL_GUID"
  using assms
  by (cases ty) (simp_all add: arts_event_create_def create_of_type_def arts_event_create_internal_def
      arts_event_create_channel_internal_def Let_def)

section \<open>Properties\<close>


lemma demo_event_ok: "latch_guid demo_event" "arts_guid_get_type (demo_edt 1) = type_code ARTS_EDT"
  "arts_guid_get_type (demo_edt 2) = type_code ARTS_EDT"
  by code_simp+






end
