(* ===== verification/Epoch.thy ===== *)
theory Epoch
  imports Guid Atomics
begin

text \<open>
  Termination detection of \<^verbatim>\<open>sync/termination.c\<close>.  An epoch counts the tasks created in
  it and the tasks finished in it, packed in one word; on several ranks the owner
  collects the counts of all ranks in rounds.  A node keeps the epochs and the pools its
  route table holds; messages, signals and parked operations are recorded as effects.
\<close>

section \<open>Data\<close>

abbreviation EPOCH_MASK :: u64 where "EPOCH_MASK \<equiv> 0x7FFFFFFFFFFFFFFF"
abbreviation EPOCH_BIT :: u64 where "EPOCH_BIT \<equiv> 0x8000000000000000"
abbreviation EPOCH_ACTIVE_SHIFT :: nat where "EPOCH_ACTIVE_SHIFT \<equiv> 32"
abbreviation PHASE_1 :: u32 where "PHASE_1 \<equiv> 0"
abbreviation PHASE_2 :: u32 where "PHASE_2 \<equiv> 1"
abbreviation PHASE_3 :: u32 where "PHASE_3 \<equiv> 2"

definition EPOCH_ACTIVE_INC :: u64 where
  "EPOCH_ACTIVE_INC = push_bit EPOCH_ACTIVE_SHIFT 1"

record epoch =
  epoch_counts :: u64
  phase :: u32
  completed :: u32
  global_active_count :: u32
  global_finished_count :: u32
  last_active_count :: u32
  last_finished_count :: u32
  queued :: u64
  outstanding :: u64
  termination_exit_slot :: u32
  termination_exit_guid :: arts_guid_t
  epguid :: arts_guid_t
  pool_guid :: arts_guid_t

definition EPOCH_ACTIVE :: "u64 \<Rightarrow> u32" where
  "EPOCH_ACTIVE c = ucast (drop_bit EPOCH_ACTIVE_SHIFT c)"

definition EPOCH_FINISHED :: "u64 \<Rightarrow> u32" where
  "EPOCH_FINISHED c = ucast (c AND 0xFFFFFFFF)"

text \<open>A pool of epochs: the epochs from \<open>pool_index\<close> on are not handed out yet.\<close>

record epoch_pool =
  pool_size :: u32
  pool_index :: u32
  pool_outstanding :: u32
  pool_start :: arts_guid_t

datatype epoch_effect =
    Signal_Value arts_guid_t u32 u32
  | Shutdown
  | Epoch_Req u32 arts_guid_t
  | Epoch_Send u32 arts_guid_t u32 u32
  | Epoch_Delete u32 arts_guid_t
  | Epoch_Init u32 arts_guid_t arts_guid_t u32
  | Epoch_Init_Pool u32 u32 arts_guid_t arts_guid_t
  | Oo_Inc_Queue arts_guid_t
  | Oo_Inc_Active arts_guid_t
  | Oo_Inc_Finished arts_guid_t
  | Oo_Send_Epoch arts_guid_t u32 u32
  | Fire_Oo_Epoch arts_guid_t
  | Set_Current_Epoch arts_guid_t

text \<open>
  A node.  \<open>pools\<close> are the pools in memory, \<open>pool_table\<close> tells which of them the route
  table still holds, and \<open>thread_pool\<close> is the running thread's list of pools.
\<close>

record epoch_node =
  ecfg :: node_cfg
  epochs :: "arts_guid_t \<Rightarrow> epoch option"
  pools :: "arts_guid_t \<Rightarrow> epoch_pool option"
  pool_table :: "arts_guid_t \<Rightarrow> bool"
  thread_pool :: "arts_guid_t list"
  eguids :: guid_state
  auto_shutdown_guid :: arts_guid_t
  auto_shutdown_epoch :: "arts_guid_t option"
  ready_to_execute :: bool
  ep_effects :: "epoch_effect list"

definition ep_emit :: "epoch_effect \<Rightarrow> epoch_node \<Rightarrow> epoch_node" where
  "ep_emit x st = st\<lparr>ep_effects := ep_effects st @ [x]\<rparr>"

definition put_epoch :: "arts_guid_t \<Rightarrow> epoch \<Rightarrow> epoch_node \<Rightarrow> epoch_node" where
  "put_epoch g e st = st\<lparr>epochs := (epochs st)(g := Some e)\<rparr>"

definition remove_epoch :: "arts_guid_t \<Rightarrow> epoch_node \<Rightarrow> epoch_node" where
  "remove_epoch g st = st\<lparr>epochs := (epochs st)(g := None)\<rparr>"

text \<open>A message to every rank but one.\<close>

definition to_others :: "u32 \<Rightarrow> (u32 \<Rightarrow> epoch_effect) \<Rightarrow> epoch_node \<Rightarrow> epoch_node" where
  "to_others r msg st =
     fold (\<lambda>i. ep_emit (msg i)) (filter (\<lambda>i. i \<noteq> r) (map of_nat [0..<unat (arts_global_rank_count (ecfg st))])) st"

section \<open>Counting\<close>

definition decrement_queue_epoch :: "epoch \<Rightarrow> epoch \<times> bool" where
  "decrement_queue_epoch e =
     (let local = queued e in
      if local = 1 then (e\<lparr>queued := fst (arts_atomic_cswap_u64 (queued e) 1 EPOCH_BIT)\<rparr>, True)
      else (e\<lparr>queued := fst (arts_atomic_cswap_u64 (queued e) local (local - 1))\<rparr>, False))"

definition increment_queue_epoch :: "arts_guid_t \<Rightarrow> epoch_node \<Rightarrow> epoch_node" where
  "increment_queue_epoch g st =
     (if g \<noteq> NULL_GUID then
        (case epochs st g of
           Some e \<Rightarrow> put_epoch g (e\<lparr>queued := fst (arts_atomic_add_u64 (queued e) 1)\<rparr>) st
         | None \<Rightarrow> ep_emit (Oo_Inc_Queue g) st)
      else st)"

definition increment_active_epoch :: "arts_guid_t \<Rightarrow> epoch_node \<Rightarrow> epoch_node" where
  "increment_active_epoch g st =
     (case epochs st g of
        Some e \<Rightarrow> put_epoch g (e\<lparr>epoch_counts := fst (arts_atomic_add_u64 (epoch_counts e) EPOCH_ACTIVE_INC)\<rparr>) st
      | None \<Rightarrow> ep_emit (Oo_Inc_Active g) st)"

definition broadcast_epoch_request :: "arts_guid_t \<Rightarrow> epoch_node \<Rightarrow> epoch_node" where
  "broadcast_epoch_request g st = to_others (arts_guid_get_rank g) (\<lambda>i. Epoch_Req i g) st"

definition arts_shutdown_epoch_fire :: "arts_guid_t \<Rightarrow> epoch_node \<Rightarrow> epoch_node" where
  "arts_shutdown_epoch_fire g st = (if auto_shutdown_guid st = g then ep_emit Shutdown st else st)"

definition delete_epoch :: "arts_guid_t \<Rightarrow> epoch \<Rightarrow> epoch_node \<Rightarrow> epoch_node res" where
  "delete_epoch g e st =
     (let me = arts_global_rank_id (ecfg st); p = pool_guid e in
      if p \<noteq> NULL_GUID then
        (case (if pool_table st p then pools st p else None) of
           None \<Rightarrow> Inl Null_Deref
         | Some pool \<Rightarrow>
             if arts_guid_is_local (ecfg st) p then
               let st = remove_epoch g st;
                   (c, r) = arts_atomic_sub (pool_outstanding pool) 1;
                   st = st\<lparr>pools := (pools st)(p \<mapsto> pool\<lparr>pool_outstanding := c\<rparr>)\<rparr>
               in if r = 0 then
                    Inr (to_others me (\<lambda>i. Epoch_Delete i g) (st\<lparr>pool_table := (pool_table st)(p := False)\<rparr>))
                  else Inr st
             else
               Inr ((fold (\<lambda>i. remove_epoch (arts_guid_from_index (pool_start pool) (of_nat i)))
                       [0..<unat (pool_size pool)] st)
                    \<lparr>pool_table := (pool_table st)(p := False), pools := (pools st)(p := None)\<rparr>))
      else
        let st = remove_epoch g st in
        Inr (if arts_guid_is_local (ecfg st) g then to_others me (\<lambda>i. Epoch_Delete i g) st else st))"

text \<open>The end of an epoch: its exit slot is signalled, or the runtime shuts down.\<close>

definition fire_epoch :: "epoch \<Rightarrow> u32 \<Rightarrow> epoch_node \<Rightarrow> epoch_node" where
  "fire_epoch e tot st =
     (if termination_exit_guid e \<noteq> NULL_GUID
      then ep_emit (Signal_Value (termination_exit_guid e) (termination_exit_slot e) tot) st
      else arts_shutdown_epoch_fire (epguid e) st)"

definition increment_finished_epoch_impl :: "arts_guid_t \<Rightarrow> epoch \<Rightarrow> epoch_node \<Rightarrow> epoch_node res" where
  "increment_finished_epoch_impl g e st =
     (case arts_atomic_fetch_add_u64 (epoch_counts e) 1 of
        (c, prev) \<Rightarrow>
          let new_finished = ucast ((prev AND 0xFFFFFFFF) + 1) :: u32;
              cur_active = ucast (drop_bit EPOCH_ACTIVE_SHIFT prev) :: u32;
              e = e\<lparr>epoch_counts := c\<rparr>
          in if arts_global_rank_count (ecfg st) = 1 then
               if 0 < new_finished \<and> new_finished = cur_active then
                 (case arts_atomic_cswap (phase e) PHASE_1 PHASE_3 of
                    (p, old) \<Rightarrow>
                      let e = e\<lparr>phase := p\<rparr> in
                      if old = PHASE_1 then
                        let e = e\<lparr>completed := 1\<rparr>
                        in delete_epoch g e (fire_epoch e new_finished (put_epoch g e st))
                      else Inr (put_epoch g e st))
               else Inr (put_epoch g e st)
             else if arts_guid_get_rank g = arts_global_rank_id (ecfg st) then
               (case arts_atomic_sub_u64 (queued e) 1 of
                  (q, r) \<Rightarrow>
                    let e = e\<lparr>queued := q\<rparr> in
                    if r = 0 then
                      (case arts_atomic_cswap_u64 (outstanding e) 0 (ucast (arts_global_rank_count (ecfg st))) of
                         (out, old) \<Rightarrow>
                           let st = put_epoch g (e\<lparr>outstanding := out\<rparr>) st
                           in Inr (if old = 0 then broadcast_epoch_request g st else st))
                    else Inr (put_epoch g e st))
             else
               (case decrement_queue_epoch e of
                  (e, sent) \<Rightarrow>
                    let st = put_epoch g e st
                    in Inr (if sent then ep_emit (Epoch_Send (arts_guid_get_rank g) g cur_active new_finished) st
                            else st)))"

definition increment_finished_epoch :: "arts_guid_t \<Rightarrow> epoch_node \<Rightarrow> epoch_node res" where
  "increment_finished_epoch g st =
     (if g \<noteq> NULL_GUID then
        (case epochs st g of
           Some e \<Rightarrow> increment_finished_epoch_impl g e st
         | None \<Rightarrow> Inr (ep_emit (Oo_Inc_Finished g) st))
      else Inr st)"

definition send_epoch :: "arts_guid_t \<Rightarrow> u32 \<Rightarrow> u32 \<Rightarrow> epoch_node \<Rightarrow> epoch_node" where
  "send_epoch g source dest st =
     (case epochs st g of
        Some e \<Rightarrow>
          let q = fst (arts_atomic_fetch_and_u64 (queued e) EPOCH_MASK) in
          (case arts_atomic_cswap_u64 q 0 EPOCH_BIT of
             (q', old) \<Rightarrow>
               let st = put_epoch g (e\<lparr>queued := q'\<rparr>) st
               in if old = 0
                  then ep_emit (Epoch_Send dest g (EPOCH_ACTIVE (epoch_counts e)) (EPOCH_FINISHED (epoch_counts e))) st
                  else st)
      | None \<Rightarrow> ep_emit (Oo_Send_Epoch g source dest) st)"

section \<open>Rounds\<close>

text \<open>The result is the epoch, the node and whether another round is wanted.\<close>

definition check_epoch :: "epoch \<Rightarrow> u32 \<Rightarrow> u32 \<Rightarrow> epoch_node \<Rightarrow> epoch \<times> epoch_node \<times> bool" where
  "check_epoch e total_active total_finish st =
     (let diff = total_active - total_finish in
      if total_finish \<noteq> 0 \<and> diff = 0 then
        if arts_global_rank_count (ecfg st) = 1 then
          (case arts_atomic_cswap (phase e) PHASE_1 PHASE_3 of
             (p, old) \<Rightarrow>
               let e = e\<lparr>phase := p\<rparr> in
               if old = PHASE_1
               then let e = e\<lparr>completed := 1\<rparr> in (e, fire_epoch e total_finish st, False)
               else (e, st, False))
        else if phase e = PHASE_2 \<and> last_active_count e = total_active \<and> last_finished_count e = total_finish then
          (case arts_atomic_cswap (phase e) PHASE_2 PHASE_3 of
             (p, old) \<Rightarrow>
               let e = e\<lparr>phase := p\<rparr> in
               if old = PHASE_2
               then let e = e\<lparr>completed := 1\<rparr> in (e, fire_epoch e total_finish st, False)
               else (e, st, False))
        else (e\<lparr>last_active_count := total_active, last_finished_count := total_finish, phase := PHASE_2\<rparr>, st, True)
      else (e\<lparr>phase := PHASE_1\<rparr>, st, queued e = 0))"

definition reduce_epoch :: "arts_guid_t \<Rightarrow> u32 \<Rightarrow> u32 \<Rightarrow> epoch_node \<Rightarrow> epoch_node res" where
  "reduce_epoch g active finish st =
     (case epochs st g of
        None \<Rightarrow> Inr st
      | Some e \<Rightarrow>
          if outstanding e \<le> 1 then Inr st
          else
            let (ga, total_active) = arts_atomic_add (global_active_count e) active;
                (gf, total_finish) = arts_atomic_add (global_finished_count e) finish;
                outstanding_before = outstanding e;
                outstanding_after = outstanding_before - 1;
                e = e\<lparr>global_active_count := ga, global_finished_count := gf,
                      outstanding := fst (arts_atomic_cswap_u64 (outstanding e) outstanding_before outstanding_after)\<rparr>
            in if outstanding_after = 1 then
                 let total_active = total_active + EPOCH_ACTIVE (epoch_counts e);
                     total_finish = total_finish + EPOCH_FINISHED (epoch_counts e);
                     e = e\<lparr>global_active_count := 0, global_finished_count := 0\<rparr>;
                     (e, st, again) = check_epoch e total_active total_finish st;
                     (e, st) =
                       (if again then
                          let e = e\<lparr>outstanding := fst (arts_atomic_add_u64 (outstanding e)
                                      (ucast (arts_global_rank_count (ecfg st) - 1)))\<rparr>
                          in (e, broadcast_epoch_request g (put_epoch g e st))
                        else let e = e\<lparr>outstanding := fst (arts_atomic_sub_u64 (outstanding e) 1)\<rparr>
                             in (e, put_epoch g e st))
                 in if phase e = PHASE_3 then delete_epoch g e st else Inr st
               else Inr (put_epoch g e st))"

section \<open>Creation\<close>

definition new_epoch :: "arts_guid_t \<Rightarrow> arts_guid_t \<Rightarrow> u32 \<Rightarrow> arts_guid_t \<Rightarrow> bool \<Rightarrow> epoch" where
  "new_epoch g edt slot pool is_local =
     \<lparr>epoch_counts = 0, phase = PHASE_1, completed = 0, global_active_count = 0, global_finished_count = 0,
      last_active_count = 0, last_finished_count = 0, queued = (if is_local then 0 else EPOCH_BIT),
      outstanding = 0, termination_exit_slot = slot, termination_exit_guid = edt, epguid = g, pool_guid = pool\<rparr>"

text \<open>Adding an epoch to the route table replays what was parked on its GUID.\<close>

definition add_epoch :: "arts_guid_t \<Rightarrow> epoch \<Rightarrow> epoch_node \<Rightarrow> epoch_node" where
  "add_epoch g e st =
     ep_emit (Fire_Oo_Epoch g) (if epochs st g = None then put_epoch g e st else st)"

definition create_epoch ::
    "thread_info \<Rightarrow> arts_guid_t \<Rightarrow> arts_guid_t \<Rightarrow> u32 \<Rightarrow> epoch_node \<Rightarrow> (epoch_node \<times> arts_guid_t) res" where
  "create_epoch th guid edt slot st =
     rbind (if guid = NULL_GUID
            then rbind (arts_guid_create_for_rank th (arts_global_rank_id (ecfg st)) (type_code ARTS_EDT) (eguids st))
                   (\<lambda>(gs, g). Inr (st\<lparr>eguids := gs\<rparr>, g))
            else Inr (st, guid)) (\<lambda>(st, g).
       Inr (add_epoch g (new_epoch g edt slot NULL_GUID (arts_guid_is_local (ecfg st) g)) st, g))"

definition arts_shutdown_epoch_inc_active :: "epoch_node \<Rightarrow> epoch_node res" where
  "arts_shutdown_epoch_inc_active st =
     (case auto_shutdown_epoch st of None \<Rightarrow> Inr st
      | Some g \<Rightarrow>
          (case epochs st g of None \<Rightarrow> Inl Null_Deref
           | Some e \<Rightarrow> Inr (put_epoch g (e\<lparr>epoch_counts := fst (arts_atomic_add_u64 (epoch_counts e) EPOCH_ACTIVE_INC)\<rparr>) st)))"

definition arts_shutdown_epoch_inc_queue :: "epoch_node \<Rightarrow> epoch_node res" where
  "arts_shutdown_epoch_inc_queue st =
     (case auto_shutdown_epoch st of None \<Rightarrow> Inr st
      | Some g \<Rightarrow>
          (case epochs st g of None \<Rightarrow> Inl Null_Deref
           | Some e \<Rightarrow> Inr (put_epoch g (e\<lparr>queued := fst (arts_atomic_add_u64 (queued e) 1)\<rparr>) st)))"

definition arts_shutdown_epoch_inc_finished :: "epoch_node \<Rightarrow> epoch_node res" where
  "arts_shutdown_epoch_inc_finished st =
     (case auto_shutdown_epoch st of None \<Rightarrow> Inr st
      | Some g \<Rightarrow>
          (case epochs st g of None \<Rightarrow> Inl Null_Deref
           | Some e \<Rightarrow> increment_finished_epoch_impl (epguid e) e st))"

definition arts_shutdown_epoch_create :: "thread_info \<Rightarrow> u32 \<Rightarrow> epoch_node \<Rightarrow> (epoch_node \<times> bool) res" where
  "arts_shutdown_epoch_create th total_workers st =
     (if auto_shutdown_guid st \<noteq> NULL_GUID then
        rbind (arts_guid_create_for_rank th 0 (type_code ARTS_EDT) (eguids st)) (\<lambda>(gs, g).
          rbind (create_epoch th g NULL_GUID 0 (st\<lparr>eguids := gs, auto_shutdown_guid := g\<rparr>)) (\<lambda>(st, g).
            case epochs st g of
              None \<Rightarrow> Inl Null_Deref
            | Some e \<Rightarrow>
                Inr (put_epoch g
                       (e\<lparr>epoch_counts := fst (arts_atomic_add_u64 (epoch_counts e) (push_bit EPOCH_ACTIVE_SHIFT (ucast total_workers))),
                          queued := fst (arts_atomic_add_u64 (queued e) (ucast total_workers))\<rparr>)
                       (st\<lparr>auto_shutdown_epoch := Some g, auto_shutdown_guid := g\<rparr>), True)))
      else Inr (st, False))"

section \<open>Pools\<close>

abbreviation DEFAULT_EPOCH_POOL_SIZE :: u32 where
  "DEFAULT_EPOCH_POOL_SIZE \<equiv> 4096"

definition create_epoch_pool ::
    "thread_info \<Rightarrow> arts_guid_t \<Rightarrow> u32 \<Rightarrow> arts_guid_t \<Rightarrow> epoch_node \<Rightarrow> (epoch_node \<times> arts_guid_t \<times> arts_guid_t) res" where
  "create_epoch_pool th pguid sz start st =
     (let me = arts_global_rank_id (ecfg st) in
      rbind (if pguid = NULL_GUID
             then arts_guid_create_for_rank th me (type_code ARTS_EDT) (eguids st) else Inr (eguids st, pguid)) (\<lambda>(gs, p).
      rbind (if start = NULL_GUID
             then arts_guid_reserve_range (ecfg st) th ARTS_EDT sz me gs else Inr (gs, start)) (\<lambda>(gs, s).
        let st = st\<lparr>eguids := gs, pools := (pools st)(p \<mapsto> \<lparr>pool_size = sz, pool_index = 0, pool_outstanding = sz, pool_start = s\<rparr>),
                    pool_table := (pool_table st)(p := True)\<rparr>
        in Inr (if arts_guid_is_local (ecfg st) p then st
                else fold (\<lambda>i. let g = arts_guid_from_index s (of_nat i)
                               in add_epoch g (new_epoch g NULL_GUID 0 p False)) [0..<unat sz] st, p, s))))"

definition arts_link_epoch_pool_to_tls :: "arts_guid_t \<Rightarrow> epoch_node \<Rightarrow> epoch_node" where
  "arts_link_epoch_pool_to_tls p st = st\<lparr>thread_pool := p # thread_pool st\<rparr>"

text \<open>The first pool of the thread that has an epoch left.\<close>

fun find_pool :: "epoch_node \<Rightarrow> arts_guid_t list \<Rightarrow> arts_guid_t option res" where
  "find_pool st [] = Inr None"
| "find_pool st (p # ps) =
     (case pools st p of None \<Rightarrow> Inl Null_Deref
      | Some pool \<Rightarrow> if pool_index pool < pool_size pool then Inr (Some p) else find_pool st ps)"

text \<open>
  The epoch handed out is the pool's own entry.  The entries of a pool of another rank are
  in the route table since the pool was created, so setting the exit slot is seen there.
\<close>

definition get_pool_epoch :: "thread_info \<Rightarrow> arts_guid_t \<Rightarrow> u32 \<Rightarrow> epoch_node \<Rightarrow> (epoch_node \<times> arts_guid_t) res" where
  "get_pool_epoch th edt slot st =
     rbind (find_pool st (thread_pool st)) (\<lambda>r.
     rbind (case r of
              Some p \<Rightarrow> Inr (st, p)
            | None \<Rightarrow>
                rbind (create_epoch_pool th NULL_GUID DEFAULT_EPOCH_POOL_SIZE NULL_GUID st) (\<lambda>(st, p, s).
                  Inr (to_others (arts_global_rank_id (ecfg st)) (\<lambda>i. Epoch_Init_Pool i DEFAULT_EPOCH_POOL_SIZE s p)
                         (st\<lparr>thread_pool := thread_pool st @ [p]\<rparr>), p))) (\<lambda>(st, p).
       case pools st p of
         None \<Rightarrow> Inl Null_Deref
       | Some pool \<Rightarrow>
           let g = arts_guid_from_index (pool_start pool) (pool_index pool);
               st = st\<lparr>pools := (pools st)(p \<mapsto> pool\<lparr>pool_index := pool_index pool + 1\<rparr>)\<rparr>
           in Inr (case epochs st g of
                     None \<Rightarrow> add_epoch g (new_epoch g edt slot p (arts_guid_is_local (ecfg st) p)) st
                   | Some e \<Rightarrow>
                       ep_emit (Fire_Oo_Epoch g)
                         (put_epoch g (e\<lparr>termination_exit_guid := edt, termination_exit_slot := slot\<rparr>) st), g)))"

text \<open>
  Used-up pools are freed.  \<open>head_size\<close> is the size of the pool at the head of the list
  once one is kept; until then the head is the pool looked at.
\<close>

fun clean_pools :: "u32 option \<Rightarrow> epoch_node \<Rightarrow> arts_guid_t list \<Rightarrow> (epoch_node \<times> arts_guid_t list) res" where
  "clean_pools head_size st [] = Inr (st, [])"
| "clean_pools head_size st (p # ps) =
     (case pools st p of None \<Rightarrow> Inl Null_Deref
      | Some pool \<Rightarrow>
          let sz = (case head_size of Some z \<Rightarrow> z | None \<Rightarrow> pool_size pool) in
          if pool_index pool = sz \<and> pool_outstanding pool = 0
          then clean_pools head_size (st\<lparr>pools := (pools st)(p := None)\<rparr>) ps
          else rbind (clean_pools (Some sz) st ps) (\<lambda>(st, qs). Inr (st, p # qs)))"

definition clean_epoch_pool :: "epoch_node \<Rightarrow> epoch_node res" where
  "clean_epoch_pool st =
     rbind (clean_pools None st (thread_pool st)) (\<lambda>(st, ps). Inr (st\<lparr>thread_pool := ps\<rparr>))"

section \<open>Starting epochs\<close>

definition start_existing :: "arts_guid_t \<Rightarrow> epoch \<Rightarrow> epoch_node \<Rightarrow> epoch_node" where
  "start_existing g e st =
     put_epoch g (e\<lparr>epoch_counts := fst (arts_atomic_add_u64 (epoch_counts e) EPOCH_ACTIVE_INC),
                    queued := fst (arts_atomic_add_u64 (queued e) 1)\<rparr>)
       (ep_emit (Set_Current_Epoch (epguid e)) st)"

definition arts_initialize_and_start_epoch ::
    "thread_info \<Rightarrow> arts_guid_t \<Rightarrow> u32 \<Rightarrow> epoch_node \<Rightarrow> (epoch_node \<times> arts_guid_t) res" where
  "arts_initialize_and_start_epoch th edt slot st =
     rbind (get_pool_epoch th edt slot st) (\<lambda>(st, g).
       case epochs st g of None \<Rightarrow> Inl Null_Deref | Some e \<Rightarrow> Inr (start_existing g e st, g))"

definition arts_initialize_epoch ::
    "thread_info \<Rightarrow> u32 \<Rightarrow> arts_guid_t \<Rightarrow> u32 \<Rightarrow> epoch_node \<Rightarrow> (epoch_node \<times> arts_guid_t) res" where
  "arts_initialize_epoch th rnk edt slot st =
     (let me = arts_global_rank_id (ecfg st) in
      if \<not> ready_to_execute st \<or> rnk \<noteq> me then
        rbind (arts_guid_create_for_rank th rnk (type_code ARTS_EDT) (eguids st)) (\<lambda>(gs, g).
          rbind (create_epoch th g edt slot (st\<lparr>eguids := gs\<rparr>)) (\<lambda>(st, g).
            Inr (if \<not> ready_to_execute st then to_others me (\<lambda>i. Epoch_Init i g edt slot) st else st, g)))
      else get_pool_epoch th edt slot st)"

definition arts_start_epoch :: "arts_guid_t \<Rightarrow> epoch_node \<Rightarrow> epoch_node" where
  "arts_start_epoch g st =
     (case epochs st g of Some e \<Rightarrow> start_existing g e st | None \<Rightarrow> st)"

section \<open>Message handlers\<close>

text \<open>The handlers of \<^verbatim>\<open>remote/handler.c\<close> for the messages above; \<open>src\<close> is the sender's rank.\<close>

definition arts_remote_handle_epoch_req :: "u32 \<Rightarrow> arts_guid_t \<Rightarrow> epoch_node \<Rightarrow> epoch_node" where
  "arts_remote_handle_epoch_req src g st = send_epoch g src src st"

definition arts_remote_handle_epoch_send :: "arts_guid_t \<Rightarrow> u32 \<Rightarrow> u32 \<Rightarrow> epoch_node \<Rightarrow> epoch_node res" where
  "arts_remote_handle_epoch_send g active finish st = reduce_epoch g active finish st"

definition arts_remote_handle_epoch_delete :: "arts_guid_t \<Rightarrow> epoch_node \<Rightarrow> epoch_node res" where
  "arts_remote_handle_epoch_delete g st =
     (case epochs st g of None \<Rightarrow> Inr st | Some e \<Rightarrow> delete_epoch g e st)"

definition arts_remote_handle_epoch_init_send ::
    "thread_info \<Rightarrow> arts_guid_t \<Rightarrow> arts_guid_t \<Rightarrow> u32 \<Rightarrow> epoch_node \<Rightarrow> epoch_node res" where
  "arts_remote_handle_epoch_init_send th g edt slot st =
     rbind (create_epoch th g edt slot st) (\<lambda>(st, g). Inr st)"

definition arts_remote_handle_epoch_init_pool_send ::
    "thread_info \<Rightarrow> u32 \<Rightarrow> arts_guid_t \<Rightarrow> arts_guid_t \<Rightarrow> epoch_node \<Rightarrow> epoch_node res" where
  "arts_remote_handle_epoch_init_pool_send th sz start p st =
     rbind (create_epoch_pool th p sz start st) (\<lambda>(st, p, s). Inr (arts_link_epoch_pool_to_tls p st))"

end
