(* ===== verification/Epoch_Props.thy ===== *)
theory Epoch_Props
  imports Epoch "HOL-Library.Multiset"
begin

text \<open>
  Correctness of termination detection on one rank: the packed counters, and that an epoch
  ends exactly when its last task finishes.
\<close>

section \<open>The packed counters\<close>

definition packs :: "u64 \<Rightarrow> nat \<Rightarrow> nat \<Rightarrow> bool" where
  "packs c a f \<longleftrightarrow> a < 2 ^ 32 \<and> f < 2 ^ 32 \<and> unat c = a * 2 ^ 32 + f"

lemma packs_0: "packs 0 0 0"
  by (simp add: packs_def)

lemma packs_active:
  assumes "packs c a f"
  shows "EPOCH_ACTIVE c = of_nat a" "drop_bit 32 c = of_nat a"
proof -
  have "unat (drop_bit 32 c) = unat c div 2 ^ 32" by (simp only: unat_drop_bit_eq) (simp only: drop_bit_eq_div)
  then have "unat (drop_bit 32 c) = a" using assms by (simp add: packs_def)
  then show "EPOCH_ACTIVE c = of_nat a" "drop_bit 32 c = of_nat a" by (auto simp: EPOCH_ACTIVE_def)
qed

lemma packs_finished:
  assumes "packs c a f"
  shows "EPOCH_FINISHED c = of_nat f" "c AND 0xFFFFFFFF = of_nat f"
proof -
  have "unat (c AND mask 32) = f" using assms by (simp add: unat_and_mask packs_def)
  moreover have "(0xFFFFFFFF :: u64) = mask 32" by (simp add: mask_eq_exp_minus_1)
  ultimately have "unat (c AND 0xFFFFFFFF) = f" by simp
  then show "EPOCH_FINISHED c = of_nat f" "c AND 0xFFFFFFFF = of_nat f" by (auto simp: EPOCH_FINISHED_def)
qed

lemma packs_inc_active:
  assumes "packs c a f" "a + 1 < 2 ^ 32"
  shows "packs (c + EPOCH_ACTIVE_INC) (a + 1) f"
proof -
  have i: "unat EPOCH_ACTIVE_INC = 2 ^ 32" by (simp add: EPOCH_ACTIVE_INC_def)
  have "(a + 1) * 2 ^ 32 \<le> (2 ^ 32 - 1) * 2 ^ 32" using assms(2) by (intro mult_le_mono) simp_all
  then have "a * 2 ^ 32 + f + 2 ^ 32 < 2 ^ 64" using assms(1) by (simp add: packs_def)
  then have "unat (c + EPOCH_ACTIVE_INC) = unat c + 2 ^ 32"
    using assms(1) i by (subst unat_add_lt) (simp_all add: packs_def)
  then show ?thesis using assms by (simp add: packs_def)
qed

lemma packs_inc_finished:
  assumes "packs c a f" "f + 1 < 2 ^ 32"
  shows "packs (c + 1) a (f + 1)"
proof -
  have "a * 2 ^ 32 \<le> (2 ^ 32 - 1) * 2 ^ 32" using assms(1) by (intro mult_le_mono) (simp_all add: packs_def)
  then have "a * 2 ^ 32 + f + 1 < 2 ^ 64" using assms by simp
  then have "unat (c + 1) = unat c + 1" using assms(1) by (subst unat_add_lt) (simp_all add: packs_def)
  then show ?thesis using assms by (simp add: packs_def)
qed

lemma packs_snapshot:
  assumes "packs c a f" "f + 1 < 2 ^ 32"
  shows "ucast ((c AND 0xFFFFFFFF) + 1) = (of_nat (f + 1) :: u32)" "ucast (drop_bit 32 c) = (of_nat a :: u32)"
proof -
  have "unat ((c AND 0xFFFFFFFF) + 1) = f + 1"
    using assms packs_finished(2) [OF assms(1)] by (subst unat_add_lt) (simp_all add: unat_of_nat_lt)
  then show "ucast ((c AND 0xFFFFFFFF) + 1) = (of_nat (f + 1) :: u32)"
    by (metis of_nat_unat)
  show "ucast (drop_bit 32 c) = (of_nat a :: u32)" using packs_active(1) [OF assms(1)] by (simp add: EPOCH_ACTIVE_def)
qed

lemma epoch_node_simps [simp]:
  "epochs (ep_emit x st) = epochs st" "ep_effects (ep_emit x st) = ep_effects st @ [x]" "ecfg (ep_emit x st) = ecfg st"
  "epochs (put_epoch g e st) = (epochs st)(g := Some e)" "ep_effects (put_epoch g e st) = ep_effects st"
  "ecfg (put_epoch g e st) = ecfg st"
  "epochs (remove_epoch g st) = (epochs st)(g := None)" "ep_effects (remove_epoch g st) = ep_effects st"
  "ecfg (remove_epoch g st) = ecfg st"
  by (simp_all add: ep_emit_def put_epoch_def remove_epoch_def)

section \<open>One rank\<close>

text \<open>A running task of the epoch spawns another one, or finishes.\<close>

datatype task_op = Spawn | Finish

fun task_step :: "arts_guid_t \<Rightarrow> task_op \<Rightarrow> epoch_node \<Rightarrow> epoch_node res" where
  "task_step g Spawn st = Inr (increment_active_epoch g st)"
| "task_step g Finish st = increment_finished_epoch g st"

fun spawns :: "task_op list \<Rightarrow> nat" where
  "spawns [] = 0"
| "spawns (Spawn # ops) = Suc (spawns ops)"
| "spawns (Finish # ops) = spawns ops"

fun finishes :: "task_op list \<Rightarrow> nat" where
  "finishes [] = 0"
| "finishes (Spawn # ops) = finishes ops"
| "finishes (Finish # ops) = Suc (finishes ops)"

text \<open>Every operation is done by one of the tasks that are left, \<open>n\<close> of them at the start.\<close>

fun by_live_tasks :: "nat \<Rightarrow> task_op list \<Rightarrow> bool" where
  "by_live_tasks n [] = True"
| "by_live_tasks n (Spawn # ops) = (0 < n \<and> by_live_tasks (Suc n) ops)"
| "by_live_tasks n (Finish # ops) = (0 < n \<and> by_live_tasks (n - 1) ops)"

definition live_left :: "task_op list \<Rightarrow> nat" where
  "live_left ops = 1 + spawns ops - finishes ops"

lemma task_ops_append [simp]:
  "spawns (xs @ ys) = spawns xs + spawns ys" "finishes (xs @ ys) = finishes xs + finishes ys"
  by (induction xs rule: spawns.induct) simp_all

lemma by_live_append:
  "by_live_tasks n (xs @ ys) \<longleftrightarrow> by_live_tasks n xs \<and> by_live_tasks (n + spawns xs - finishes xs) ys"
  by (induction n xs rule: by_live_tasks.induct) (auto simp: Suc_diff_le)

lemma by_live_bound: "by_live_tasks n xs \<Longrightarrow> finishes xs \<le> n + spawns xs"
  by (induction n xs rule: by_live_tasks.induct) auto

definition single_inv :: "arts_guid_t \<Rightarrow> arts_guid_t \<Rightarrow> u32 \<Rightarrow> epoch_effect list \<Rightarrow> task_op list \<Rightarrow> epoch_node \<Rightarrow> bool" where
  "single_inv g x slot ef ops st \<longleftrightarrow>
     arts_global_rank_count (ecfg st) = 1 \<and> arts_global_rank_id (ecfg st) = 0 \<and>
     (if live_left ops = 0 then
        epochs st g = None \<and> ep_effects st = ef @ [Signal_Value x slot (of_nat (finishes ops))]
      else ep_effects st = ef \<and>
        (\<exists>e. epochs st g = Some e \<and> packs (epoch_counts e) (1 + spawns ops) (finishes ops) \<and> phase e = PHASE_1 \<and>
           termination_exit_guid e = x \<and> termination_exit_slot e = slot \<and> pool_guid e = NULL_GUID))"

lemma to_others_single: "arts_global_rank_count (ecfg st) = 1 \<Longrightarrow> to_others 0 m st = st"
  by (simp add: to_others_def)

lemma single_spawn:
  assumes "single_inv g x slot ef ops st" "0 < live_left ops" "spawns ops + 2 < 2 ^ 32"
  shows "single_inv g x slot ef (ops @ [Spawn]) (increment_active_epoch g st)"
  using assms packs_inc_active [of _ "1 + spawns ops" "finishes ops"]
  by (auto simp: single_inv_def increment_active_epoch_def arts_atomic_add_u64_def live_left_def)

lemma single_finish:
  assumes "single_inv g x slot ef ops st" "0 < live_left ops" "spawns ops + 2 < 2 ^ 32"
    "x \<noteq> NULL_GUID" "g \<noteq> NULL_GUID" "finishes ops < 1 + spawns ops"
  shows "\<exists>st'. increment_finished_epoch g st = Inr st' \<and> single_inv g x slot ef (ops @ [Finish]) st'"
proof -
  obtain e where e: "epochs st g = Some e" "packs (epoch_counts e) (1 + spawns ops) (finishes ops)" "phase e = PHASE_1"
    "termination_exit_guid e = x" "termination_exit_slot e = slot" "pool_guid e = NULL_GUID" "ep_effects st = ef"
    "arts_global_rank_count (ecfg st) = 1" "arts_global_rank_id (ecfg st) = 0"
    using assms(1,2) by (auto simp: single_inv_def)
  have f: "finishes ops + 1 < 2 ^ 32" using assms(3,6) by simp
  note p = packs_inc_finished [OF e(2) f] packs_snapshot [OF e(2) f]
  have eq: "(of_nat (finishes ops + 1) = (of_nat (1 + spawns ops) :: u32)) \<longleftrightarrow> finishes ops = spawns ops"
    using f assms(3) by (simp add: word_unat_eq_iff unat_of_nat_lt del: of_nat_Suc of_nat_add)
  have pos: "(0 :: u32) < of_nat (finishes ops + 1)"
    using f by (simp add: word_less_nat_alt unat_of_nat_lt del: of_nat_Suc of_nat_add)
  show ?thesis
  proof (cases "finishes ops = spawns ops")
    case True
    then show ?thesis using e p eq pos assms(4,5) to_others_single
      by (simp add: increment_finished_epoch_def increment_finished_epoch_impl_def arts_atomic_fetch_add_u64_def
          arts_atomic_cswap_def delete_epoch_def fire_epoch_def single_inv_def live_left_def Let_def
          del: of_nat_Suc of_nat_add)
  next
    case False
    then show ?thesis using e p eq assms(4,5,6)
      by (simp add: increment_finished_epoch_def increment_finished_epoch_impl_def arts_atomic_fetch_add_u64_def
          single_inv_def live_left_def Let_def del: of_nat_Suc of_nat_add)
  qed
qed

lemma single_run:
  assumes "single_inv g x slot ef [] st" "by_live_tasks 1 ops" "spawns ops + 2 < 2 ^ 32" "x \<noteq> NULL_GUID" "g \<noteq> NULL_GUID"
  shows "\<exists>st'. each (task_step g) ops st = Inr st' \<and> single_inv g x slot ef ops st'"
  using assms(2,3)
proof (induction ops rule: rev_induct)
  case (snoc op ops)
  have live: "by_live_tasks 1 ops" "0 < live_left ops"
    using snoc.prems(1) by (cases op; simp add: by_live_append live_left_def)+
  have s: "spawns ops + 2 < 2 ^ 32" using snoc.prems(2) by simp
  obtain st1 where st1: "each (task_step g) ops st = Inr st1" "single_inv g x slot ef ops st1"
    using snoc.IH [OF live(1) s] by blast
  have "finishes ops < 1 + spawns ops" using live(2) by (simp add: live_left_def)
  then have "\<exists>st'. task_step g op st1 = Inr st' \<and> single_inv g x slot ef (ops @ [op]) st'"
    using single_spawn [OF st1(2) live(2) s] single_finish [OF st1(2) live(2) s assms(4,5)] by (cases op) auto
  then show ?case using st1(1) by (auto simp: each_append)
qed (use assms(1) in auto)

section \<open>Properties\<close>

text \<open>
  C13.  An epoch on one rank ends exactly when its last task finishes.  An epoch is
  started by one task; tasks of the epoch spawn and finish in any order.  As long as a
  task is left nothing is signalled; the finish of the last one signals the exit slot
  once, with the number of tasks, and removes the epoch.
\<close>

theorem epoch_ends_with_last_task:
  assumes "epochs st g = Some (new_epoch g x slot NULL_GUID l)" "g \<noteq> NULL_GUID" "x \<noteq> NULL_GUID"
    "arts_global_rank_count (ecfg st) = 1" "arts_global_rank_id (ecfg st) = 0"
    "by_live_tasks 1 ops" "spawns ops + 2 < 2 ^ 32"
  shows "\<exists>st'. each (task_step g) ops (arts_start_epoch g st) = Inr st' \<and>
    ep_effects st' = ep_effects st @ [Set_Current_Epoch g] @
      (if live_left ops = 0 then [Signal_Value x slot (of_nat (1 + spawns ops))] else []) \<and>
    (epochs st' g = None \<longleftrightarrow> live_left ops = 0)"
proof -
  have "single_inv g x slot (ep_effects st @ [Set_Current_Epoch g]) [] (arts_start_epoch g st)"
    using assms(1,4,5) packs_inc_active [OF packs_0]
    by (simp add: single_inv_def arts_start_epoch_def start_existing_def new_epoch_def arts_atomic_add_u64_def live_left_def)
  from single_run [OF this assms(6,7,3,2)] obtain st' where st':
    "each (task_step g) ops (arts_start_epoch g st) = Inr st'"
    "single_inv g x slot (ep_effects st @ [Set_Current_Epoch g]) ops st'" by blast
  have "finishes ops = 1 + spawns ops" if "live_left ops = 0"
    using that by_live_bound [OF assms(6)] by (simp add: live_left_def)
  then show ?thesis using st' by (auto simp: single_inv_def simp del: of_nat_Suc of_nat_add)
qed

definition demo_epoch_node :: epoch_node where
  "demo_epoch_node = \<lparr>ecfg = demo_cfg\<lparr>arts_global_rank_count := 1\<rparr>,
     epochs = (\<lambda>g. if g = 5 then Some (new_epoch 5 7 3 NULL_GUID True) else None),
     pools = (\<lambda>_. None), pool_table = (\<lambda>_. False), thread_pool = [], eguids = guid_state_init,
     auto_shutdown_guid = NULL_GUID, auto_shutdown_epoch = None, ready_to_execute = True, ep_effects = []\<rparr>"

theorem epoch_ends_with_last_task_witness:
  "\<exists>st'. each (task_step 5) [Spawn, Finish, Finish] (arts_start_epoch 5 demo_epoch_node) = Inr st' \<and>
     ep_effects st' = [Set_Current_Epoch 5, Signal_Value 7 3 2]"
  using epoch_ends_with_last_task [of demo_epoch_node 5 7 3 True "[Spawn, Finish, Finish]"]
  by (auto simp: demo_epoch_node_def live_left_def demo_cfg_def)

end
