(* ===== verification/Epoch_Cluster.thy ===== *)
theory Epoch_Cluster
  imports Epoch_Props
begin

text \<open>
  Termination detection across ranks.  A cluster is one node per rank, the tasks of one
  epoch on every rank and the messages in flight.  Its steps are the calls of
  \<^verbatim>\<open>sync/termination.c\<close> made when a task is created, becomes ready and finishes, and
  the delivery of a message to its handler, in any order.
\<close>

section \<open>Clusters\<close>

text \<open>
  \<open>waiting_on i\<close> counts the tasks on rank \<open>i\<close> that are created and not ready, \<open>running i\<close>
  the ready ones.  A message in flight carries the rank that sent it.
\<close>

record epoch_cluster =
  nodes :: "nat \<Rightarrow> epoch_node"
  waiting_on :: "nat \<Rightarrow> nat"
  running :: "nat \<Rightarrow> nat"
  created :: nat
  net :: "(nat \<times> epoch_effect) multiset"

text \<open>A call on rank \<open>i\<close> leaves the node \<open>st\<close>; the effects it recorded go to the network.\<close>

definition absorb :: "nat \<Rightarrow> epoch_node \<Rightarrow> epoch_cluster \<Rightarrow> epoch_cluster" where
  "absorb i st c =
     c\<lparr>nodes := (nodes c)(i := st\<lparr>ep_effects := []\<rparr>),
       net := net c + image_mset (Pair i) (mset (ep_effects st))\<rparr>"

definition drop_msg :: "nat \<times> epoch_effect \<Rightarrow> epoch_cluster \<Rightarrow> epoch_cluster" where
  "drop_msg m c = c\<lparr>net := net c - {#m#}\<rparr>"

inductive cluster_step :: "arts_guid_t \<Rightarrow> nat \<Rightarrow> epoch_cluster \<Rightarrow> epoch_cluster \<Rightarrow> bool" for g n where
  Spawn_On: "cluster_step g n c
      ((absorb i (increment_active_epoch g (nodes c i)) c)
         \<lparr>waiting_on := (waiting_on c)(j := waiting_on c j + 1), created := created c + 1\<rparr>)"
    if "i < n" "j < n" "0 < running c i" "created c + 2 < 2 ^ 32"
| Ready_On: "cluster_step g n c
      ((absorb j (increment_queue_epoch g (nodes c j)) c)
         \<lparr>waiting_on := (waiting_on c)(j := waiting_on c j - 1), running := (running c)(j := running c j + 1)\<rparr>)"
    if "j < n" "0 < waiting_on c j"
| Finish_On: "cluster_step g n c ((absorb j st c)\<lparr>running := (running c)(j := running c j - 1)\<rparr>)"
    if "j < n" "0 < running c j" "increment_finished_epoch g (nodes c j) = Inr st"
| Request: "cluster_step g n c
      (absorb i (arts_remote_handle_epoch_req (of_nat k) g (nodes c i)) (drop_msg (k, Epoch_Req (of_nat i) g) c))"
    if "i < n" "(k, Epoch_Req (of_nat i) g) \<in># net c"
| Response: "cluster_step g n c (absorb j st (drop_msg (k, Epoch_Send (of_nat j) g y z) c))"
    if "j < n" "(k, Epoch_Send (of_nat j) g y z) \<in># net c"
      "arts_remote_handle_epoch_send g y z (nodes c j) = Inr st"
| Remove: "cluster_step g n c (absorb i st (drop_msg (k, Epoch_Delete (of_nat i) g) c))"
    if "i < n" "(k, Epoch_Delete (of_nat i) g) \<in># net c"
      "arts_remote_handle_epoch_delete g (nodes c i) = Inr st"

text \<open>Every rank has the epoch of owner \<open>w\<close>, and the task that started it runs on the owner.\<close>

definition cluster_start :: "arts_guid_t \<Rightarrow> nat \<Rightarrow> nat \<Rightarrow> arts_guid_t \<Rightarrow> u32 \<Rightarrow> epoch_cluster \<Rightarrow> bool" where
  "cluster_start g w n x slot c \<longleftrightarrow>
     (\<forall>i<n. arts_global_rank_id (ecfg (nodes c i)) = of_nat i \<and> arts_global_rank_count (ecfg (nodes c i)) = of_nat n \<and>
        (\<exists>st. epochs st g = Some (new_epoch g x slot NULL_GUID (i = w)) \<and>
           nodes c i = (if i = w then arts_start_epoch g st else st)\<lparr>ep_effects := []\<rparr>)) \<and>
     waiting_on c = (\<lambda>_. 0) \<and> running c = (\<lambda>i. if i = w then 1 else 0) \<and> created c = 1 \<and> net c = {#}"

definition quiet :: "nat \<Rightarrow> epoch_cluster \<Rightarrow> bool" where
  "quiet n c \<longleftrightarrow> (\<forall>i<n. running c i = 0 \<and> waiting_on c i = 0)"

fun is_signal :: "nat \<times> epoch_effect \<Rightarrow> bool" where
  "is_signal (i, Signal_Value x slot v) = True"
| "is_signal m = False"

definition signals :: "epoch_cluster \<Rightarrow> (nat \<times> epoch_effect) multiset" where
  "signals c = filter_mset is_signal (net c)"

text \<open>The epoch \<open>g\<close> belongs to rank \<open>w\<close> of \<open>n\<close> ranks and has an exit slot to signal.\<close>

definition cluster_params :: "arts_guid_t \<Rightarrow> nat \<Rightarrow> nat \<Rightarrow> arts_guid_t \<Rightarrow> bool" where
  "cluster_params g w n x \<longleftrightarrow>
     g \<noteq> NULL_GUID \<and> x \<noteq> NULL_GUID \<and> 2 \<le> n \<and> n \<le> 2 ^ 16 \<and> w < n \<and> arts_guid_get_rank g = of_nat w"

section \<open>Words\<close>

lemma queue_words:
  assumes "r < 2 ^ 32"
  shows "of_nat r + EPOCH_BIT \<noteq> 1" "of_nat r + EPOCH_BIT \<noteq> 0" "((of_nat r :: u64) = 1) = (r = 1)" "((of_nat r :: u64) = 0) = (r = 0)"
    "(of_nat r + EPOCH_BIT) AND EPOCH_MASK = of_nat r"
proof -
  have r: "unat (of_nat r :: u64) = r" using assms by (simp add: unat_of_nat_lt)
  have u: "unat (of_nat r + EPOCH_BIT) = r + 2 ^ 63" using assms r by (subst unat_add_lt) simp_all
  show "of_nat r + EPOCH_BIT \<noteq> 1" "of_nat r + EPOCH_BIT \<noteq> 0" using u by (auto simp: word_unat_eq_iff)
  show "((of_nat r :: u64) = 1) = (r = 1)" "((of_nat r :: u64) = 0) = (r = 0)" using r by (auto simp: word_unat_eq_iff)
  have "unat ((of_nat r + EPOCH_BIT) AND mask 63) = r" using u assms by (simp add: unat_and_mask)
  moreover have "EPOCH_MASK = mask 63" by (simp add: mask_eq_exp_minus_1)
  ultimately have "unat ((of_nat r + EPOCH_BIT) AND EPOCH_MASK) = r" by simp
  then show "(of_nat r + EPOCH_BIT) AND EPOCH_MASK = of_nat r" using r by (simp add: word_unat_eq_iff)
qed

lemma of_nat_rank_inj: "i < 2 ^ 32 \<Longrightarrow> j < 2 ^ 32 \<Longrightarrow> ((of_nat i :: u32) = of_nat j) = (i = j)"
  by (simp add: word_unat_eq_iff unat_of_nat_lt)

lemma to_others_effects:
  "ep_effects (to_others r m st) =
     ep_effects st @ map m (filter (\<lambda>i. i \<noteq> r) (map of_nat [0..<unat (arts_global_rank_count (ecfg st))]))"
  "epochs (to_others r m st) = epochs st" "ecfg (to_others r m st) = ecfg st"
proof -
  have "ep_effects (fold (\<lambda>i. ep_emit (m i)) xs st) = ep_effects st @ map m xs \<and>
      epochs (fold (\<lambda>i. ep_emit (m i)) xs st) = epochs st \<and> ecfg (fold (\<lambda>i. ep_emit (m i)) xs st) = ecfg st" for xs
    by (induction xs arbitrary: st) simp_all
  then show "ep_effects (to_others r m st) =
      ep_effects st @ map m (filter (\<lambda>i. i \<noteq> r) (map of_nat [0..<unat (arts_global_rank_count (ecfg st))]))"
    "epochs (to_others r m st) = epochs st" "ecfg (to_others r m st) = ecfg st" unfolding to_others_def by blast+
qed

section \<open>The invariant\<close>

text \<open>
  Where a rank other than the owner is in the current round: asked, putting the answer off
  until its queue drains, answered, or counted by the owner.  Between rounds every rank is
  counted, with nothing.
\<close>

datatype round_state = Requested | Holding | Answered nat nat | Counted nat nat

fun is_counted :: "round_state \<Rightarrow> bool" where
  "is_counted (Counted y z) = True"
| "is_counted s = False"

fun counted_active :: "round_state \<Rightarrow> nat" where
  "counted_active (Counted y z) = y"
| "counted_active s = 0"

fun counted_finished :: "round_state \<Rightarrow> nat" where
  "counted_finished (Counted y z) = z"
| "counted_finished s = 0"

text \<open>The counts a rank has reported satisfy \<open>P\<close>.\<close>

fun reported :: "(nat \<Rightarrow> nat \<Rightarrow> bool) \<Rightarrow> round_state \<Rightarrow> bool" where
  "reported P (Answered y z) = P y z"
| "reported P (Counted y z) = P y z"
| "reported P s = True"

fun round_msgs :: "arts_guid_t \<Rightarrow> nat \<Rightarrow> nat \<Rightarrow> round_state \<Rightarrow> (nat \<times> epoch_effect) multiset" where
  "round_msgs g w i Requested = {#(w, Epoch_Req (of_nat i) g)#}"
| "round_msgs g w i (Answered y z) = {#(i, Epoch_Send (of_nat w) g (of_nat y) (of_nat z))#}"
| "round_msgs g w i s = {#}"

definition others :: "nat \<Rightarrow> nat \<Rightarrow> nat set" where
  "others w n = {..<n} - {w}"

definition open_ranks :: "nat \<Rightarrow> nat \<Rightarrow> (nat \<Rightarrow> round_state) \<Rightarrow> nat set" where
  "open_ranks w n s = {i \<in> others w n. \<not> is_counted (s i)}"

definition ranks_ok :: "arts_guid_t \<Rightarrow> nat \<Rightarrow> nat \<Rightarrow> arts_guid_t \<Rightarrow> u32 \<Rightarrow> (nat \<Rightarrow> epoch) \<Rightarrow> epoch_cluster \<Rightarrow> bool" where
  "ranks_ok g w n x slot E c \<longleftrightarrow>
     (\<forall>i<n. arts_global_rank_id (ecfg (nodes c i)) = of_nat i \<and> arts_global_rank_count (ecfg (nodes c i)) = of_nat n \<and>
        ep_effects (nodes c i) = [] \<and> epochs (nodes c i) g = Some (E i) \<and> pool_guid (E i) = NULL_GUID) \<and>
     termination_exit_guid (E w) = x \<and> termination_exit_slot (E w) = slot"

text \<open>The counters of the ranks, \<open>a i\<close> created and \<open>f i\<close> finished, account for all tasks.\<close>

definition tasks_ok :: "nat \<Rightarrow> (nat \<Rightarrow> epoch) \<Rightarrow> (nat \<Rightarrow> nat) \<Rightarrow> (nat \<Rightarrow> nat) \<Rightarrow> epoch_cluster \<Rightarrow> bool" where
  "tasks_ok n E a f c \<longleftrightarrow>
     (\<forall>i<n. packs (epoch_counts (E i)) (a i) (f i)) \<and> sum a {..<n} = created c \<and>
     created c = sum f {..<n} + sum (waiting_on c) {..<n} + sum (running c) {..<n} \<and> created c + 1 < 2 ^ 32"

definition queues_ok :: "nat \<Rightarrow> nat \<Rightarrow> (nat \<Rightarrow> epoch) \<Rightarrow> (nat \<Rightarrow> round_state) \<Rightarrow> epoch_cluster \<Rightarrow> bool" where
  "queues_ok w n E s c \<longleftrightarrow>
     (\<forall>i<n. queued (E i) = of_nat (running c i) + (if i = w \<or> s i = Holding then 0 else EPOCH_BIT)) \<and>
     (\<forall>i\<in>others w n. s i = Holding \<longrightarrow> 0 < running c i) \<and>
     (open_ranks w n s = {} \<longrightarrow> 0 < running c w)"

definition round_ok :: "arts_guid_t \<Rightarrow> nat \<Rightarrow> nat \<Rightarrow> (nat \<Rightarrow> epoch) \<Rightarrow> (nat \<Rightarrow> nat) \<Rightarrow> (nat \<Rightarrow> nat) \<Rightarrow>
    (nat \<Rightarrow> round_state) \<Rightarrow> epoch_cluster \<Rightarrow> bool" where
  "round_ok g w n E a f s c \<longleftrightarrow>
     net c = (\<Sum>i\<in>others w n. round_msgs g w i (s i)) \<and>
     outstanding (E w) = (if open_ranks w n s = {} then 0 else of_nat (card (open_ranks w n s) + 1)) \<and>
     global_active_count (E w) = of_nat (\<Sum>i\<in>others w n. counted_active (s i)) \<and>
     global_finished_count (E w) = of_nat (\<Sum>i\<in>others w n. counted_finished (s i)) \<and>
     (open_ranks w n s = {} \<longrightarrow> (\<forall>i\<in>others w n. s i = Counted 0 0)) \<and>
     (\<forall>i\<in>others w n. reported (\<lambda>y z. y \<le> a i \<and> z \<le> f i) (s i))"

text \<open>
  The second round confirms the first.  Let \<open>aT i\<close> be the tasks rank \<open>i\<close> had created, and
  \<open>FT\<close> all tasks that had finished, when the first round ended.  What the first round saw
  is at most \<open>FT\<close>, what the second one reports is at least \<open>aT\<close>, and if all of \<open>aT\<close> had
  finished then nothing has happened since.
\<close>

definition confirming :: "nat \<Rightarrow> nat \<Rightarrow> (nat \<Rightarrow> epoch) \<Rightarrow> (nat \<Rightarrow> nat) \<Rightarrow> (nat \<Rightarrow> round_state) \<Rightarrow> epoch_cluster \<Rightarrow>
    (nat \<Rightarrow> nat) \<Rightarrow> nat \<Rightarrow> bool" where
  "confirming w n E a s c aT FT \<longleftrightarrow>
     last_active_count (E w) = last_finished_count (E w) \<and> unat (last_finished_count (E w)) \<le> FT \<and>
     FT \<le> sum aT {..<n} \<and> (\<forall>i<n. aT i \<le> a i) \<and>
     (sum aT {..<n} = FT \<longrightarrow> quiet n c \<and> sum a {..<n} = FT) \<and>
     (\<forall>i\<in>others w n. reported (\<lambda>y z. aT i \<le> y) (s i))"

definition phase_ok :: "nat \<Rightarrow> nat \<Rightarrow> (nat \<Rightarrow> epoch) \<Rightarrow> (nat \<Rightarrow> nat) \<Rightarrow> (nat \<Rightarrow> round_state) \<Rightarrow> epoch_cluster \<Rightarrow> bool" where
  "phase_ok w n E a s c \<longleftrightarrow>
     phase (E w) = PHASE_1 \<or>
     phase (E w) = PHASE_2 \<and> open_ranks w n s \<noteq> {} \<and> (\<exists>aT FT. confirming w n E a s c aT FT)"

definition cluster_inv :: "arts_guid_t \<Rightarrow> nat \<Rightarrow> nat \<Rightarrow> arts_guid_t \<Rightarrow> u32 \<Rightarrow> (nat \<Rightarrow> epoch) \<Rightarrow> (nat \<Rightarrow> nat) \<Rightarrow>
    (nat \<Rightarrow> nat) \<Rightarrow> (nat \<Rightarrow> round_state) \<Rightarrow> epoch_cluster \<Rightarrow> bool" where
  "cluster_inv g w n x slot E a f s c \<longleftrightarrow>
     ranks_ok g w n x slot E c \<and> tasks_ok n E a f c \<and> queues_ok w n E s c \<and> round_ok g w n E a f s c \<and> phase_ok w n E a s c"

text \<open>The epoch has ended: one signal is out, and only deletions are in flight.\<close>

definition ended :: "arts_guid_t \<Rightarrow> nat \<Rightarrow> nat \<Rightarrow> arts_guid_t \<Rightarrow> u32 \<Rightarrow> epoch_cluster \<Rightarrow> bool" where
  "ended g w n x slot c \<longleftrightarrow>
     quiet n c \<and> epochs (nodes c w) g = None \<and> size (net c) \<le> n \<and>
     (\<forall>i<n. ep_effects (nodes c i) = [] \<and> arts_global_rank_id (ecfg (nodes c i)) = of_nat i \<and>
        (\<forall>e. epochs (nodes c i) g = Some e \<longrightarrow> pool_guid e = NULL_GUID)) \<and>
     (\<exists>D. net c = add_mset (w, Signal_Value x slot (of_nat (created c))) D \<and> (\<forall>m\<in>#D. \<exists>k i. m = (k, Epoch_Delete i g)))"

lemmas cluster_defs = cluster_inv_def ranks_ok_def tasks_ok_def queues_ok_def round_ok_def phase_ok_def confirming_def

section \<open>Steps of tasks\<close>

lemma absorb_simps [simp]:
  "nodes (absorb i st c) = (nodes c)(i := st\<lparr>ep_effects := []\<rparr>)"
  "net (absorb i st c) = net c + image_mset (Pair i) (mset (ep_effects st))"
  "waiting_on (absorb i st c) = waiting_on c" "running (absorb i st c) = running c" "created (absorb i st c) = created c"
  "nodes (drop_msg m c) = nodes c" "net (drop_msg m c) = net c - {#m#}"
  "waiting_on (drop_msg m c) = waiting_on c" "running (drop_msg m c) = running c" "created (drop_msg m c) = created c"
  by (simp_all add: absorb_def drop_msg_def)

lemma sum_upd_nat:
  fixes h :: "nat \<Rightarrow> nat"
  assumes "i < n"
  shows "sum (h(i := v)) {..<n} + h i = sum h {..<n} + v"
proof -
  have "sum (h(i := v)) {..<n} = v + sum h ({..<n} - {i})"
    using assms by (subst sum.remove [of _ i]) (auto intro: sum.cong)
  moreover have "sum h {..<n} = h i + sum h ({..<n} - {i})" using assms by (subst sum.remove [of _ i]) auto
  ultimately show ?thesis by simp
qed

lemma rank_le_sum: "i < n \<Longrightarrow> h i \<le> sum h {..<n}" for h :: "nat \<Rightarrow> nat"
  by (simp add: member_le_sum)

lemma others_simps [simp]: "finite (others w n)" "i \<in> others w n \<longleftrightarrow> i < n \<and> i \<noteq> w" "finite (open_ranks w n s)"
  by (auto simp: others_def open_ranks_def)

text \<open>What a step may change without touching the confirmation of a round.\<close>

lemma phase_frame:
  assumes "phase_ok w n E a s c"
    "phase (E' w) = phase (E w)" "last_active_count (E' w) = last_active_count (E w)" "last_finished_count (E' w) = last_finished_count (E w)"
    "\<forall>i<n. a i \<le> a' i" "quiet n c \<Longrightarrow> quiet n c' \<and> sum a' {..<n} = sum a {..<n}"
    "open_ranks w n s \<noteq> {} \<Longrightarrow> open_ranks w n s' \<noteq> {}"
    "\<And>i k. \<lbrakk>i < n; i \<noteq> w; open_ranks w n s \<noteq> {}; k \<le> a i; reported (\<lambda>y z. k \<le> y) (s i)\<rbrakk> \<Longrightarrow> reported (\<lambda>y z. k \<le> y) (s' i)"
  shows "phase_ok w n E' a' s' c'"
proof (cases "phase (E w) = PHASE_1")
  case False
  then obtain aT FT where o: "phase (E w) = PHASE_2" "open_ranks w n s \<noteq> {}" and con: "confirming w n E a s c aT FT"
    using assms(1) by (auto simp: phase_ok_def)
  have "\<forall>i<n. aT i \<le> a' i" using con assms(5) by (meson confirming_def order_trans)
  moreover have "\<forall>i\<in>others w n. reported (\<lambda>y z. aT i \<le> y) (s' i)" using con assms(8) o(2) by (simp add: confirming_def)
  ultimately have "confirming w n E' a' s' c' aT FT" using con assms(3,4,6) by (simp add: confirming_def)
  then show ?thesis using o assms(2,7) by (auto simp: phase_ok_def)
qed (use assms(2) in \<open>simp add: phase_ok_def\<close>)

lemma inv_spawn:
  assumes inv: "cluster_inv g w n x slot E a f s c" and ij: "i < n" "j < n" "0 < running c i" "created c + 2 < 2 ^ 32"
  defines "c' \<equiv> (absorb i (increment_active_epoch g (nodes c i)) c)
         \<lparr>waiting_on := (waiting_on c)(j := waiting_on c j + 1), created := created c + 1\<rparr>"
  shows "cluster_inv g w n x slot (E(i := (E i)\<lparr>epoch_counts := epoch_counts (E i) + EPOCH_ACTIVE_INC\<rparr>))
     (a(i := a i + 1)) f s c'"
    (is "cluster_inv g w n x slot ?E ?a f s c'")
proof -
  have Ei: "epochs (nodes c i) g = Some (E i)" "packs (epoch_counts (E i)) (a i) (f i)"
    using inv ij(1) by (auto simp: cluster_defs)
  have "a i + 1 < 2 ^ 32" using inv ij rank_le_sum [of i n a] by (simp add: cluster_defs)
  note pk = packs_inc_active [OF Ei(2) this]
  have nodes: "nodes c' = (nodes c)(i := (put_epoch g (?E i) (nodes c i))\<lparr>ep_effects := []\<rparr>)"
    "net c' = net c + image_mset (Pair i) (mset (ep_effects (nodes c i)))"
    unfolding c'_def using Ei by (simp_all add: increment_active_epoch_def arts_atomic_add_u64_def)
  have nq: "\<not> quiet n c" using ij by (auto simp: quiet_def)
  have ph: "phase_ok w n E a s c" using inv by (simp add: cluster_inv_def)
  have "ranks_ok g w n x slot ?E c'" using inv nodes by (auto simp: cluster_inv_def ranks_ok_def)
  moreover have "tasks_ok n ?E ?a f c'"
    using inv ij pk sum_upd_nat [OF ij(1), of a "a i + 1"] sum_upd_nat [OF ij(2), of "waiting_on c" "waiting_on c j + 1"]
    by (auto simp: cluster_inv_def tasks_ok_def c'_def)
  moreover have "queues_ok w n ?E s c'" using inv by (auto simp: cluster_inv_def queues_ok_def c'_def)
  moreover have "reported (\<lambda>y z. y \<le> ?a k \<and> z \<le> f k) (s k)" if "reported (\<lambda>y z. y \<le> a k \<and> z \<le> f k) (s k)" for k
    using that by (cases "s k") auto
  then have "round_ok g w n ?E ?a f s c'"
    using inv nodes ij(1) by (auto simp: cluster_inv_def round_ok_def ranks_ok_def)
  moreover have "phase_ok w n ?E ?a s c'" by (rule phase_frame [OF ph]) (use nq in simp_all)
  ultimately show ?thesis by (simp add: cluster_inv_def)
qed

lemma inv_ready:
  assumes inv: "cluster_inv g w n x slot E a f s c" and j: "j < n" "0 < waiting_on c j" and g: "g \<noteq> NULL_GUID"
  defines "c' \<equiv> (absorb j (increment_queue_epoch g (nodes c j)) c)
         \<lparr>waiting_on := (waiting_on c)(j := waiting_on c j - 1), running := (running c)(j := running c j + 1)\<rparr>"
  shows "cluster_inv g w n x slot (E(j := (E j)\<lparr>queued := queued (E j) + 1\<rparr>)) a f s c'"
    (is "cluster_inv g w n x slot ?E a f s c'")
proof -
  have Ei: "epochs (nodes c j) g = Some (E j)" using inv j(1) by (auto simp: cluster_defs)
  have nodes: "nodes c' = (nodes c)(j := (put_epoch g (?E j) (nodes c j))\<lparr>ep_effects := []\<rparr>)"
    "net c' = net c + image_mset (Pair j) (mset (ep_effects (nodes c j)))"
    unfolding c'_def using Ei g by (simp_all add: increment_queue_epoch_def arts_atomic_add_u64_def)
  have nq: "\<not> quiet n c" using j by (auto simp: quiet_def)
  have ph: "phase_ok w n E a s c" using inv by (simp add: cluster_inv_def)
  have "ranks_ok g w n x slot ?E c'" using inv nodes by (auto simp: cluster_inv_def ranks_ok_def)
  moreover have "tasks_ok n ?E a f c'"
    using inv j sum_upd_nat [OF j(1), of "running c" "running c j + 1"] sum_upd_nat [OF j(1), of "waiting_on c" "waiting_on c j - 1"]
    by (auto simp: cluster_inv_def tasks_ok_def c'_def)
  moreover have "queues_ok w n ?E s c'" using inv by (auto simp: cluster_inv_def queues_ok_def c'_def)
  moreover have "round_ok g w n ?E a f s c'"
    using inv nodes j(1) by (auto simp: cluster_inv_def round_ok_def ranks_ok_def)
  moreover have "phase_ok w n ?E a s c'" by (rule phase_frame [OF ph]) (use nq in simp_all)
  ultimately show ?thesis by (simp add: cluster_inv_def)
qed

lemma sum_fun_upd:
  fixes h :: "'a \<Rightarrow> 'b \<Rightarrow> 'c :: comm_monoid_add"
  assumes "finite A" "j \<in> A"
  shows "(\<Sum>i\<in>A. h i ((s(j := v)) i)) + h j (s j) = (\<Sum>i\<in>A. h i (s i)) + h j v"
proof -
  have "(\<Sum>i\<in>A. h i ((s(j := v)) i)) = h j v + (\<Sum>i\<in>A - {j}. h i (s i))"
    using assms by (subst sum.remove [of _ j]) (auto intro: sum.cong)
  moreover have "(\<Sum>i\<in>A. h i (s i)) = h j (s j) + (\<Sum>i\<in>A - {j}. h i (s i))"
    using assms by (subst sum.remove [of _ j]) auto
  ultimately show ?thesis by (simp add: ac_simps)
qed

lemma card_others: "w < n \<Longrightarrow> card (others w n) = n - 1"
  by (simp add: others_def)

lemma sum_others:
  fixes h :: "nat \<Rightarrow> nat"
  shows "w < n \<Longrightarrow> sum h {..<n} = h w + sum h (others w n)"
  by (simp add: others_def sum.remove)

lemma sum_singletons: "finite A \<Longrightarrow> (\<Sum>i\<in>A. {#h i#}) = image_mset h (mset_set A)"
  by (induction A rule: finite_induct) simp_all

lemma broadcast_msgs:
  assumes "w < n" "n \<le> 2 ^ 16"
  shows "image_mset (Pair w) (mset (map h (filter (\<lambda>i. i \<noteq> of_nat w) (map of_nat [0..<unat (of_nat n :: u32)])))) =
     (\<Sum>i\<in>others w n. {#(w, h (of_nat i :: u32))#})"
proof -
  have n: "unat (of_nat n :: u32) = n" using assms by (simp add: unat_of_nat_lt)
  have "filter (\<lambda>i. (of_nat i :: u32) \<noteq> of_nat w) [0..<n] = filter (\<lambda>i. i \<noteq> w) [0..<n]"
    using assms by (intro filter_cong) (auto simp: of_nat_rank_inj)
  moreover have "mset (filter (\<lambda>i. i \<noteq> w) [0..<n]) = mset_set (others w n)"
    by (subst mset_filter, subst mset_upt, subst filter_mset_mset_set) (auto simp: others_def intro: arg_cong [where f = mset_set])
  ultimately show ?thesis
    by (simp add: n filter_map comp_def sum_singletons image_mset.compositionality flip: mset_map)
       (simp add: mset_map comp_def)
qed

lemma tasks_bounds:
  assumes "cluster_inv g w n x slot E a f s c" "i < n"
  shows "a i \<le> created c" "f i + running c i \<le> created c" "created c + 1 < 2 ^ 32"
proof -
  have t: "sum a {..<n} = created c" "created c = sum f {..<n} + sum (waiting_on c) {..<n} + sum (running c) {..<n}"
    "created c + 1 < 2 ^ 32" using assms(1) by (simp_all add: cluster_inv_def tasks_ok_def)
  show "a i \<le> created c" using t(1) rank_le_sum [OF assms(2), of a] by simp
  show "f i + running c i \<le> created c" using t(2) rank_le_sum [OF assms(2), of f] rank_le_sum [OF assms(2), of "running c"] by simp
  show "created c + 1 < 2 ^ 32" by (fact t(3))
qed

lemma inv_finish_other:
  assumes inv: "cluster_inv g w n x slot E a f s c" and par: "cluster_params g w n x"
    and j: "j < n" "j \<noteq> w" "0 < running c j" "increment_finished_epoch g (nodes c j) = Inr st"
  defines "c' \<equiv> (absorb j st c)\<lparr>running := (running c)(j := running c j - 1)\<rparr>"
  shows "\<exists>E s. cluster_inv g w n x slot E a (f(j := f j + 1)) s c'"
proof -
  let ?last = "s j = Holding \<and> running c j = 1"
  let ?E = "E(j := (E j)\<lparr>epoch_counts := epoch_counts (E j) + 1, queued := if ?last then EPOCH_BIT else queued (E j) - 1\<rparr>)"
  let ?s = "if ?last then s(j := Answered (a j) (f j + 1)) else s"
  let ?f = "f(j := f j + 1)"
  have Ej: "epochs (nodes c j) g = Some (E j)" "packs (epoch_counts (E j)) (a j) (f j)"
    "arts_global_rank_id (ecfg (nodes c j)) = of_nat j" "arts_global_rank_count (ecfg (nodes c j)) = of_nat n"
    "ep_effects (nodes c j) = []"
    "queued (E j) = of_nat (running c j) + (if s j = Holding then 0 else EPOCH_BIT)"
    using inv j(1,2) by (auto simp: cluster_defs)
  have bounds: "f j + 1 < 2 ^ 32" "running c j < 2 ^ 32"
    using tasks_bounds [OF inv j(1)] j(3) by simp_all
  have ranks: "(of_nat n :: u32) \<noteq> 1" "(of_nat w :: u32) \<noteq> of_nat j"
    using par j of_nat_rank_inj [of n 1] by (auto simp: cluster_params_def of_nat_rank_inj)
  have last: "queued (E j) = 1 \<longleftrightarrow> ?last" using Ej(6) queue_words(1,3) [OF bounds(2)] by auto
  have st: "st = (if ?last then ep_emit (Epoch_Send (of_nat w) g (of_nat (a j)) (of_nat (f j + 1))) else id)
      (put_epoch g (?E j) (nodes c j))"
    using j(4) par Ej ranks last packs_snapshot [OF Ej(2) bounds(1)]
    by (auto simp: increment_finished_epoch_def increment_finished_epoch_impl_def arts_atomic_fetch_add_u64_def
        decrement_queue_epoch_def arts_atomic_cswap_u64_def cluster_params_def Let_def simp del: of_nat_Suc of_nat_add split: if_splits)
  have open_same: "open_ranks w n ?s = open_ranks w n s" by (auto simp: open_ranks_def)
  have nq: "\<not> quiet n c" using j by (auto simp: quiet_def)
  have ph: "phase_ok w n E a s c" using inv by (simp add: cluster_inv_def)
  have "ranks_ok g w n x slot ?E c'" using inv j(2) by (auto simp: cluster_inv_def ranks_ok_def c'_def st)
  moreover have "tasks_ok n ?E a ?f c'"
    using inv j packs_inc_finished [OF Ej(2) bounds(1)] sum_upd_nat [OF j(1), of f "f j + 1"]
      sum_upd_nat [OF j(1), of "running c" "running c j - 1"]
    by (auto simp: cluster_inv_def tasks_ok_def c'_def)
  moreover have "of_nat (running c j) - 1 = (of_nat (running c j - 1) :: u64)" using j(3) by (simp add: of_nat_diff)
  then have "queues_ok w n ?E ?s c'"
    using inv j Ej(6) open_same by (auto simp: cluster_inv_def queues_ok_def c'_def)
  moreover have "round_ok g w n ?E a ?f ?s c'"
  proof -
    have "net c' = net c + (if ?last then {#(j, Epoch_Send (of_nat w) g (of_nat (a j)) (of_nat (f j + 1)))#} else {#})"
      using Ej(5) by (simp add: c'_def st)
    moreover have "(\<Sum>i\<in>others w n. round_msgs g w i (?s i)) =
        (\<Sum>i\<in>others w n. round_msgs g w i (s i)) + (if ?last then {#(j, Epoch_Send (of_nat w) g (of_nat (a j)) (of_nat (f j + 1)))#} else {#})"
      using sum_fun_upd [of "others w n" j "round_msgs g w" s "Answered (a j) (f j + 1)"] j
      by (cases ?last) (simp, simp only: if_False, simp)
    moreover have "(\<Sum>i\<in>others w n. counted_active (?s i)) = (\<Sum>i\<in>others w n. counted_active (s i))"
      "(\<Sum>i\<in>others w n. counted_finished (?s i)) = (\<Sum>i\<in>others w n. counted_finished (s i))"
      by (auto intro!: sum.cong)
    moreover have "reported (\<lambda>y z. y \<le> a i \<and> z \<le> ?f i) (?s i)" if "reported (\<lambda>y z. y \<le> a i \<and> z \<le> f i) (s i)" for i
      using that by (cases "s i") auto
    moreover have "open_ranks w n s = {} \<longrightarrow> \<not> ?last" using j by (auto simp: open_ranks_def)
    ultimately show ?thesis using inv j(2) open_same by (simp add: cluster_inv_def round_ok_def) blast
  qed
  moreover have "phase_ok w n ?E a ?s c'"
    by (rule phase_frame [OF ph]) (use nq j(2) open_same in auto)
  ultimately show ?thesis unfolding cluster_inv_def by blast
qed

lemma open_ranks_card:
  assumes "cluster_params g w n x"
  shows "of_nat (card (open_ranks w n s) + 1) \<noteq> (0 :: u64)" "card (open_ranks w n s) < 2 ^ 16"
proof -
  have "card (open_ranks w n s) \<le> card (others w n)" by (rule card_mono) (auto simp: open_ranks_def)
  then show k: "card (open_ranks w n s) < 2 ^ 16" using assms card_others [of w n] by (auto simp: cluster_params_def)
  have "unat (of_nat (card (open_ranks w n s) + 1) :: u64) = card (open_ranks w n s) + 1"
    using k by (intro unat_of_nat_lt) simp
  then show "of_nat (card (open_ranks w n s) + 1) \<noteq> (0 :: u64)" by auto
qed

lemma open_all_requested:
  assumes "cluster_params g w n x"
  shows "open_ranks w n (\<lambda>_. Requested) = others w n" "others w n \<noteq> {}"
    "of_nat (card (others w n) + 1) = (ucast (of_nat n :: u32) :: u64)"
proof -
  show "open_ranks w n (\<lambda>_. Requested) = others w n" by (auto simp: open_ranks_def)
  have c: "card (others w n) = n - 1" "2 \<le> n" "n \<le> 2 ^ 16" using assms card_others by (auto simp: cluster_params_def)
  then show "others w n \<noteq> {}" by (intro notI) simp
  have "take_bit 32 n = n" using c by (intro take_bit_nat_eq_self) simp
  then show "of_nat (card (others w n) + 1) = (ucast (of_nat n :: u32) :: u64)"
    using c by (simp add: unsigned_of_nat)
qed

lemma inv_finish_owner:
  assumes inv: "cluster_inv g w n x slot E a f s c" and par: "cluster_params g w n x"
    and r: "0 < running c w" "increment_finished_epoch g (nodes c w) = Inr st"
  defines "c' \<equiv> (absorb w st c)\<lparr>running := (running c)(w := running c w - 1)\<rparr>"
  shows "\<exists>E s. cluster_inv g w n x slot E a (f(w := f w + 1)) s c'"
proof -
  let ?ask = "running c w = 1 \<and> open_ranks w n s = {}"
  let ?s = "if ?ask then \<lambda>_. Requested else s"
  let ?E = "E(w := (E w)\<lparr>epoch_counts := epoch_counts (E w) + 1, queued := of_nat (running c w - 1),
      outstanding := if ?ask then ucast (of_nat n :: u32) else outstanding (E w)\<rparr>)"
  let ?f = "f(w := f w + 1)"
  have w: "w < n" using par by (simp add: cluster_params_def)
  have Ew: "epochs (nodes c w) g = Some (E w)" "packs (epoch_counts (E w)) (a w) (f w)"
    "arts_global_rank_id (ecfg (nodes c w)) = of_nat w" "arts_global_rank_count (ecfg (nodes c w)) = of_nat n"
    "ep_effects (nodes c w) = []" "queued (E w) = of_nat (running c w)"
    "outstanding (E w) = (if open_ranks w n s = {} then 0 else of_nat (card (open_ranks w n s) + 1))"
    using inv w by (simp_all add: cluster_defs del: of_nat_Suc of_nat_add)
  have bounds: "f w + 1 < 2 ^ 32" "running c w - 1 < 2 ^ 32"
    using tasks_bounds [OF inv w] r(1) by simp_all
  have n1: "(of_nat n :: u32) \<noteq> 1" using par of_nat_rank_inj [of n 1] by (auto simp: cluster_params_def)
  have q: "queued (E w) - 1 = of_nat (running c w - 1)" "of_nat (running c w - 1) = (0 :: u64) \<longleftrightarrow> running c w = 1"
    "outstanding (E w) = 0 \<longleftrightarrow> open_ranks w n s = {}"
    using Ew(6,7) r(1) queue_words(4) [OF bounds(2)] open_ranks_card(1) [OF par, of s] by (auto simp: of_nat_diff)
  have st: "st = (if ?ask then broadcast_epoch_request g else id) (put_epoch g (?E w) (nodes c w))"
    using r(2) par Ew(1-5) n1 q
    by (auto simp: increment_finished_epoch_def increment_finished_epoch_impl_def arts_atomic_fetch_add_u64_def
        arts_atomic_sub_u64_def arts_atomic_cswap_u64_def cluster_params_def Let_def simp del: of_nat_Suc of_nat_add split: if_splits)
  have st': "epochs st = (epochs (nodes c w))(g := Some (?E w))" "ecfg st = ecfg (nodes c w)"
    "image_mset (Pair w) (mset (ep_effects st)) = (if ?ask then (\<Sum>i\<in>others w n. {#(w, Epoch_Req (of_nat i) g)#}) else {#})"
    using Ew(4,5) par broadcast_msgs [of w n "\<lambda>i. Epoch_Req i g"]
    by (simp_all add: st broadcast_epoch_request_def to_others_effects cluster_params_def)
  have nq: "\<not> quiet n c" using w r(1) by (auto simp: quiet_def)
  have ph: "phase_ok w n E a s c" using inv by (simp add: cluster_inv_def)
  have "ranks_ok g w n x slot ?E c'" using inv by (auto simp: cluster_inv_def ranks_ok_def c'_def st')
  moreover have "tasks_ok n ?E a ?f c'"
    using inv w r(1) packs_inc_finished [OF Ew(2) bounds(1)] sum_upd_nat [OF w, of f "f w + 1"]
      sum_upd_nat [OF w, of "running c" "running c w - 1"]
    by (auto simp: cluster_inv_def tasks_ok_def c'_def)
  moreover have "queues_ok w n ?E ?s c'"
  proof -
    have "running c w \<noteq> 1" if "\<not> ?ask" "open_ranks w n s = {}" using that by blast
    then have "open_ranks w n ?s = {} \<longrightarrow> 0 < running c' w"
      using r(1) open_all_requested(1,2) [OF par] by (auto simp: c'_def)
    then show ?thesis
      using inv open_all_requested(1,2) [OF par]
      by (auto simp: cluster_inv_def queues_ok_def c'_def round_ok_def)
  qed
  moreover have "round_ok g w n ?E a ?f ?s c'"
  proof -
    have rep: "reported (\<lambda>y z. y \<le> a i \<and> z \<le> ?f i) (?s i)" if "reported (\<lambda>y z. y \<le> a i \<and> z \<le> f i) (s i)" for i
      using that by (cases "s i") auto
    show ?thesis
    proof (cases ?ask)
      case True
      then have idle: "\<forall>i\<in>others w n. s i = Counted 0 0" using inv by (simp add: cluster_inv_def round_ok_def)
      then have "net c = {#}" "global_active_count (E w) = 0" "global_finished_count (E w) = 0"
        using inv by (simp_all add: cluster_inv_def round_ok_def)
      then show ?thesis using True st'(3) open_all_requested [OF par] rep
        by (simp add: round_ok_def c'_def del: of_nat_Suc of_nat_add)
    next
      case False
      then show ?thesis using inv st'(3) rep by (simp add: cluster_inv_def round_ok_def c'_def)
    qed
  qed
  moreover have "phase_ok w n ?E a ?s c'" by (rule phase_frame [OF ph]) (use nq in simp_all)
  ultimately show ?thesis unfolding cluster_inv_def by blast
qed

section \<open>Delivery of messages\<close>

lemma in_net:
  assumes "cluster_inv g w n x slot E a f s c" "m \<in># net c"
  obtains i where "i < n" "i \<noteq> w" "m \<in># round_msgs g w i (s i)"
proof -
  have "net c = (\<Sum>i\<in>others w n. round_msgs g w i (s i))" using assms(1) by (simp add: cluster_inv_def round_ok_def)
  moreover have "\<exists>i\<in>A. m \<in># round_msgs g w i (s i)" if "finite A" "m \<in># (\<Sum>i\<in>A. round_msgs g w i (s i))" for A
    using that by (induction A rule: finite_induct) auto
  ultimately show ?thesis using that assms(2) by (metis others_simps(1,2))
qed

lemma net_after:
  assumes "i < n" "i \<noteq> w" "round_msgs g w i (s i) = {#m#}"
  shows "(\<Sum>k\<in>others w n. round_msgs g w k (s k)) - {#m#} + round_msgs g w i v =
     (\<Sum>k\<in>others w n. round_msgs g w k ((s(i := v)) k))"
proof -
  let ?S = "\<Sum>k\<in>others w n. round_msgs g w k (s k)"
  have "?S = round_msgs g w i (s i) + (\<Sum>k\<in>others w n - {i}. round_msgs g w k (s k))"
    using assms(1,2) by (intro sum.remove) auto
  moreover have "(\<Sum>k\<in>others w n. round_msgs g w k ((s(i := v)) k)) + round_msgs g w i (s i) = ?S + round_msgs g w i v"
    using assms(1,2) by (intro sum_fun_upd) auto
  ultimately show ?thesis using assms(3) by simp
qed

lemma inv_request:
  assumes inv: "cluster_inv g w n x slot E a f s c" and par: "cluster_params g w n x"
    and m: "i < n" "(k, Epoch_Req (of_nat i) g) \<in># net c"
  defines "c' \<equiv> absorb i (arts_remote_handle_epoch_req (of_nat k) g (nodes c i)) (drop_msg (k, Epoch_Req (of_nat i) g) c)"
  shows "\<exists>E'. E' w = E w \<and> i \<noteq> w \<and> s i = Requested \<and>
     cluster_inv g w n x slot E' a f (s(i := if running c i = 0 then Answered (a i) (f i) else Holding)) c'"
proof -
  obtain i' where i': "i' < n" "i' \<noteq> w" "(k, Epoch_Req (of_nat i) g) \<in># round_msgs g w i' (s i')"
    using in_net [OF inv m(2)] .
  have "i' = i" "k = w" "s i = Requested"
    using i' m(1) par of_nat_rank_inj [of i i'] by (cases "s i'"; auto simp: cluster_params_def)+
  then have i: "i \<noteq> w" "k = w" "s i = Requested" using i' by auto
  let ?q = "if running c i = 0 then EPOCH_BIT else of_nat (running c i)"
  let ?v = "if running c i = 0 then Answered (a i) (f i) else Holding"
  let ?E = "E(i := (E i)\<lparr>queued := ?q\<rparr>)"
  let ?s = "s(i := ?v)"
  have Ei: "epochs (nodes c i) g = Some (E i)" "packs (epoch_counts (E i)) (a i) (f i)" "ep_effects (nodes c i) = []"
    "queued (E i) = of_nat (running c i) + EPOCH_BIT"
    using inv m(1) i by (auto simp: cluster_defs)
  have r: "running c i < 2 ^ 32" using tasks_bounds [OF inv m(1)] by simp
  have st: "arts_remote_handle_epoch_req (of_nat k) g (nodes c i) =
      (if running c i = 0 then ep_emit (Epoch_Send (of_nat w) g (of_nat (a i)) (of_nat (f i))) else id) (put_epoch g (?E i) (nodes c i))"
    using Ei(1,4) i(2) queue_words(4,5) [OF r] packs_active(1) [OF Ei(2)] packs_finished(1) [OF Ei(2)]
    by (auto simp: arts_remote_handle_epoch_req_def send_epoch_def arts_atomic_fetch_and_u64_def arts_atomic_cswap_u64_def Let_def)
  have open_same: "open_ranks w n ?s = open_ranks w n s" "i \<in> open_ranks w n s"
    using i m(1) by (auto simp: open_ranks_def)
  have ph: "phase_ok w n E a s c" using inv by (simp add: cluster_inv_def)
  have "ranks_ok g w n x slot ?E c'" using inv i(1) by (auto simp: cluster_inv_def ranks_ok_def c'_def st)
  moreover have "tasks_ok n ?E a f c'" using inv by (auto simp: cluster_inv_def tasks_ok_def c'_def)
  moreover have "queues_ok w n ?E ?s c'" using inv i(1) open_same by (auto simp: cluster_inv_def queues_ok_def c'_def)
  moreover have "round_ok g w n ?E a f ?s c'"
  proof -
    have "image_mset (Pair i) (mset (ep_effects (arts_remote_handle_epoch_req (of_nat k) g (nodes c i)))) = round_msgs g w i ?v"
      unfolding st using Ei(3) by simp
    moreover have "net c = (\<Sum>k\<in>others w n. round_msgs g w k (s k))" using inv by (simp add: cluster_inv_def round_ok_def)
    moreover have "round_msgs g w i (s i) = {#(k, Epoch_Req (of_nat i) g)#}" using i by simp
    ultimately have "net c' = (\<Sum>k\<in>others w n. round_msgs g w k (?s k))"
      unfolding c'_def absorb_simps using net_after [OF m(1) i(1)] by (simp only:)
    moreover have "(\<Sum>j\<in>others w n. counted_active (?s j)) = (\<Sum>j\<in>others w n. counted_active (s j))"
      "(\<Sum>j\<in>others w n. counted_finished (?s j)) = (\<Sum>j\<in>others w n. counted_finished (s j))"
      using i(3) by (auto intro!: sum.cong)
    moreover have "reported (\<lambda>y z. y \<le> a j \<and> z \<le> f j) (?s j)" if "reported (\<lambda>y z. y \<le> a j \<and> z \<le> f j) (s j)" for j
      using that by simp
    moreover have "open_ranks w n s \<noteq> {}" using open_same(2) by blast
    ultimately show ?thesis using inv i(1) open_same(1) by (simp add: cluster_inv_def round_ok_def del: fun_upd_apply of_nat_sum) simp
  qed
  moreover have "phase_ok w n ?E a ?s c'"
    by (rule phase_frame [OF ph]) (use i(1) open_same in \<open>auto simp: quiet_def c'_def\<close>)
  ultimately have "cluster_inv g w n x slot ?E a f ?s c'" unfolding cluster_inv_def by blast
  then show ?thesis using i(1,3) by (intro exI [of _ ?E]) simp
qed

text \<open>A response on the owner: one of several, and the last one of a round.\<close>

lemma reduce_open:
  assumes "epochs st g = Some e" "2 < outstanding e"
  shows "reduce_epoch g y z st =
     Inr (put_epoch g (e\<lparr>global_active_count := global_active_count e + y, global_finished_count := global_finished_count e + z,
       outstanding := outstanding e - 1\<rparr>) st)"
proof -
  have "\<not> outstanding e \<le> 1" using assms(2) by (simp add: word_le_nat_alt word_less_nat_alt)
  moreover have "outstanding e - 1 \<noteq> 1" using assms(2) by (auto simp: diff_eq_eq)
  ultimately show ?thesis using assms(1)
    by (simp add: reduce_epoch_def arts_atomic_add_def arts_atomic_cswap_u64_def Let_def)
qed

lemma reduce_close:
  fixes y z :: u32
  assumes "epochs st g = Some e" "outstanding e = 2" "arts_global_rank_count (ecfg st) \<noteq> 1"
  defines "ta \<equiv> global_active_count e + y + EPOCH_ACTIVE (epoch_counts e)"
    and "tf \<equiv> global_finished_count e + z + EPOCH_FINISHED (epoch_counts e)"
    and "e0 \<equiv> e\<lparr>global_active_count := 0, global_finished_count := 0\<rparr>"
    and "nxt \<equiv> 1 + ucast (arts_global_rank_count (ecfg st) - 1)"
  shows "reduce_epoch g y z st =
    (if tf \<noteq> 0 \<and> ta = tf then
       if phase e = PHASE_2 \<and> last_active_count e = ta \<and> last_finished_count e = tf then
         let e3 = e0\<lparr>phase := PHASE_3, completed := 1, outstanding := 0\<rparr> in
         delete_epoch g e3 (put_epoch g e3 (fire_epoch e3 tf st))
       else Inr (broadcast_epoch_request g (put_epoch g
         (e0\<lparr>last_active_count := ta, last_finished_count := tf, phase := PHASE_2, outstanding := nxt\<rparr>) st))
     else if queued e = 0 then Inr (broadcast_epoch_request g (put_epoch g (e0\<lparr>phase := PHASE_1, outstanding := nxt\<rparr>) st))
     else Inr (put_epoch g (e0\<lparr>phase := PHASE_1, outstanding := 0\<rparr>) st))"
proof -
  have "fire_epoch (e\<lparr>outstanding := 1, global_active_count := 0, global_finished_count := 0, phase := PHASE_3, completed := 1\<rparr>) tf st =
      fire_epoch (e0\<lparr>phase := PHASE_3, completed := 1, outstanding := 0\<rparr>) tf st"
    "ecfg (fire_epoch v tf st) = ecfg st" for v
    by (simp_all add: fire_epoch_def e0_def arts_shutdown_epoch_fire_def)
  moreover have "\<not> (2 :: u64) \<le> 1" by (simp add: word_le_nat_alt)
  ultimately show ?thesis using assms(1-3)
    by (auto simp: reduce_epoch_def check_epoch_def arts_atomic_add_def arts_atomic_cswap_u64_def arts_atomic_cswap_def
        arts_atomic_add_u64_def arts_atomic_sub_u64_def Let_def ta_def tf_def e0_def nxt_def)
qed

lemma next_round_outstanding:
  assumes "cluster_params g w n x"
  shows "1 + ucast ((of_nat n :: u32) - 1) = (of_nat (card (others w n) + 1) :: u64)"
proof -
  have n: "2 \<le> n" "n \<le> 2 ^ 16" "card (others w n) = n - 1" using assms card_others by (auto simp: cluster_params_def)
  then have "(of_nat n :: u32) - 1 = of_nat (n - 1)" by (simp add: of_nat_diff)
  moreover have "take_bit 32 (n - 1) = n - 1" using n by (intro take_bit_nat_eq_self) simp
  then have "ucast (of_nat (n - 1) :: u32) = (of_nat (n - 1) :: u64)" by (simp only: unsigned_of_nat len_num1 len_bit0 len_num0) simp
  ultimately show ?thesis using n(3) by (simp only: of_nat_add of_nat_1 add.commute)
qed

text \<open>The state of a cluster when rank \<open>i\<close> holds the last response of a round.\<close>

definition closing :: "nat \<Rightarrow> nat \<Rightarrow> (nat \<Rightarrow> round_state) \<Rightarrow> nat \<Rightarrow> nat \<Rightarrow> nat \<Rightarrow> bool" where
  "closing w n s i y z \<longleftrightarrow> i < n \<and> i \<noteq> w \<and> s i = Answered y z \<and> (\<forall>j\<in>others w n - {i}. is_counted (s j))"

lemma closing_facts:
  assumes inv: "cluster_inv g w n x slot E a f s c" and par: "cluster_params g w n x" and cl: "closing w n s i y z"
  shows "net c = {#(i, Epoch_Send (of_nat w) g (of_nat y) (of_nat z))#}" "outstanding (E w) = 2" "open_ranks w n s = {i}"
    "\<forall>j<n. queued (E j) = of_nat (running c j) + (if j = w then 0 else EPOCH_BIT)"
proof -
  show o: "open_ranks w n s = {i}" using cl by (auto simp: closing_def open_ranks_def)
  have "round_msgs g w j (s j) = {#}" if "j \<in> others w n - {i}" for j
  proof -
    have "is_counted (s j)" using that cl by (simp only: closing_def)
    then show ?thesis by (cases "s j") auto
  qed
  then have "(\<Sum>j\<in>others w n. round_msgs g w j (s j)) = round_msgs g w i (s i)"
    using cl by (subst sum.remove [of _ i]) (auto simp: closing_def)
  then show "net c = {#(i, Epoch_Send (of_nat w) g (of_nat y) (of_nat z))#}" "outstanding (E w) = 2"
    using inv o cl by (simp_all add: cluster_inv_def round_ok_def closing_def)
  have "s j \<noteq> Holding" if "j < n" "j \<noteq> w" for j
  proof -
    have "j = i \<or> is_counted (s j)" using that cl by (simp add: closing_def Ball_def) blast
    then show ?thesis using cl by (auto simp: closing_def)
  qed
  then show "\<forall>j<n. queued (E j) = of_nat (running c j) + (if j = w then 0 else EPOCH_BIT)"
    using inv by (auto simp: cluster_inv_def queues_ok_def)
qed

lemma inv_response_open:
  assumes inv: "cluster_inv g w n x slot E a f s c" and par: "cluster_params g w n x"
    and i: "i < n" "i \<noteq> w" "s i = Answered y z" "open_ranks w n s \<noteq> {i}"
    and st: "arts_remote_handle_epoch_send g (of_nat y) (of_nat z) (nodes c w) = Inr st"
  defines "c' \<equiv> absorb w st (drop_msg (i, Epoch_Send (of_nat w) g (of_nat y) (of_nat z)) c)"
  shows "\<exists>E'. phase (E' w) = phase (E w) \<and> last_active_count (E' w) = last_active_count (E w) \<and>
     last_finished_count (E' w) = last_finished_count (E w) \<and> cluster_inv g w n x slot E' a f (s(i := Counted y z)) c'"
proof -
  let ?s = "s(i := Counted y z)"
  let ?E = "E(w := (E w)\<lparr>global_active_count := global_active_count (E w) + of_nat y,
      global_finished_count := global_finished_count (E w) + of_nat z, outstanding := outstanding (E w) - 1\<rparr>)"
  have w: "w < n" using par by (simp add: cluster_params_def)
  have io: "i \<in> open_ranks w n s" using i by (simp add: open_ranks_def)
  then have card: "2 \<le> card (open_ranks w n s)"
    using i(4) card_le_Suc0_iff_eq [of "open_ranks w n s"] by (auto simp: not_less_eq_eq numeral_2_eq_2)
  have os: "open_ranks w n ?s = open_ranks w n s - {i}" by (auto simp: open_ranks_def)
  then have card': "card (open_ranks w n ?s) = card (open_ranks w n s) - 1" "open_ranks w n ?s \<noteq> {}"
    using io card i(4) by (auto simp: card_Diff_singleton)
  have out: "outstanding (E w) = of_nat (card (open_ranks w n s) + 1)" using inv io by (auto simp: cluster_inv_def round_ok_def)
  have "unat (outstanding (E w)) = card (open_ranks w n s) + 1"
    unfolding out using open_ranks_card(2) [OF par, of s] by (intro unat_of_nat_lt) simp
  then have "2 < outstanding (E w)" using card by (simp add: word_less_nat_alt)
  moreover have Ew: "epochs (nodes c w) g = Some (E w)" "ep_effects (nodes c w) = []"
    using inv w by (simp_all add: cluster_inv_def ranks_ok_def)
  ultimately have st': "st = put_epoch g (?E w) (nodes c w)"
    using st reduce_open [of "nodes c w" g "E w"] by (simp add: arts_remote_handle_epoch_send_def)
  have ph: "phase_ok w n E a s c" using inv by (simp add: cluster_inv_def)
  have "ranks_ok g w n x slot ?E c'" using inv by (auto simp: cluster_inv_def ranks_ok_def c'_def st')
  moreover have "tasks_ok n ?E a f c'" using inv by (auto simp: cluster_inv_def tasks_ok_def c'_def)
  moreover have "queues_ok w n ?E ?s c'" using inv i card'(2) by (auto simp: cluster_inv_def queues_ok_def c'_def)
  moreover have "round_ok g w n ?E a f ?s c'"
  proof -
    have "net c' = (\<Sum>k\<in>others w n. round_msgs g w k (?s k))"
      using net_after [OF i(1,2), of g s _ "Counted y z"] inv i(3) Ew(2)
      by (simp add: cluster_inv_def round_ok_def c'_def st')
    moreover have "(\<Sum>j\<in>others w n. counted_active (?s j)) = (\<Sum>j\<in>others w n. counted_active (s j)) + y"
      "(\<Sum>j\<in>others w n. counted_finished (?s j)) = (\<Sum>j\<in>others w n. counted_finished (s j)) + z"
      using i sum_fun_upd [of "others w n" i "\<lambda>_. counted_active" s "Counted y z"]
        sum_fun_upd [of "others w n" i "\<lambda>_. counted_finished" s "Counted y z"] by simp_all
    moreover have "reported (\<lambda>y z. y \<le> a j \<and> z \<le> f j) (?s j)" if "reported (\<lambda>y z. y \<le> a j \<and> z \<le> f j) (s j)" for j
      using that i(3) by auto
    moreover have "card (open_ranks w n s) = Suc (card (open_ranks w n ?s))" "open_ranks w n s \<noteq> {}"
      using card card'(1) io by auto
    ultimately show ?thesis using inv card'(2)
      by (simp add: cluster_inv_def round_ok_def del: fun_upd_apply of_nat_sum) simp
  qed
  moreover have "phase_ok w n ?E a ?s c'"
    by (rule phase_frame [OF ph]) (use i(3) card'(2) in \<open>auto simp: quiet_def c'_def\<close>)
  ultimately have "cluster_inv g w n x slot ?E a f ?s c'" unfolding cluster_inv_def by blast
  then show ?thesis by (intro exI [of _ ?E]) simp
qed

lemma inv_new_round:
  assumes inv: "cluster_inv g w n x slot E a f s c" and par: "cluster_params g w n x" and cl: "closing w n s i y z"
    and p: "p = PHASE_1 \<or> p = PHASE_2 \<and> la = lf \<and> unat lf \<le> sum f {..<n}"
  defines "e' \<equiv> (E w)\<lparr>global_active_count := 0, global_finished_count := 0, last_active_count := la,
      last_finished_count := lf, phase := p, outstanding := 1 + ucast ((of_nat n :: u32) - 1)\<rparr>"
  defines "c' \<equiv> absorb w (broadcast_epoch_request g (put_epoch g e' (nodes c w)))
      (drop_msg (i, Epoch_Send (of_nat w) g (of_nat y) (of_nat z)) c)"
  shows "cluster_inv g w n x slot (E(w := e')) a f (\<lambda>_. Requested) c'"
proof -
  let ?E = "E(w := e')"
  have w: "w < n" using par by (simp add: cluster_params_def)
  have Ew: "arts_global_rank_count (ecfg (nodes c w)) = of_nat n" "ep_effects (nodes c w) = []"
    using inv w by (simp_all add: cluster_inv_def ranks_ok_def)
  have nodes: "nodes c' w = (broadcast_epoch_request g (put_epoch g e' (nodes c w)))\<lparr>ep_effects := []\<rparr>"
    "\<And>j. j \<noteq> w \<Longrightarrow> nodes c' j = nodes c j" by (simp_all add: c'_def)
  have net: "net c' = (\<Sum>j\<in>others w n. {#(w, Epoch_Req (of_nat j) g)#})"
    using closing_facts(1) [OF inv par cl] Ew par broadcast_msgs [of w n "\<lambda>i. Epoch_Req i g"]
    by (simp add: c'_def broadcast_epoch_request_def to_others_effects cluster_params_def)
  have "ranks_ok g w n x slot ?E c'"
    using inv by (auto simp: cluster_inv_def ranks_ok_def c'_def e'_def broadcast_epoch_request_def to_others_effects)
  moreover have t: "tasks_ok n ?E a f c'" using inv by (auto simp: cluster_inv_def tasks_ok_def c'_def e'_def)
  moreover have "queues_ok w n ?E (\<lambda>_. Requested) c'"
    using closing_facts(4) [OF inv par cl] open_all_requested(1,2) [OF par] by (auto simp: queues_ok_def c'_def e'_def)
  moreover have "round_ok g w n ?E a f (\<lambda>_. Requested) c'"
    using net next_round_outstanding [OF par] open_all_requested(1,2) [OF par]
    by (simp add: round_ok_def e'_def del: of_nat_Suc of_nat_add)
  moreover have "phase_ok w n ?E a (\<lambda>_. Requested) c'"
  proof -
    have "sum a {..<n} = sum f {..<n} + sum (waiting_on c') {..<n} + sum (running c') {..<n}" using t by (simp add: tasks_ok_def)
    then have "confirming w n ?E a (\<lambda>_. Requested) c' a (sum f {..<n})" if "p = PHASE_2"
      using p that by (auto simp: confirming_def e'_def quiet_def)
    then show ?thesis using p open_all_requested(1,2) [OF par] by (auto simp: phase_ok_def e'_def)
  qed
  ultimately show ?thesis by (simp add: cluster_inv_def)
qed

lemma inv_idle:
  assumes inv: "cluster_inv g w n x slot E a f s c" and par: "cluster_params g w n x" and cl: "closing w n s i y z"
    and r: "0 < running c w"
  defines "e' \<equiv> (E w)\<lparr>global_active_count := 0, global_finished_count := 0, phase := PHASE_1, outstanding := 0\<rparr>"
  defines "c' \<equiv> absorb w (put_epoch g e' (nodes c w)) (drop_msg (i, Epoch_Send (of_nat w) g (of_nat y) (of_nat z)) c)"
  shows "cluster_inv g w n x slot (E(w := e')) a f (\<lambda>_. Counted 0 0) c'"
proof -
  have w: "w < n" using par by (simp add: cluster_params_def)
  have o: "open_ranks w n (\<lambda>_. Counted 0 0) = {}" by (simp add: open_ranks_def)
  have "ranks_ok g w n x slot (E(w := e')) c'" using inv by (auto simp: cluster_inv_def ranks_ok_def c'_def e'_def)
  moreover have "tasks_ok n (E(w := e')) a f c'" using inv by (auto simp: cluster_inv_def tasks_ok_def c'_def e'_def)
  moreover have "queues_ok w n (E(w := e')) (\<lambda>_. Counted 0 0) c'"
    using closing_facts(4) [OF inv par cl] r by (auto simp: queues_ok_def c'_def e'_def)
  moreover have "ep_effects (nodes c w) = []" using inv w by (simp add: cluster_inv_def ranks_ok_def)
  then have "round_ok g w n (E(w := e')) a f (\<lambda>_. Counted 0 0) c'"
    using closing_facts(1) [OF inv par cl] o by (simp add: round_ok_def c'_def e'_def)
  moreover have "phase_ok w n (E(w := e')) a (\<lambda>_. Counted 0 0) c'" by (simp add: phase_ok_def e'_def)
  ultimately show ?thesis by (simp add: cluster_inv_def)
qed

text \<open>What the owner adds up at the end of a round, bounded by the true counts.\<close>

definition fresh :: "nat \<Rightarrow> nat \<Rightarrow> (nat \<Rightarrow> nat) \<Rightarrow> (nat \<Rightarrow> nat) \<Rightarrow> (nat \<Rightarrow> round_state) \<Rightarrow> bool" where
  "fresh w n a f s \<longleftrightarrow> (\<forall>i\<in>others w n. reported (\<lambda>y z. y = a i \<and> z = f i) (s i))"

lemma closing_totals:
  assumes inv: "cluster_inv g w n x slot E a f s c" and par: "cluster_params g w n x" and cl: "closing w n s i y z"
  obtains A F where
    "global_active_count (E w) + of_nat y + EPOCH_ACTIVE (epoch_counts (E w)) = of_nat A"
    "global_finished_count (E w) + of_nat z + EPOCH_FINISHED (epoch_counts (E w)) = of_nat F"
    "A \<le> sum a {..<n}" "F \<le> sum f {..<n}" "sum f {..<n} \<le> sum a {..<n}" "sum a {..<n} < 2 ^ 32"
    "\<forall>aT. (\<forall>j<n. aT j \<le> a j) \<longrightarrow> (\<forall>j\<in>others w n. reported (\<lambda>y z. aT j \<le> y) (s j)) \<longrightarrow> sum aT {..<n} \<le> A"
    "fresh w n a f s \<longrightarrow> A = sum a {..<n} \<and> F = sum f {..<n}"
proof -
  let ?s = "s(i := Counted y z)"
  have w: "w < n" and i: "i < n" "i \<noteq> w" "s i = Answered y z" using par cl by (auto simp: cluster_params_def closing_def)
  define A where "A = a w + (\<Sum>j\<in>others w n. counted_active (?s j))"
  define F where "F = f w + (\<Sum>j\<in>others w n. counted_finished (?s j))"
  have upd: "(\<Sum>j\<in>others w n. counted_active (?s j)) = (\<Sum>j\<in>others w n. counted_active (s j)) + y"
    "(\<Sum>j\<in>others w n. counted_finished (?s j)) = (\<Sum>j\<in>others w n. counted_finished (s j)) + z"
    using i sum_fun_upd [of "others w n" i "\<lambda>_. counted_active" s "Counted y z"]
      sum_fun_upd [of "others w n" i "\<lambda>_. counted_finished" s "Counted y z"] by simp_all
  have pk: "packs (epoch_counts (E w)) (a w) (f w)" using inv w by (simp add: cluster_inv_def tasks_ok_def)
  have counted: "is_counted (?s j)" if "j \<in> others w n" for j using that cl by (simp add: closing_def Ball_def)
  have rep: "reported P (?s j)" if "reported P (s j)" for P j using that i(3) by auto
  have snap: "counted_active (?s j) \<le> a j \<and> counted_finished (?s j) \<le> f j" if "j \<in> others w n" for j
  proof -
    have "reported (\<lambda>y z. y \<le> a j \<and> z \<le> f j) (?s j)" using inv that by (intro rep) (simp add: cluster_inv_def round_ok_def)
    then show ?thesis using counted [OF that] by (cases "?s j") auto
  qed
  have "global_active_count (E w) + of_nat y + EPOCH_ACTIVE (epoch_counts (E w)) = of_nat A"
    "global_finished_count (E w) + of_nat z + EPOCH_FINISHED (epoch_counts (E w)) = of_nat F"
    using inv upd packs_active(1) [OF pk] packs_finished(1) [OF pk]
    by (simp_all add: cluster_inv_def round_ok_def A_def F_def del: of_nat_sum fun_upd_apply)
  moreover have "A \<le> sum a {..<n}" "F \<le> sum f {..<n}"
    unfolding A_def F_def sum_others [OF w] using snap by (auto intro!: sum_mono simp del: fun_upd_apply)
  moreover have "sum f {..<n} \<le> sum a {..<n}" "sum a {..<n} < 2 ^ 32" using inv by (auto simp: cluster_inv_def tasks_ok_def)
  moreover have "sum aT {..<n} \<le> A" if "\<forall>j<n. aT j \<le> a j" "\<forall>j\<in>others w n. reported (\<lambda>y z. aT j \<le> y) (s j)" for aT
  proof -
    have "aT j \<le> counted_active (?s j)" if "j \<in> others w n" for j
    proof -
      have "reported (\<lambda>y z. aT j \<le> y) (?s j)" using \<open>\<forall>j\<in>others w n. reported _ _\<close> that by (intro rep) blast
      then show ?thesis using counted [OF that] by (cases "?s j") auto
    qed
    then have "sum aT (others w n) \<le> (\<Sum>j\<in>others w n. counted_active (?s j))" by (rule sum_mono)
    then show ?thesis using that(1) w by (simp add: A_def sum_others [OF w] add_mono)
  qed
  moreover have "A = sum a {..<n} \<and> F = sum f {..<n}" if "fresh w n a f s"
  proof -
    have "counted_active (?s j) = a j \<and> counted_finished (?s j) = f j" if "j \<in> others w n" for j
    proof -
      have "reported (\<lambda>y z. y = a j \<and> z = f j) (?s j)" using \<open>fresh w n a f s\<close> that by (intro rep) (simp add: fresh_def)
      then show ?thesis using counted [OF that] by (cases "?s j") auto
    qed
    then show ?thesis by (simp add: A_def F_def sum_others [OF w] del: fun_upd_apply)
  qed
  ultimately show ?thesis using that by blast
qed

lemma fire_ends:
  assumes inv: "cluster_inv g w n x slot E a f s c" and par: "cluster_params g w n x" and cl: "closing w n s i y z"
    and q: "quiet n c" and e: "pool_guid e = NULL_GUID" "termination_exit_guid e = x" "termination_exit_slot e = slot"
    and st: "delete_epoch g e (put_epoch g e (fire_epoch e (of_nat (created c)) (nodes c w))) = Inr st"
  defines "c' \<equiv> absorb w st (drop_msg (i, Epoch_Send (of_nat w) g (of_nat y) (of_nat z)) c)"
  shows "ended g w n x slot c'" "size (net c') = n"
proof -
  have w: "w < n" "x \<noteq> NULL_GUID" "arts_guid_get_rank g = of_nat w" using par by (simp_all add: cluster_params_def)
  have Ew: "ep_effects (nodes c w) = []" "arts_global_rank_id (ecfg (nodes c w)) = of_nat w"
    "arts_global_rank_count (ecfg (nodes c w)) = of_nat n"
    using inv w by (simp_all add: cluster_inv_def ranks_ok_def)
  have others_ok: "\<forall>j<n. ep_effects (nodes c j) = [] \<and> arts_global_rank_id (ecfg (nodes c j)) = of_nat j \<and>
      (\<forall>e. epochs (nodes c j) g = Some e \<longrightarrow> pool_guid e = NULL_GUID)"
    using inv by (auto simp: cluster_inv_def ranks_ok_def)
  define st0 where "st0 = remove_epoch g (put_epoch g e (ep_emit (Signal_Value x slot (of_nat (created c))) (nodes c w)))"
  have "st = to_others (of_nat w) (\<lambda>i. Epoch_Delete i g) st0"
    using st e w Ew by (simp add: delete_epoch_def fire_epoch_def arts_guid_is_local_def Let_def st0_def)
  moreover have "ep_effects st0 = [Signal_Value x slot (of_nat (created c))]" "epochs st0 g = None" "ecfg st0 = ecfg (nodes c w)"
    using Ew by (simp_all add: st0_def)
  ultimately have st': "ep_effects st = Signal_Value x slot (of_nat (created c)) #
      map (\<lambda>i. Epoch_Delete i g) (filter (\<lambda>i. i \<noteq> of_nat w) (map of_nat [0..<unat (of_nat n :: u32)]))"
    "epochs st g = None" "ecfg st = ecfg (nodes c w)" using Ew(3) by (simp_all add: to_others_effects)
  then have net: "net c' = add_mset (w, Signal_Value x slot (of_nat (created c))) (\<Sum>i\<in>others w n. {#(w, Epoch_Delete (of_nat i) g)#})"
    using closing_facts(1) [OF inv par cl] broadcast_msgs [of w n "\<lambda>i. Epoch_Delete i g"] par
    by (simp add: c'_def cluster_params_def)
  show sz: "size (net c') = n" unfolding net using card_others [OF w(1)] w(1) by (simp add: sum_singletons)
  have "\<forall>m\<in>#(\<Sum>i\<in>others w n. {#(w, Epoch_Delete (of_nat i) g)#}). \<exists>k i. m = (k, Epoch_Delete i g)" by (auto simp: sum_singletons)
  moreover have "quiet n c'" "created c' = created c" using q by (simp_all add: c'_def quiet_def)
  moreover have "epochs (nodes c' w) g = None" "\<forall>j<n. ep_effects (nodes c' j) = [] \<and> arts_global_rank_id (ecfg (nodes c' j)) = of_nat j \<and>
      (\<forall>e. epochs (nodes c' j) g = Some e \<longrightarrow> pool_guid e = NULL_GUID)" using others_ok st' by (auto simp: c'_def)
  ultimately show "ended g w n x slot c'" unfolding ended_def using net sz by (metis order_refl)
qed

text \<open>
  The confirmed second round.  What the first round saw had finished at its end, and the
  second round saw at least what had been created by then: so nothing was left.
\<close>

lemma confirmed_quiet:
  assumes con: "confirming w n E a s c aT FT"
    and tot: "sum aT {..<n} \<le> A" "last_finished_count (E w) = of_nat A" "unat (of_nat A :: u32) = A"
  shows "quiet n c" "sum a {..<n} = A"
proof -
  have "A \<le> FT" "FT \<le> sum aT {..<n}" using con tot(2,3) by (simp_all add: confirming_def)
  then show "quiet n c" "sum a {..<n} = A" using con tot(1) by (auto simp: confirming_def)
qed

lemma close_cases:
  assumes inv: "cluster_inv g w n x slot E a f s c" and par: "cluster_params g w n x" and cl: "closing w n s i y z"
    and red: "reduce_epoch g (of_nat y) (of_nat z) (nodes c w) = Inr st"
  defines "e0 \<equiv> (E w)\<lparr>global_active_count := 0, global_finished_count := 0\<rparr>"
    and "nxt \<equiv> 1 + ucast ((of_nat n :: u32) - 1)"
  obtains
    (fire) "phase (E w) = PHASE_2" "quiet n c"
      "delete_epoch g (e0\<lparr>phase := PHASE_3, completed := 1, outstanding := 0\<rparr>)
        (put_epoch g (e0\<lparr>phase := PHASE_3, completed := 1, outstanding := 0\<rparr>)
          (fire_epoch (e0\<lparr>phase := PHASE_3, completed := 1, outstanding := 0\<rparr>) (of_nat (created c)) (nodes c w))) = Inr st"
  | (confirm) F where "F \<le> sum f {..<n}" "unat (of_nat F :: u32) = F"
      "fresh w n a f s \<longrightarrow> F = sum f {..<n} \<and>
         \<not> (phase (E w) = PHASE_2 \<and> last_active_count (E w) = of_nat F \<and> last_finished_count (E w) = of_nat F)"
      "st = broadcast_epoch_request g (put_epoch g
         (e0\<lparr>last_active_count := of_nat F, last_finished_count := of_nat F, phase := PHASE_2, outstanding := nxt\<rparr>) (nodes c w))"
  | (again) "fresh w n a f s \<longrightarrow> sum f {..<n} = 0 \<or> sum a {..<n} \<noteq> sum f {..<n}"
      "st = broadcast_epoch_request g (put_epoch g (e0\<lparr>phase := PHASE_1, outstanding := nxt\<rparr>) (nodes c w))"
  | (wait) "0 < running c w" "st = put_epoch g (e0\<lparr>phase := PHASE_1, outstanding := 0\<rparr>) (nodes c w)"
proof -
  have w: "w < n" using par by (simp add: cluster_params_def)
  obtain A F where t: "global_active_count (E w) + of_nat y + EPOCH_ACTIVE (epoch_counts (E w)) = of_nat A"
    "global_finished_count (E w) + of_nat z + EPOCH_FINISHED (epoch_counts (E w)) = of_nat F"
    "A \<le> sum a {..<n}" "F \<le> sum f {..<n}" "sum f {..<n} \<le> sum a {..<n}" "sum a {..<n} < 2 ^ 32"
    "\<forall>aT. (\<forall>j<n. aT j \<le> a j) \<longrightarrow> (\<forall>j\<in>others w n. reported (\<lambda>y z. aT j \<le> y) (s j)) \<longrightarrow> sum aT {..<n} \<le> A"
    "fresh w n a f s \<longrightarrow> A = sum a {..<n} \<and> F = sum f {..<n}"
    by (rule closing_totals [OF inv par cl])
  have lt: "A < 2 ^ 32" "F < 2 ^ 32" using t(3-6) by linarith+
  have u: "unat (of_nat A :: u32) = A" "unat (of_nat F :: u32) = F" using lt by (simp_all add: unat_of_nat_lt)
  have Ew: "epochs (nodes c w) g = Some (E w)" "arts_global_rank_count (ecfg (nodes c w)) = of_nat n"
    using inv w by (simp_all add: cluster_inv_def ranks_ok_def)
  have cr: "sum a {..<n} = created c" using inv by (simp add: cluster_inv_def tasks_ok_def)
  have qw: "queued (E w) = of_nat (running c w)" using inv w by (simp add: cluster_inv_def queues_ok_def)
  have n1: "arts_global_rank_count (ecfg (nodes c w)) \<noteq> 1"
    using Ew(2) par of_nat_rank_inj [of n 1] by (simp add: cluster_params_def)
  have AF: "of_nat A = (of_nat F :: u32) \<longleftrightarrow> A = F" "of_nat F = (0 :: u32) \<longleftrightarrow> F = 0" 
    by (simp_all only: word_unat_eq_iff u unat_0)
  note eq = reduce_close [OF Ew(1) closing_facts(2) [OF inv par cl] n1, of "of_nat y" "of_nat z",
      unfolded t(1,2) Ew(2) AF, symmetric, unfolded red, folded e0_def nxt_def]
  show thesis
  proof (cases "F \<noteq> 0 \<and> A = F")
    case True
    show thesis
    proof (cases "phase (E w) = PHASE_2 \<and> last_active_count (E w) = of_nat F \<and> last_finished_count (E w) = of_nat F")
      case conf: True
      obtain aT FT where con: "confirming w n E a s c aT FT" using inv conf by (auto simp: cluster_inv_def phase_ok_def)
      have "sum aT {..<n} \<le> A" using con t(7) by (simp add: confirming_def)
      from confirmed_quiet [OF con this] conf True u(1) have q: "quiet n c" "created c = F" using cr by simp_all
      show thesis using eq True conf q by (intro fire) (simp_all add: Let_def)
    next
      case False
      have "st = broadcast_epoch_request g (put_epoch g
         (e0\<lparr>last_active_count := of_nat F, last_finished_count := of_nat F, phase := PHASE_2, outstanding := nxt\<rparr>) (nodes c w))"
        using eq True False by auto
      then show thesis using confirm [of F, OF t(4) u(2)] t(8) False by blast
    qed
  next
    case False
    show thesis
    proof (cases "running c w = 0")
      case True
      then show thesis using eq False t(8) qw by (intro again) auto
    next
      case r: False
      have "running c w < 2 ^ 32" using tasks_bounds(2,3) [OF inv w] by linarith
      then have "queued (E w) \<noteq> 0" using qw r queue_words(4) by simp
      then show thesis using eq False r by (intro wait) auto
    qed
  qed
qed

lemma inv_response_close:
  assumes inv: "cluster_inv g w n x slot E a f s c" and par: "cluster_params g w n x" and cl: "closing w n s i y z"
    and red: "reduce_epoch g (of_nat y) (of_nat z) (nodes c w) = Inr st"
  defines "c' \<equiv> absorb w st (drop_msg (i, Epoch_Send (of_nat w) g (of_nat y) (of_nat z)) c)"
  shows "(\<exists>E s. cluster_inv g w n x slot E a f s c') \<or> ended g w n x slot c'"
  using inv par cl red
proof (cases rule: close_cases)
  case fire
  have "pool_guid (E w) = NULL_GUID" "termination_exit_guid (E w) = x" "termination_exit_slot (E w) = slot"
    using inv par by (simp_all add: cluster_inv_def ranks_ok_def cluster_params_def)
  with fire_ends(1) [OF inv par cl fire(2) _ _ _ fire(3)] show ?thesis unfolding c'_def by simp
next
  case (confirm F)
  then show ?thesis unfolding c'_def confirm(4)
    using inv_new_round [OF inv par cl, of PHASE_2 "of_nat F" "of_nat F"] by auto
next
  case again
  then show ?thesis unfolding c'_def
    using inv_new_round [OF inv par cl, of PHASE_1 "last_active_count (E w)" "last_finished_count (E w)"] by auto
next
  case wait
  then show ?thesis unfolding c'_def wait(2) using inv_idle [OF inv par cl] by auto
qed

lemma closing_open:
  assumes "i < n" "i \<noteq> w" "s i = Answered y z" "open_ranks w n s = {i}"
  shows "closing w n s i y z"
proof -
  have "is_counted (s k)" if "k \<in> others w n - {i}" for k
  proof -
    have "k \<notin> open_ranks w n s" unfolding assms(4) using that by simp
    then show ?thesis using that by (simp add: open_ranks_def)
  qed
  then show ?thesis using assms(1-3) by (simp add: closing_def)
qed

text \<open>A response in flight is the answer of some rank, on its way to the owner.\<close>

lemma response_msg:
  assumes inv: "cluster_inv g w n x slot E a f s c" and par: "cluster_params g w n x"
    and m: "j < n" "(k, Epoch_Send (of_nat j) g y z) \<in># net c" "arts_remote_handle_epoch_send g y z (nodes c j) = Inr st"
  obtains i y0 z0 where "i < n" "i \<noteq> w" "s i = Answered y0 z0"
    "absorb j st (drop_msg (k, Epoch_Send (of_nat j) g y z) c) =
       absorb w st (drop_msg (i, Epoch_Send (of_nat w) g (of_nat y0) (of_nat z0)) c)"
    "arts_remote_handle_epoch_send g (of_nat y0) (of_nat z0) (nodes c w) = Inr st"
proof -
  have w: "w < n" using par by (simp add: cluster_params_def)
  obtain i where i: "i < n" "i \<noteq> w" "(k, Epoch_Send (of_nat j) g y z) \<in># round_msgs g w i (s i)" using in_net [OF inv m(2)] .
  obtain y0 z0 where s: "s i = Answered y0 z0" "k = i" "of_nat j = (of_nat w :: u32)" "y = of_nat y0" "z = of_nat z0"
    using i(3) by (cases "s i") simp_all
  have "j < 2 ^ 32" "w < 2 ^ 32" using m(1) w par by (simp_all add: cluster_params_def)
  then have j: "j = w" using s(3) of_nat_rank_inj [of j w] by blast
  show thesis using that [OF i(1,2) s(1)] m(3) unfolding j s(2,4,5) by simp
qed

lemma inv_response:
  assumes inv: "cluster_inv g w n x slot E a f s c" and par: "cluster_params g w n x"
    and m: "j < n" "(k, Epoch_Send (of_nat j) g y z) \<in># net c" "arts_remote_handle_epoch_send g y z (nodes c j) = Inr st"
  defines "c' \<equiv> absorb j st (drop_msg (k, Epoch_Send (of_nat j) g y z) c)"
  shows "(\<exists>E s. cluster_inv g w n x slot E a f s c') \<or> ended g w n x slot c'"
proof -
  obtain i y0 z0 where i: "i < n" "i \<noteq> w" "s i = Answered y0 z0"
    "absorb j st (drop_msg (k, Epoch_Send (of_nat j) g y z) c) =
       absorb w st (drop_msg (i, Epoch_Send (of_nat w) g (of_nat y0) (of_nat z0)) c)"
    "arts_remote_handle_epoch_send g (of_nat y0) (of_nat z0) (nodes c w) = Inr st"
    by (rule response_msg [OF inv par m])
  show ?thesis
  proof (cases "open_ranks w n s = {i}")
    case False
    show ?thesis unfolding c'_def i(4) using inv_response_open [OF inv par i(1-3) False i(5)] by blast
  next
    case True
    show ?thesis unfolding c'_def i(4)
      by (rule inv_response_close [OF inv par closing_open [OF i(1-3) True] i(5) [unfolded arts_remote_handle_epoch_send_def]])
  qed
qed

section \<open>Reachable clusters\<close>

lemma ended_step:
  assumes "ended g w n x slot c" "cluster_step g n c c'" and par: "cluster_params g w n x"
  shows "ended g w n x slot c' \<and> size (net c') < size (net c)"
proof -
  from assms(1) obtain D where e: "quiet n c" "epochs (nodes c w) g = None"
    "\<forall>i<n. ep_effects (nodes c i) = [] \<and> arts_global_rank_id (ecfg (nodes c i)) = of_nat i \<and>
        (\<forall>e. epochs (nodes c i) g = Some e \<longrightarrow> pool_guid e = NULL_GUID)"
    "net c = add_mset (w, Signal_Value x slot (of_nat (created c))) D" "\<forall>m\<in>#D. \<exists>k i. m = (k, Epoch_Delete i g)"
    "size (net c) \<le> n"
    by (auto simp: ended_def)
  from assms(2) show ?thesis
  proof cases
    case (Remove i k st)
    have i: "ep_effects (nodes c i) = []" "arts_global_rank_id (ecfg (nodes c i)) = of_nat i"
      "\<And>e. epochs (nodes c i) g = Some e \<Longrightarrow> pool_guid e = NULL_GUID" using e(3) Remove(2) by auto
    have st: "ep_effects st = [] \<and> ecfg st = ecfg (nodes c i) \<and> epochs st g = None"
    proof (cases "i = w")
      case True
      then show ?thesis using Remove(4) e(2) i(1) by (simp add: arts_remote_handle_epoch_delete_def)
    next
      case False
      then have "(of_nat i :: u32) \<noteq> of_nat w" using Remove(2) par of_nat_rank_inj [of i w] by (simp add: cluster_params_def)
      then show ?thesis using Remove(4) i par
        by (auto simp: arts_remote_handle_epoch_delete_def delete_epoch_def arts_guid_is_local_def cluster_params_def Let_def
            split: option.splits)
    qed
    have D: "(k, Epoch_Delete (of_nat i) g) \<in># D" using Remove(3) e(4) by auto
    then have net: "net c' = add_mset (w, Signal_Value x slot (of_nat (created c))) (D - {#(k, Epoch_Delete (of_nat i) g)#})"
      using Remove(1) e(4) st by simp
    have "\<forall>m\<in>#D - {#(k, Epoch_Delete (of_nat i) g)#}. \<exists>k i. m = (k, Epoch_Delete i g)" using e(5) by (meson in_diffD)
    moreover have "quiet n c'" "epochs (nodes c' w) g = None" "created c' = created c" using Remove(1) e(1,2) st by (auto simp: quiet_def)
    moreover have "\<forall>j<n. ep_effects (nodes c' j) = [] \<and> arts_global_rank_id (ecfg (nodes c' j)) = of_nat j \<and>
        (\<forall>e. epochs (nodes c' j) g = Some e \<longrightarrow> pool_guid e = NULL_GUID)" using Remove(1) e(3) st by auto
    moreover have sz: "size (net c') < size (net c)" using net e(4) D by (simp add: size_Diff1_less)
    then have "size (net c') \<le> n" using e(6) by simp
    ultimately have "ended g w n x slot c'" unfolding ended_def using net by metis
    then show ?thesis using sz by blast
  qed (use e in \<open>auto simp: quiet_def\<close>)
qed

lemma inv_start:
  assumes "cluster_start g w n x slot c" "cluster_params g w n x"
  shows "\<exists>E a f s. cluster_inv g w n x slot E a f s c"
proof -
  let ?E = "\<lambda>i. (new_epoch g x slot NULL_GUID (i = w))\<lparr>epoch_counts := if i = w then EPOCH_ACTIVE_INC else 0,
      queued := if i = w then 1 else EPOCH_BIT\<rparr>"
  let ?a = "\<lambda>i. if i = w then 1 else 0 :: nat"
  have w: "w < n" using assms(2) by (simp add: cluster_params_def)
  have nodes: "epochs (nodes c i) g = Some (?E i)" "ep_effects (nodes c i) = []" if "i < n" for i
    using assms(1) that by (auto simp: cluster_start_def arts_start_epoch_def start_existing_def arts_atomic_add_u64_def new_epoch_def
        put_epoch_def ep_emit_def)
  have st: "waiting_on c = (\<lambda>_. 0)" "running c = ?a" "created c = 1" "net c = {#}"
    "\<forall>i<n. arts_global_rank_id (ecfg (nodes c i)) = of_nat i \<and> arts_global_rank_count (ecfg (nodes c i)) = of_nat n"
    using assms(1) by (simp_all add: cluster_start_def)
  have "sum ?a {..<n} = 1" using w by simp
  moreover have "packs (epoch_counts (?E i)) (?a i) 0" for i using packs_inc_active [OF packs_0] packs_0 by simp
  ultimately have "cluster_inv g w n x slot ?E ?a (\<lambda>_. 0) (\<lambda>_. Counted 0 0) c"
    using nodes st by (simp add: cluster_defs open_ranks_def) (simp add: new_epoch_def)
  then show ?thesis by blast
qed

lemma inv_step:
  assumes inv: "cluster_inv g w n x slot E a f s c" and par: "cluster_params g w n x" and step: "cluster_step g n c c'"
  shows "(\<exists>E a f s. cluster_inv g w n x slot E a f s c') \<or> ended g w n x slot c'"
  using step
proof cases
  case (Spawn_On i j)
  then show ?thesis using inv_spawn [OF inv] by blast
next
  case (Ready_On j)
  moreover have "g \<noteq> NULL_GUID" using par by (simp add: cluster_params_def)
  ultimately show ?thesis using inv_ready [OF inv] by blast
next
  case (Finish_On j st)
  then show ?thesis using inv_finish_owner [OF inv par] inv_finish_other [OF inv par] by (cases "j = w") blast+
next
  case (Request i k)
  then show ?thesis using inv_request [OF inv par] by blast
next
  case (Response j k y z st)
  then show ?thesis using inv_response [OF inv par] by blast
next
  case (Remove i k st)
  obtain j where "(k, Epoch_Delete (of_nat i) g) \<in># round_msgs g w j (s j)" using in_net [OF inv Remove(3)] .
  then show ?thesis by (cases "s j") auto
qed

lemma reachable_inv:
  assumes "(cluster_step g n)\<^sup>*\<^sup>* c0 c" "cluster_start g w n x slot c0" "cluster_params g w n x"
  shows "(\<exists>E a f s. cluster_inv g w n x slot E a f s c) \<or> ended g w n x slot c"
  using assms(1)
proof (induction rule: rtranclp_induct)
  case base
  then show ?case using inv_start [OF assms(2,3)] by blast
next
  case (step c c')
  then show ?case using inv_step [OF _ assms(3)] ended_step [OF _ _ assms(3)] by blast
qed

section \<open>A quiet cluster\<close>

fun weight :: "round_state \<Rightarrow> nat" where
  "weight Requested = 2"
| "weight (Answered y z) = 1"
| "weight s = 0"

text \<open>
  A bound on the steps until the end once no task is left: the messages of the current
  round, of the rounds after it, and of the deletion.  A round that began before the last
  task finished may report stale counts; after a fresh round one more confirms it.
\<close>

definition confirms :: "epoch \<Rightarrow> nat \<Rightarrow> bool" where
  "confirms e k \<longleftrightarrow> phase e = PHASE_2 \<and> last_active_count e = of_nat k \<and> last_finished_count e = of_nat k"

definition rounds_left :: "nat \<Rightarrow> nat \<Rightarrow> (nat \<Rightarrow> epoch) \<Rightarrow> (nat \<Rightarrow> nat) \<Rightarrow> (nat \<Rightarrow> nat) \<Rightarrow> (nat \<Rightarrow> round_state) \<Rightarrow> nat" where
  "rounds_left w n E a f s = (if \<not> fresh w n a f s then 2 else if confirms (E w) (sum f {..<n}) then 0 else 1)"

definition steps_left :: "nat \<Rightarrow> nat \<Rightarrow> (nat \<Rightarrow> epoch) \<Rightarrow> (nat \<Rightarrow> nat) \<Rightarrow> (nat \<Rightarrow> nat) \<Rightarrow> (nat \<Rightarrow> round_state) \<Rightarrow> nat" where
  "steps_left w n E a f s =
     rounds_left w n E a f s * (2 * (n - 1)) + (\<Sum>i\<in>others w n. weight (s i)) + (n - 1)"

lemma steps_left_bound: "w < n \<Longrightarrow> steps_left w n E a f s \<le> 7 * (n - 1)"
proof -
  assume w: "w < n"
  have "weight (s i) \<le> 2" for i by (cases "s i") auto
  then have "(\<Sum>i\<in>others w n. weight (s i)) \<le> (\<Sum>i\<in>others w n. 2)" by (intro sum_mono)
  then show ?thesis using card_others [OF w] by (simp add: steps_left_def rounds_left_def)
qed

lemma quiet_facts:
  assumes "cluster_inv g w n x slot E a f s c" "quiet n c" "w < n"
  shows "sum a {..<n} = sum f {..<n}" "created c = sum f {..<n}" "\<forall>i\<in>others w n. s i \<noteq> Holding" "open_ranks w n s \<noteq> {}"
    "running c w = 0"
  using assms by (auto simp: cluster_inv_def tasks_ok_def queues_ok_def quiet_def)

lemma reduce_Inr:
  assumes "epochs st g = Some e" "pool_guid e = NULL_GUID"
  shows "\<exists>st'. reduce_epoch g y z st = Inr st'"
  using assms by (auto simp: reduce_epoch_def check_epoch_def delete_epoch_def arts_atomic_add_def arts_atomic_cswap_u64_def
      arts_atomic_cswap_def arts_atomic_add_u64_def arts_atomic_sub_u64_def Let_def split: prod.splits)

lemma quiet_not_stuck:
  assumes inv: "cluster_inv g w n x slot E a f s c" and par: "cluster_params g w n x" and q: "quiet n c"
  shows "\<exists>c'. cluster_step g n c c'"
proof -
  have w: "w < n" using par by (simp add: cluster_params_def)
  obtain i where i: "i < n" "i \<noteq> w" "\<not> is_counted (s i)" "s i \<noteq> Holding"
    using quiet_facts(3,4) [OF inv q w] by (auto simp: open_ranks_def)
  have net: "m \<in># net c" if "m \<in># round_msgs g w i (s i)" for m
  proof -
    have "net c = round_msgs g w i (s i) + (\<Sum>k\<in>others w n - {i}. round_msgs g w k (s k))"
      using inv i(1,2) by (subst sum.remove [of _ i, symmetric]) (auto simp: cluster_inv_def round_ok_def)
    then show ?thesis using that by simp
  qed
  have Ew: "epochs (nodes c w) g = Some (E w)" "pool_guid (E w) = NULL_GUID" using inv w by (simp_all add: cluster_inv_def ranks_ok_def)
  show ?thesis
  proof (cases "s i")
    case Requested
    then show ?thesis using cluster_step.Request [OF i(1)] net by fastforce
  next
    case (Answered y z)
    obtain st where "arts_remote_handle_epoch_send g (of_nat y) (of_nat z) (nodes c w) = Inr st"
      using reduce_Inr [OF Ew] unfolding arts_remote_handle_epoch_send_def by blast
    then show ?thesis using cluster_step.Response [OF w _ , of i g "of_nat y" "of_nat z" c st] net Answered by fastforce
  qed (use i in auto)
qed

lemma steps_left_lower:
  assumes "i < n" "i \<noteq> w" "phase (E' w) = phase (E w)" "last_active_count (E' w) = last_active_count (E w)"
    "last_finished_count (E' w) = last_finished_count (E w)" "weight v < weight (s i)" "fresh w n a f s \<Longrightarrow> reported (\<lambda>y z. y = a i \<and> z = f i) v"
  shows "steps_left w n E' a f (s(i := v)) < steps_left w n E a f s"
proof -
  have "(\<Sum>k\<in>others w n. weight ((s(i := v)) k)) + weight (s i) = (\<Sum>k\<in>others w n. weight (s k)) + weight v"
    using sum_fun_upd [of "others w n" i "\<lambda>_. weight" s v] assms(1,2) by simp
  then have lt: "(\<Sum>k\<in>others w n. weight ((s(i := v)) k)) < (\<Sum>k\<in>others w n. weight (s k))" using assms(6) by linarith
  have "fresh w n a f s \<Longrightarrow> fresh w n a f (s(i := v))" using assms(7) by (simp add: fresh_def)
  then have "rounds_left w n E' a f (s(i := v)) \<le> rounds_left w n E a f s"
    using assms(3-5) by (auto simp: rounds_left_def confirms_def simp del: of_nat_sum)
  then have "rounds_left w n E' a f (s(i := v)) * (2 * (n - 1)) \<le> rounds_left w n E a f s * (2 * (n - 1))" by (rule mult_le_mono1)
  then show ?thesis using lt unfolding steps_left_def by linarith
qed

lemma steps_left_new_round:
  assumes par: "cluster_params g w n x" and cl: "closing w n s i y z"
    and r: "fresh w n a f s \<Longrightarrow> confirms (E' w) (sum f {..<n}) \<and> \<not> confirms (E w) (sum f {..<n})"
  shows "steps_left w n E' a f (\<lambda>_. Requested) < steps_left w n E a f s"
proof -
  have w: "w < n" using par by (simp add: cluster_params_def)
  have "weight (s i) \<le> (\<Sum>k\<in>others w n. weight (s k))" using cl by (intro member_le_sum) (auto simp: closing_def)
  then have wt: "1 \<le> (\<Sum>k\<in>others w n. weight (s k))" using cl by (simp add: closing_def)
  have "fresh w n a f (\<lambda>_. Requested)" by (simp add: fresh_def)
  then have "Suc (rounds_left w n E' a f (\<lambda>_. Requested)) \<le> rounds_left w n E a f s" using r by (auto simp: rounds_left_def)
  then have "Suc (rounds_left w n E' a f (\<lambda>_. Requested)) * (2 * (n - 1)) \<le> rounds_left w n E a f s * (2 * (n - 1))"
    by (rule mult_le_mono1)
  moreover have "(\<Sum>k\<in>others w n. weight Requested) = 2 * (n - 1)" using card_others [OF w] by simp
  ultimately show ?thesis using wt unfolding steps_left_def mult_Suc by linarith
qed

lemma quiet_close:
  assumes inv: "cluster_inv g w n x slot E a f s c" and par: "cluster_params g w n x" and q: "quiet n c" "0 < created c"
    and cl: "closing w n s i y z" and red: "reduce_epoch g (of_nat y) (of_nat z) (nodes c w) = Inr st"
  defines "c' \<equiv> absorb w st (drop_msg (i, Epoch_Send (of_nat w) g (of_nat y) (of_nat z)) c)"
  shows "(\<exists>E' s'. cluster_inv g w n x slot E' a f s' c' \<and> steps_left w n E' a f s' < steps_left w n E a f s) \<or>
     ended g w n x slot c' \<and> size (net c') \<le> steps_left w n E a f s"
proof -
  have w: "w < n" using par by (simp add: cluster_params_def)
  note qf = quiet_facts [OF inv q(1) w]
  from inv par cl red show ?thesis
  proof (cases rule: close_cases)
    case fire
    have Ew: "pool_guid (E w) = NULL_GUID" "termination_exit_guid (E w) = x" "termination_exit_slot (E w) = slot"
      using inv w by (simp_all add: cluster_inv_def ranks_ok_def)
    have "weight (s i) \<le> (\<Sum>k\<in>others w n. weight (s k))" using cl by (intro member_le_sum) (auto simp: closing_def)
    then have "n \<le> steps_left w n E a f s" using cl by (simp add: closing_def steps_left_def)
    with fire_ends [OF inv par cl fire(2) _ _ _ fire(3)] Ew show ?thesis unfolding c'_def by simp
  next
    case (confirm F)
    define e' where "e' = (E w)\<lparr>global_active_count := 0, global_finished_count := 0, last_active_count := of_nat F,
        last_finished_count := of_nat F, phase := PHASE_2, outstanding := 1 + ucast ((of_nat n :: u32) - 1)\<rparr>"
    have "cluster_inv g w n x slot (E(w := e')) a f (\<lambda>_. Requested) c'"
      unfolding c'_def confirm(4) e'_def using inv_new_round [OF inv par cl, of PHASE_2 "of_nat F" "of_nat F"] confirm(1,2) by simp
    moreover have "steps_left w n (E(w := e')) a f (\<lambda>_. Requested) < steps_left w n E a f s"
      by (rule steps_left_new_round [OF par cl]) (use confirm(3) in \<open>auto simp: e'_def confirms_def simp del: of_nat_sum\<close>)
    ultimately show ?thesis by blast
  next
    case again
    define e' where "e' = (E w)\<lparr>global_active_count := 0, global_finished_count := 0, last_active_count := last_active_count (E w),
        last_finished_count := last_finished_count (E w), phase := PHASE_1, outstanding := 1 + ucast ((of_nat n :: u32) - 1)\<rparr>"
    have "cluster_inv g w n x slot (E(w := e')) a f (\<lambda>_. Requested) c'"
      unfolding c'_def again(2) e'_def
      using inv_new_round [OF inv par cl, of PHASE_1 "last_active_count (E w)" "last_finished_count (E w)"] by simp
    moreover have "\<not> fresh w n a f s" using again(1) qf(1,2) q(2) by auto
    then have "steps_left w n (E(w := e')) a f (\<lambda>_. Requested) < steps_left w n E a f s"
      by (intro steps_left_new_round [OF par cl]) simp
    ultimately show ?thesis by blast
  next
    case wait
    then show ?thesis using qf(5) by simp
  qed
qed

lemma quiet_step:
  assumes inv: "cluster_inv g w n x slot E a f s c" and par: "cluster_params g w n x" and q: "quiet n c" "0 < created c"
    and step: "cluster_step g n c c'"
  shows "(\<exists>E' s'. cluster_inv g w n x slot E' a f s' c' \<and> steps_left w n E' a f s' < steps_left w n E a f s) \<or>
     ended g w n x slot c' \<and> size (net c') \<le> steps_left w n E a f s" (is "?P c'")
    and "quiet n c' \<and> 0 < created c'"
proof -
  have w: "w < n" using par by (simp add: cluster_params_def)
  from step show "quiet n c' \<and> 0 < created c'" by cases (use q in \<open>auto simp: quiet_def\<close>)
  from step show "?P c'"
  proof cases
    case (Request i k)
    have "running c i = 0" using q(1) Request(2) by (simp add: quiet_def)
    then obtain E' where E': "E' w = E w" "i \<noteq> w" "s i = Requested"
      "cluster_inv g w n x slot E' a f (s(i := Answered (a i) (f i))) c'"
      using inv_request [OF inv par Request(2,3)] Request(1) by auto
    then have "steps_left w n E' a f (s(i := Answered (a i) (f i))) < steps_left w n E a f s"
      using Request(2) by (intro steps_left_lower) simp_all
    then show ?thesis using E' by blast
  next
    case (Response j k y z st)
    obtain i y0 z0 where m: "i < n" "i \<noteq> w" "s i = Answered y0 z0" "c' = absorb w st (drop_msg (i, Epoch_Send (of_nat w) g (of_nat y0) (of_nat z0)) c)"
      "arts_remote_handle_epoch_send g (of_nat y0) (of_nat z0) (nodes c w) = Inr st"
      unfolding Response(1) by (rule response_msg [OF inv par Response(2-4)])
    show ?thesis
    proof (cases "open_ranks w n s = {i}")
      case False
      obtain E' where E': "phase (E' w) = phase (E w)" "last_active_count (E' w) = last_active_count (E w)"
        "last_finished_count (E' w) = last_finished_count (E w)" "cluster_inv g w n x slot E' a f (s(i := Counted y0 z0)) c'"
        using inv_response_open [OF inv par m(1-3) False m(5)] m(4) by auto
      have "reported (\<lambda>y z. y = a i \<and> z = f i) (s i)" if "fresh w n a f s" using that m(1,2) by (simp add: fresh_def)
      then have "steps_left w n E' a f (s(i := Counted y0 z0)) < steps_left w n E a f s"
        using E' m by (intro steps_left_lower) simp_all
      then show ?thesis using E'(4) by blast
    next
      case True
      show ?thesis unfolding m(4)
        using quiet_close [OF inv par q closing_open [OF m(1-3) True] m(5) [unfolded arts_remote_handle_epoch_send_def]] by blast
    qed
  next
    case (Remove i k st)
    obtain j where "(k, Epoch_Delete (of_nat i) g) \<in># round_msgs g w j (s j)" using in_net [OF inv Remove(3)] .
    then show ?thesis by (cases "s j") auto
  qed (use q in \<open>auto simp: quiet_def\<close>)
qed

lemma ended_run: "((cluster_step g n) ^^ k) c c' \<Longrightarrow> ended g w n x slot c \<Longrightarrow> cluster_params g w n x \<Longrightarrow> k < size (net c)"
proof (induction k arbitrary: c)
  case 0
  then show ?case by (auto simp: ended_def)
next
  case (Suc k)
  then obtain c1 where c1: "cluster_step g n c c1" "((cluster_step g n) ^^ k) c1 c'" by (meson relpowp_Suc_D2)
  then show ?case using Suc.IH [OF c1(2)] ended_step [OF Suc.prems(2) c1(1) Suc.prems(3)] Suc.prems(3) by auto
qed

lemma quiet_run:
  assumes "((cluster_step g n) ^^ k) c c'" "cluster_inv g w n x slot E a f s c" "cluster_params g w n x" "quiet n c" "0 < created c"
  shows "k \<le> steps_left w n E a f s"
  using assms
proof (induction k arbitrary: c E s)
  case (Suc k)
  then obtain c1 where c1: "cluster_step g n c c1" "((cluster_step g n) ^^ k) c1 c'" by (meson relpowp_Suc_D2)
  note q = quiet_step [OF Suc.prems(2-5) c1(1)]
  from q(1) show ?case
  proof (elim disjE exE conjE)
    fix E' s'
    assume "cluster_inv g w n x slot E' a f s' c1" "steps_left w n E' a f s' < steps_left w n E a f s"
    then show ?thesis using Suc.IH [OF c1(2) _ Suc.prems(3)] q(2) by fastforce
  next
    assume "ended g w n x slot c1" "size (net c1) \<le> steps_left w n E a f s"
    then show ?thesis using ended_run [OF c1(2) _ Suc.prems(3)] by fastforce
  qed
qed simp

lemma reachable_created: "(cluster_step g n)\<^sup>*\<^sup>* c0 c \<Longrightarrow> created c0 \<le> created c"
proof (induction rule: rtranclp_induct)
  case (step c c')
  from step.hyps(2) have "created c \<le> created c'" by cases simp_all
  then show ?case using step.IH by simp
qed simp

lemma start_created: "cluster_start g w n x slot c0 \<Longrightarrow> created c0 = 1"
  by (simp add: cluster_start_def)

lemma reachable_quiet: "(cluster_step g n)\<^sup>*\<^sup>* c c' \<Longrightarrow> quiet n c \<Longrightarrow> quiet n c' \<and> created c' = created c"
proof (induction rule: rtranclp_induct)
  case (step c1 c2)
  from step.hyps(2) show ?case by cases (use step in \<open>auto simp: quiet_def\<close>)
qed simp

lemma ended_signals:
  assumes "ended g w n x slot c"
  shows "signals c = {#(w, Signal_Value x slot (of_nat (created c)))#}"
proof -
  obtain D where "net c = add_mset (w, Signal_Value x slot (of_nat (created c))) D" "\<forall>m\<in>#D. \<exists>k i. m = (k, Epoch_Delete i g)"
    using assms by (auto simp: ended_def)
  moreover have "filter_mset is_signal D = {#}" 
    using calculation(2) by (subst filter_mset_cong [OF refl, of D is_signal "\<lambda>_. False"]) auto
  ultimately show ?thesis by (simp add: signals_def)
qed

lemma live_signals:
  assumes "cluster_inv g w n x slot E a f s c" "w < n"
  shows "signals c = {#}" "epochs (nodes c w) g = Some (E w)"
proof -
  have "\<not> is_signal m" if m: "m \<in># net c" for m
  proof -
    obtain i where "m \<in># round_msgs g w i (s i)" by (rule in_net [OF assms(1) m])
    then show ?thesis by (cases "s i") auto
  qed
  then show "signals c = {#}" unfolding signals_def by (subst filter_mset_cong [OF refl, of "net c" is_signal "\<lambda>_. False"]) auto
  show "epochs (nodes c w) g = Some (E w)" using assms by (simp add: cluster_inv_def ranks_ok_def)
qed

lemma stuck_ended:
  assumes "(cluster_step g n)\<^sup>*\<^sup>* c0 c" "cluster_start g w n x slot c0" "cluster_params g w n x" "quiet n c" "\<nexists>c'. cluster_step g n c c'"
  shows "ended g w n x slot c"
  using reachable_inv [OF assms(1-3)] quiet_not_stuck [OF _ assms(3,4)] assms(5) by blast

lemma quiet_bounded:
  assumes "(cluster_step g n)\<^sup>*\<^sup>* c0 c" "cluster_start g w n x slot c0" "cluster_params g w n x" "quiet n c"
    "((cluster_step g n) ^^ k) c c'"
  shows "k \<le> 7 * (n - 1)"
proof -
  have w: "w < n" using assms(3) by (simp add: cluster_params_def)
  have "0 < created c" using reachable_created [OF assms(1)] start_created [OF assms(2)] by simp
  then have "k \<le> 7 * (n - 1)" if "cluster_inv g w n x slot E a f s c" for E a f s
    using quiet_run [OF assms(5) that assms(3,4)] steps_left_bound [OF w] le_trans by blast
  moreover have "k \<le> 7 * (n - 1)" if e: "ended g w n x slot c"
  proof -
    have "size (net c) \<le> n" using e by (simp add: ended_def)
    then show ?thesis using ended_run [OF assms(5) e assms(3)] by simp
  qed
  ultimately show ?thesis using reachable_inv [OF assms(1-3)] by blast
qed

lemma quiet_reaches_end:
  assumes "(cluster_step g n)\<^sup>*\<^sup>* c0 c" "cluster_start g w n x slot c0" "cluster_params g w n x" "quiet n c"
  shows "\<exists>k c'. ((cluster_step g n) ^^ k) c c' \<and> (\<nexists>c''. cluster_step g n c' c'')"
proof (rule ccontr)
  assume go: "\<not> ?thesis"
  have "\<exists>c'. ((cluster_step g n) ^^ k) c c'" for k
    by (induction k) (use go in \<open>auto, meson relcomppI\<close>)
  then obtain c' where "((cluster_step g n) ^^ (7 * (n - 1) + 1)) c c'" by blast
  then show False using quiet_bounded [OF assms] by fastforce
qed

section \<open>Properties\<close>



text \<open>Two ranks: the task that started the epoch finishes, and the rounds run to the end.\<close>

definition demo_rank :: "nat \<Rightarrow> epoch_node" where
  "demo_rank i = demo_epoch_node\<lparr>ecfg := demo_cfg\<lparr>arts_global_rank_count := 2, arts_global_rank_id := of_nat i\<rparr>,
     epochs := (\<lambda>g. if g = 5 then Some (new_epoch 5 7 3 NULL_GUID (i = 0)) else None)\<rparr>"

definition demo_cluster :: epoch_cluster where
  "demo_cluster = \<lparr>nodes = (\<lambda>i. (if i = 0 then arts_start_epoch 5 (demo_rank i) else demo_rank i)\<lparr>ep_effects := []\<rparr>),
     waiting_on = (\<lambda>_. 0), running = (\<lambda>i. if i = 0 then 1 else 0), created = 1, net = {#}\<rparr>"

lemma demo_cluster_ok: "cluster_params 5 0 2 7" "cluster_start 5 0 2 7 3 demo_cluster"
proof -
  show "cluster_params 5 0 2 7" by (simp add: cluster_params_def) code_simp
  have "epochs (demo_rank i) 5 = Some (new_epoch 5 7 3 NULL_GUID (i = 0))" for i by (simp add: demo_rank_def)
  then have "\<exists>st. epochs st 5 = Some (new_epoch 5 7 3 NULL_GUID (i = 0)) \<and>
      nodes demo_cluster i = (if i = 0 then arts_start_epoch 5 st else st)\<lparr>ep_effects := []\<rparr>" for i
    by (intro exI [of _ "demo_rank i"]) (simp add: demo_cluster_def)
  moreover have "ecfg (nodes demo_cluster i) = demo_cfg\<lparr>arts_global_rank_count := 2, arts_global_rank_id := of_nat i\<rparr>" for i
    by (simp add: demo_cluster_def demo_rank_def arts_start_epoch_def start_existing_def put_epoch_def ep_emit_def)
  ultimately show "cluster_start 5 0 2 7 3 demo_cluster"
    by (simp add: cluster_start_def) (simp add: demo_cluster_def)
qed

lemma demo_cluster_finish: "\<exists>c. cluster_step 5 2 demo_cluster c \<and> quiet 2 c \<and> created c = 1"
proof -
  have r: "arts_guid_get_rank 5 = 0" by code_simp
  have "\<exists>st. increment_finished_epoch 5 (nodes demo_cluster 0) = Inr st"
    using r by (simp add: demo_cluster_def demo_rank_def arts_start_epoch_def start_existing_def increment_finished_epoch_def
        increment_finished_epoch_impl_def arts_atomic_fetch_add_u64_def put_epoch_def ep_emit_def Let_def split: prod.splits)
  then obtain st where "increment_finished_epoch 5 (nodes demo_cluster 0) = Inr st" ..
  then have "cluster_step 5 2 demo_cluster ((absorb 0 st demo_cluster)\<lparr>running := (running demo_cluster)(0 := running demo_cluster 0 - 1)\<rparr>)"
    by (intro Finish_On) (simp_all add: demo_cluster_def)
  moreover have "quiet 2 ((absorb 0 st demo_cluster)\<lparr>running := (running demo_cluster)(0 := running demo_cluster 0 - 1)\<rparr>)"
    "created ((absorb 0 st demo_cluster)\<lparr>running := (running demo_cluster)(0 := running demo_cluster 0 - 1)\<rparr>) = 1"
    by (simp_all add: quiet_def demo_cluster_def)
  ultimately show ?thesis by blast
qed



end
