(* ===== verification/Frontier.thy ===== *)
theory Frontier
  imports Event
begin

text \<open>
  The frontiers of a data block, \<^verbatim>\<open>memory/frontier.c\<close>.  Accesses to a data block are
  queued in a list of frontiers: the ranks and the tasks of the first one hold the block,
  the others wait.  A frontier takes any number of readers and then one writer, which
  seals it.  What a call does outside the list is recorded as effects.

  A call runs on its own here: the locks are taken and released within it, and a lock
  found taken is a call that spins forever.
\<close>

unbundle bit_operations_syntax

lemma unat_suc_lt:
  fixes a b :: u32
  assumes "a < b"
  shows "unat (a + 1) = unat a + 1"
proof -
  have "unat b < 2 ^ LENGTH(32)" by (rule unsigned_less)
  then have "unat a + unat (1 :: u32) < 2 ^ 32" using assms by (simp add: word_less_nat_alt)
  then show ?thesis by (subst unat_add_lt) simp_all
qed

section \<open>Data\<close>

abbreviation DBSPERELEMENT :: nat where "DBSPERELEMENT \<equiv> 8"
abbreviation WRITE_SET :: u32 where "WRITE_SET \<equiv> 0x80000000"
abbreviation ARTS_DEP_FLAG_PREFER_DUPLICATE :: u32 where "ARTS_DEP_FLAG_PREFER_DUPLICATE \<equiv> 1"
abbreviation ARTS_DEP_FLAG_PRESERVE_SHAPE :: u32 where "ARTS_DEP_FLAG_PRESERVE_SHAPE \<equiv> 2"

text \<open>A task in memory, by its address, and the GUID the frontiers read from it.\<close>

record edt_ref =
  eaddr :: nat
  current_edt :: arts_guid_t

type_synonym edt_ptr = "edt_ref option"

record delayed_edt =
  d_edt :: edt_ptr
  d_slot :: u32
  d_mode :: arts_db_access_mode_t

record delayed_slice =
  sl_edt :: edt_ptr
  sl_edt_guid :: arts_guid_t
  sl_slot :: u32
  sl_flags :: u32
  sl_offset :: u64
  sl_size :: u64

text \<open>
  The linked chains of arrays of \<open>DBSPERELEMENT\<close> entries are lists of arrays; the first
  array lies in the frontier itself.
\<close>

record db_frontier =
  elements :: "u32 list list"
  position :: u32
  lock :: u32
  exNode :: u32
  exEdtGuid :: arts_guid_t
  exEdt :: edt_ptr
  exSlot :: u32
  exMode :: arts_db_access_mode_t
  localWriteEdtGuid :: arts_guid_t
  localWriteEdt :: edt_ptr
  localPosition :: u32
  localDelayed :: "delayed_edt list list"
  slicePosition :: u32
  sliceDelayed :: "delayed_slice list list"

text \<open>A data block as far as the frontiers read it: its GUID and its bytes.\<close>

record db_data =
  db_guid :: arts_guid_t
  db_bytes :: "u8 list"

datatype frontier_effect =
    Send_Already_Local u32 arts_guid_t arts_guid_t u32 arts_db_access_mode_t
  | Forward_Full u32 u32 arts_guid_t arts_guid_t u32 arts_db_access_mode_t
  | Full_Request arts_guid_t u32 arts_guid_t u32 arts_db_access_mode_t
  | Db_Forward u32 u32 arts_guid_t
  | Db_Request arts_guid_t u32 edt_ptr u32 arts_db_access_mode_t
  | Full_Send u32 arts_guid_t arts_guid_t u32 arts_db_access_mode_t
  | Db_Send u32 arts_guid_t
  | Satisfy_Dep edt_ref u32 arts_guid_t
  | Satisfy_Slice edt_ref u32 arts_guid_t "u8 list"
  | Signal_Ptr arts_guid_t u32 arts_guid_t "u8 list"

section \<open>Locks\<close>

definition frontier_lock :: "u32 \<Rightarrow> u32 res" where
  "frontier_lock l = (if l AND 1 = 0 then Inr (l OR 1) else Inl Spins_Forever)"

definition frontier_unlock :: "u32 \<Rightarrow> u32" where
  "frontier_unlock l = fst (arts_atomic_fetch_and l WRITE_SET)"

definition frontier_add_read_lock :: "u32 \<Rightarrow> (u32 \<times> bool) res" where
  "frontier_add_read_lock l =
     (if l AND WRITE_SET \<noteq> 0 then Inr (l, False)
      else if l AND 1 = 0 then Inr (l OR 1, True)
      else Inl Spins_Forever)"

definition frontier_add_write_lock :: "u32 \<Rightarrow> (u32 \<times> bool) res" where
  "frontier_add_write_lock l =
     (if l AND WRITE_SET \<noteq> 0 then Inr (l, False)
      else if l AND 1 = 0 then Inr (l OR WRITE_SET OR 1, True)
      else Inl Spins_Forever)"

section \<open>Chains of arrays\<close>

definition arts_new_db_element :: "u32 list" where
  "arts_new_db_element = replicate DBSPERELEMENT 0"

definition new_delayed :: "delayed_edt list" where
  "new_delayed = replicate DBSPERELEMENT \<lparr>d_edt = None, d_slot = 0, d_mode = DB_MODE_NULL\<rparr>"

definition new_slices :: "delayed_slice list" where
  "new_slices = replicate DBSPERELEMENT
     \<lparr>sl_edt = None, sl_edt_guid = NULL_GUID, sl_slot = 0, sl_flags = 0, sl_offset = 0, sl_size = 0\<rparr>"

definition arts_new_db_frontier :: db_frontier where
  "arts_new_db_frontier =
     \<lparr>elements = [arts_new_db_element], position = 0, lock = 0, exNode = 0, exEdtGuid = NULL_GUID, exEdt = None,
      exSlot = 0, exMode = DB_MODE_NULL, localWriteEdtGuid = NULL_GUID, localWriteEdt = None,
      localPosition = 0, localDelayed = [new_delayed], slicePosition = 0, sliceDelayed = [new_slices]\<rparr>"

definition arts_new_db_list :: "db_frontier list" where
  "arts_new_db_list = [arts_new_db_frontier]"

text \<open>The scan of one array: a duplicate, the array with the entry stored, or the entries seen so far.\<close>

datatype element_scan = Duplicate | Stored "u32 list" | Scanned nat

function scan_element :: "u32 list \<Rightarrow> nat \<Rightarrow> nat \<Rightarrow> nat \<Rightarrow> u32 \<Rightarrow> element_scan" where
  "scan_element xs i j pos d =
     (if i < DBSPERELEMENT then
        if j < pos then if xs ! i = d then Duplicate else scan_element xs (i + 1) (j + 1) pos d
        else Stored (xs[i := d])
      else Scanned j)"
  by pat_completeness auto
termination by (relation "measure (\<lambda>(xs, i, j, pos, d). DBSPERELEMENT - i)") auto

declare scan_element.simps [simp del]

lemma scan_element_Scanned: "scan_element xs i j pos d = Scanned j' \<Longrightarrow> j' = j + (DBSPERELEMENT - i) \<and> (i < DBSPERELEMENT \<longrightarrow> j' \<le> pos)"
proof (induction xs i j pos d rule: scan_element.induct)
  case (1 xs i j pos d)
  note eq = 1(2) [unfolded scan_element.simps [of xs i j pos d]]
  show ?case using eq 1(1) by (cases "i + 1 < DBSPERELEMENT") (auto split: if_splits)
qed

text \<open>The walk along the chain, which is lengthened where it ends.\<close>

function push_elements :: "u32 list list \<Rightarrow> nat \<Rightarrow> nat \<Rightarrow> u32 \<Rightarrow> u32 list list \<times> bool" where
  "push_elements [] j pos d = ([], False)"
| "push_elements (xs # rest) j pos d =
     (case scan_element xs 0 j pos d of
        Duplicate \<Rightarrow> (xs # rest, False)
      | Stored ys \<Rightarrow> (ys # rest, True)
      | Scanned j' \<Rightarrow>
          (case push_elements (if rest = [] then [arts_new_db_element] else rest) j' pos d of
             (rest', r) \<Rightarrow> (xs # rest', r)))"
  by pat_completeness auto
termination by (relation "measure (\<lambda>(c, j, pos, d). pos - j)") (auto dest: scan_element_Scanned)

definition arts_push_db_to_element :: "u32 list list \<Rightarrow> u32 \<Rightarrow> u32 \<Rightarrow> u32 list list \<times> bool" where
  "arts_push_db_to_element head pos d = push_elements head 0 (unat pos) d"

text \<open>An entry is stored \<open>k\<close> arrays down the chain, which is lengthened with the array \<open>z\<close>.\<close>

fun put_block :: "'a list \<Rightarrow> nat \<Rightarrow> nat \<Rightarrow> 'a \<Rightarrow> 'a list list \<Rightarrow> 'a list list" where
  "put_block z k i v [] = []"
| "put_block z 0 i v (b # bs) = b[i := v] # bs"
| "put_block z (Suc k) i v (b # bs) = b # put_block z k i v (if bs = [] then [z] else bs)"

definition arts_push_delayed_edt :: "delayed_edt list list \<Rightarrow> u32 \<Rightarrow> delayed_edt \<Rightarrow> delayed_edt list list" where
  "arts_push_delayed_edt head pos v =
     put_block new_delayed (unat pos div DBSPERELEMENT) (unat pos mod DBSPERELEMENT) v head"

definition arts_push_delayed_slice_request :: "delayed_slice list list \<Rightarrow> u32 \<Rightarrow> delayed_slice \<Rightarrow> delayed_slice list list" where
  "arts_push_delayed_slice_request head pos v =
     put_block new_slices (unat pos div DBSPERELEMENT) (unat pos mod DBSPERELEMENT) v head"

text \<open>The loops over a chain: entry \<open>i\<close> is read from the current array, which changes after its last entry.\<close>

function walk_blocks :: "nat \<Rightarrow> nat \<Rightarrow> 'a list list \<Rightarrow> 'a list res" where
  "walk_blocks i n c =
     (if i < n then
        (case c of
           [] \<Rightarrow> Inl Null_Deref
         | b # bs \<Rightarrow>
             let p = i mod DBSPERELEMENT in
             rbind (walk_blocks (i + 1) n (if p + 1 = DBSPERELEMENT then bs else c)) (\<lambda>r. Inr (b ! p # r)))
      else Inr [])"
  by pat_completeness auto
termination by (relation "measure (\<lambda>(i, n, c). n - i)") auto

declare walk_blocks.simps [simp del]

record frontier_iter =
  it_frontier :: db_frontier
  currentIndex :: u32
  currentElement :: "u32 list list"

definition arts_db_frontier_iter_init :: "db_frontier option \<Rightarrow> frontier_iter option" where
  "arts_db_frontier_iter_init f =
     (case f of
        None \<Rightarrow> None
      | Some fr \<Rightarrow>
          if position fr = 0 then None
          else Some \<lparr>it_frontier = fr, currentIndex = 0, currentElement = elements fr\<rparr>)"

definition arts_db_frontier_iter_size :: "frontier_iter \<Rightarrow> u32" where
  "arts_db_frontier_iter_size it = position (it_frontier it)"

definition arts_db_frontier_iter_has_next :: "frontier_iter \<Rightarrow> bool" where
  "arts_db_frontier_iter_has_next it \<longleftrightarrow> currentIndex it < position (it_frontier it)"

definition arts_db_frontier_iter_next :: "frontier_iter \<Rightarrow> (frontier_iter \<times> u32) option res" where
  "arts_db_frontier_iter_next it =
     (if currentIndex it < position (it_frontier it) then
        (case currentElement it of
           [] \<Rightarrow> Inl Null_Deref
         | b # bs \<Rightarrow>
             let k = currentIndex it + 1;
                 v = b ! (unat (currentIndex it) mod DBSPERELEMENT)
             in Inr (Some (it\<lparr>currentIndex := k,
                            currentElement := if unat k mod DBSPERELEMENT = 0 then bs else currentElement it\<rparr>, v)))
      else Inr None)"

text \<open>All ranks an iterator still gives.\<close>

function iter_ranks :: "frontier_iter \<Rightarrow> u32 list res" where
  "iter_ranks it =
     (case arts_db_frontier_iter_next it of
        Inl e \<Rightarrow> Inl e
      | Inr None \<Rightarrow> Inr []
      | Inr (Some (it', v)) \<Rightarrow> rbind (iter_ranks it') (\<lambda>r. Inr (v # r)))"
  by pat_completeness auto
termination
proof (relation "measure (\<lambda>it. unat (position (it_frontier it)) - unat (currentIndex it))", goal_cases)
  case (2 it x2 x2a x y)
  then have lt: "currentIndex it < position (it_frontier it)" and x: "it_frontier x = it_frontier it" "currentIndex x = currentIndex it + 1"
    by (auto simp: arts_db_frontier_iter_next_def Let_def split: if_splits list.splits)
  have "unat (currentIndex it + 1) = unat (currentIndex it) + 1" using lt by (simp add: unat_suc_lt)
  then show ?case using lt x by (simp add: word_less_nat_alt)
qed simp

declare iter_ranks.simps [simp del]

section \<open>Writers\<close>

definition arts_candidate_edt_guid :: "edt_ptr \<Rightarrow> arts_guid_t \<Rightarrow> arts_guid_t" where
  "arts_candidate_edt_guid edt g =
     (case edt of Some e \<Rightarrow> if g = NULL_GUID then current_edt e else g | None \<Rightarrow> g)"

definition same_edt :: "edt_ptr \<Rightarrow> edt_ptr \<Rightarrow> bool" where
  "same_edt p q \<longleftrightarrow> map_option eaddr p = map_option eaddr q"

definition arts_same_local_writer :: "db_frontier \<Rightarrow> edt_ptr \<Rightarrow> arts_guid_t \<Rightarrow> bool" where
  "arts_same_local_writer fr edt g =
     (let g = arts_candidate_edt_guid edt g in
      if edt \<noteq> None \<and> same_edt (localWriteEdt fr) edt then True
      else g \<noteq> NULL_GUID \<and> localWriteEdtGuid fr = g)"

definition arts_try_join_same_local_writer :: "db_frontier \<Rightarrow> edt_ptr \<Rightarrow> arts_guid_t \<Rightarrow> (db_frontier \<times> bool) res" where
  "arts_try_join_same_local_writer fr edt g =
     rbind (frontier_lock (lock fr)) (\<lambda>l.
       Inr (fr\<lparr>lock := frontier_unlock l\<rparr>, arts_same_local_writer fr edt g))"

definition arts_record_local_writer :: "edt_ptr \<Rightarrow> arts_guid_t \<Rightarrow> db_frontier \<Rightarrow> db_frontier" where
  "arts_record_local_writer edt g fr =
     fr\<lparr>localWriteEdt := edt, localWriteEdtGuid := arts_candidate_edt_guid edt g\<rparr>"

section \<open>Slices\<close>

definition arts_validate_db_slice :: "db_data \<Rightarrow> u64 \<Rightarrow> u64 \<Rightarrow> unit res" where
  "arts_validate_db_slice db off sz =
     (let data_size = of_nat (length (db_bytes db)) :: u64 in
      if sz > 0xFFFFFFFF then Inl ARTS_ERROR
      else if off > data_size \<or> sz > data_size - off then Inl ARTS_ERROR
      else Inr ())"

definition arts_db_slice_signal_size :: "db_data \<Rightarrow> u64 \<Rightarrow> u32 \<Rightarrow> u32 res" where
  "arts_db_slice_signal_size db slice_size flags =
     (if flags AND ARTS_DEP_FLAG_PRESERVE_SHAPE \<noteq> 0 then
        let data_size = of_nat (length (db_bytes db)) :: u64 in
        if data_size > 0xFFFFFFFF then Inl ARTS_ERROR else Inr (ucast data_size)
      else Inr (ucast slice_size))"

definition slice_bytes :: "db_data \<Rightarrow> u64 \<Rightarrow> u64 \<Rightarrow> u8 list" where
  "slice_bytes db off sz = take (unat sz) (drop (unat off) (db_bytes db))"

text \<open>
  The copy made for a slice.  With the shape kept it is as long as the block, zero outside
  the slice; otherwise it has the bytes of the slice only.
\<close>

definition arts_alloc_db_slice_copy :: "db_data \<Rightarrow> u64 \<Rightarrow> u64 \<Rightarrow> u32 \<Rightarrow> u8 list res" where
  "arts_alloc_db_slice_copy db off sz flags =
     rbind (arts_validate_db_slice db off sz) (\<lambda>_.
     rbind (arts_db_slice_signal_size db sz flags) (\<lambda>signal_size.
       Inr (if flags AND ARTS_DEP_FLAG_PRESERVE_SHAPE \<noteq> 0
            then (let zeros = replicate (unat signal_size) 0
                  in if sz = 0 then zeros
                     else take (unat off) zeros @ slice_bytes db off sz @ drop (unat off + unat sz) zeros)
            else slice_bytes db off sz)))"

definition arts_satisfy_local_edt_slice ::
    "db_data \<Rightarrow> edt_ref \<Rightarrow> u32 \<Rightarrow> u64 \<Rightarrow> u64 \<Rightarrow> u32 \<Rightarrow> frontier_effect res" where
  "arts_satisfy_local_edt_slice db edt slot off sz flags =
     rbind (arts_alloc_db_slice_copy db off sz flags) (\<lambda>c. Inr (Satisfy_Slice edt slot (db_guid db) c))"

definition arts_signal_db_slice ::
    "db_data \<Rightarrow> arts_guid_t \<Rightarrow> u32 \<Rightarrow> u64 \<Rightarrow> u64 \<Rightarrow> u32 \<Rightarrow> frontier_effect res" where
  "arts_signal_db_slice db g slot off sz flags =
     rbind (arts_validate_db_slice db off sz) (\<lambda>_.
       if flags AND ARTS_DEP_FLAG_PRESERVE_SHAPE \<noteq> 0 then
         rbind (arts_db_slice_signal_size db sz flags) (\<lambda>signal_size.
         rbind (arts_alloc_db_slice_copy db off sz flags) (\<lambda>c.
           Inr (Signal_Ptr g slot (db_guid db) (take (unat signal_size) c))))
       else Inr (Signal_Ptr g slot (db_guid db) (slice_bytes db off sz)))"

definition serve_slice :: "db_data \<Rightarrow> delayed_slice \<Rightarrow> frontier_effect res" where
  "serve_slice db s =
     (case sl_edt s of
        Some e \<Rightarrow> arts_satisfy_local_edt_slice db e (sl_slot s) (sl_offset s) (sl_size s) (sl_flags s)
      | None \<Rightarrow> arts_signal_db_slice db (sl_edt_guid s) (sl_slot s) (sl_offset s) (sl_size s) (sl_flags s))"

section \<open>Joining a frontier\<close>

text \<open>A request for access: the arguments of the push operations.\<close>

record access =
  a_rank :: u32
  a_write :: bool
  a_local :: bool
  a_bypass :: bool
  a_edt :: edt_ptr
  a_edt_guid :: arts_guid_t
  a_slot :: u32
  a_mode :: arts_db_access_mode_t

text \<open>\<open>None\<close> is a frontier that does not take the request, \<open>Some unique\<close> one that does.\<close>

definition arts_push_db_to_frontier :: "access \<Rightarrow> db_frontier \<Rightarrow> (db_frontier \<times> bool option) res" where
  "arts_push_db_to_frontier a fr =
     rbind (if a_bypass a then frontier_add_read_lock (lock fr)
            else if a_write a then frontier_add_write_lock (lock fr)
            else frontier_add_read_lock (lock fr)) (\<lambda>(l, ok).
       if \<not> ok then Inr (fr\<lparr>lock := l\<rparr>, None)
       else
         (case arts_push_db_to_element (elements fr) (position fr) (a_rank a) of
            (es, inserted) \<Rightarrow>
              let fr = fr\<lparr>lock := l, elements := es, position := (if inserted then position fr + 1 else position fr)\<rparr>;
                  fr = (if inserted \<and> a_write a \<and> \<not> a_local a
                        then fr\<lparr>exNode := a_rank a, exEdtGuid := a_edt_guid a, exEdt := a_edt a,
                               exSlot := a_slot a, exMode := a_mode a\<rparr> else fr);
                  fr = (if a_write a \<and> a_local a then arts_record_local_writer (a_edt a) (a_edt_guid a) fr else fr)
              in Inr (fr\<lparr>lock := frontier_unlock (lock fr)\<rparr>, Some inserted)))"

lemma rejected_sealed:
  assumes "arts_push_db_to_frontier a fr = Inr (fr', None)"
  shows "lock fr AND WRITE_SET \<noteq> 0" "fr' = fr"
  using assms
  by (auto simp: arts_push_db_to_frontier_def frontier_add_read_lock_def frontier_add_write_lock_def Let_def
      split: if_splits sum.splits prod.splits)

section \<open>The list of frontiers\<close>

definition sealed :: "db_frontier \<Rightarrow> bool" where
  "sealed fr \<longleftrightarrow> lock fr AND WRITE_SET \<noteq> 0"

lemma new_frontier_open [simp]: "\<not> sealed arts_new_db_frontier"
  by (simp add: sealed_def arts_new_db_frontier_def)

text \<open>
  The walk of \<open>arts_push_db_to_list\<close>: the list, the place of the frontier that took the
  request, and whether its rank was new there.  A frontier that refuses is sealed, and a
  new frontier at the end is not.
\<close>

function push_loop :: "access \<Rightarrow> db_frontier list \<Rightarrow> (db_frontier list \<times> nat \<times> bool) res" where
  "push_loop a [] = Inl Null_Deref"
| "push_loop a (fr # rest) =
     (case arts_push_db_to_frontier a fr of
        Inl e \<Rightarrow> Inl e
      | Inr (fr1, Some u) \<Rightarrow> Inr (fr1 # rest, 0, u)
      | Inr (fr1, None) \<Rightarrow>
          (case (if a_local a then arts_try_join_same_local_writer fr1 (a_edt a) (a_edt_guid a) else Inr (fr1, False)) of
             Inl e \<Rightarrow> Inl e
           | Inr (fr2, joined) \<Rightarrow>
               if joined then Inr (fr2 # rest, 0, False)
               else rbind (push_loop a (if rest = [] then [arts_new_db_frontier] else rest))
                      (\<lambda>(rest', k, u). Inr (fr2 # rest', Suc k, u))))"
  by pat_completeness auto
termination
  by (relation "measure (\<lambda>(a, fs). length (filter sealed fs))") (auto dest!: rejected_sealed(1) simp: sealed_def [symmetric])

definition add_delayed :: "delayed_edt \<Rightarrow> db_frontier \<Rightarrow> db_frontier res" where
  "add_delayed d fr =
     rbind (frontier_lock (lock fr)) (\<lambda>l.
       Inr (fr\<lparr>localDelayed := arts_push_delayed_edt (localDelayed fr) (localPosition fr) d,
              localPosition := localPosition fr + 1, lock := frontier_unlock l\<rparr>))"

text \<open>The result is the list, whether the rank was inserted uniquely, and whether the head took it.\<close>

definition arts_push_db_to_list :: "access \<Rightarrow> db_frontier list \<Rightarrow> (db_frontier list \<times> bool \<times> bool) res" where
  "arts_push_db_to_list a fs =
     (let fs = (if fs = [] then arts_new_db_list else fs) in
      rbind (push_loop a fs) (\<lambda>(fs, k, unique).
      rbind (if a_local a \<and> k \<noteq> 0
             then rbind (add_delayed \<lparr>d_edt = a_edt a, d_slot = a_slot a, d_mode = a_mode a\<rparr> (fs ! k)) (\<lambda>fr. Inr (fs[k := fr]))
             else Inr fs) (\<lambda>fs.
        Inr (fs, unique, k = 0))))"

definition arts_current_frontier_size :: "db_frontier list \<Rightarrow> u32 res" where
  "arts_current_frontier_size fs =
     (case fs of
        [] \<Rightarrow> Inr 0
      | fr # _ \<Rightarrow> rbind (frontier_lock (lock fr)) (\<lambda>l. Inr (position fr)))"

definition arts_close_frontier :: "db_frontier list \<Rightarrow> (db_frontier list \<times> frontier_iter option) res" where
  "arts_close_frontier fs =
     (case fs of
        [] \<Rightarrow> Inr ([], None)
      | fr # rest \<Rightarrow>
          rbind (frontier_lock (lock fr)) (\<lambda>l.
            let fr = fr\<lparr>lock := fst (arts_atomic_fetch_or l (WRITE_SET OR 1))\<rparr>
            in Inr (fr\<lparr>lock := frontier_unlock (lock fr)\<rparr> # rest, arts_db_frontier_iter_init (Some fr))))"

text \<open>The walk of \<open>arts_request_db_slice\<close>.\<close>

function slice_loop :: "db_data \<Rightarrow> delayed_slice \<Rightarrow> bool \<Rightarrow> db_frontier list \<Rightarrow> (db_frontier list \<times> frontier_effect list) res" where
  "slice_loop db s is_head [] = Inr ([], [])"
| "slice_loop db s is_head (fr # rest) =
     (case frontier_add_read_lock (lock fr) of
        Inl e \<Rightarrow> Inl e
      | Inr (l, ok) \<Rightarrow>
          if ok then
            if is_head then rbind (serve_slice db s) (\<lambda>x. Inr (fr\<lparr>lock := frontier_unlock l\<rparr> # rest, [x]))
            else Inr (fr\<lparr>sliceDelayed := arts_push_delayed_slice_request (sliceDelayed fr) (slicePosition fr) s,
                        slicePosition := slicePosition fr + 1, lock := frontier_unlock l\<rparr> # rest, [])
          else rbind (slice_loop db s False (if rest = [] then [arts_new_db_frontier] else rest))
                 (\<lambda>(rest', xs). Inr (fr # rest', xs)))"
  by pat_completeness auto
termination
  by (relation "measure (\<lambda>(db, s, h, fs). length (filter sealed fs))")
     (auto simp: frontier_add_read_lock_def sealed_def arts_new_db_frontier_def split: if_splits)

section \<open>Progress\<close>

definition has_remote_writer :: "db_frontier \<Rightarrow> bool" where
  "has_remote_writer fr \<longleftrightarrow> exEdt fr \<noteq> None \<or> exEdtGuid fr \<noteq> NULL_GUID"

text \<open>The ranks of a frontier that are sent the block: not this one, and not the remote writer.\<close>

definition other_ranks :: "u32 \<Rightarrow> db_frontier \<Rightarrow> u32 list res" where
  "other_ranks me fr =
     (case arts_db_frontier_iter_init (Some fr) of
        None \<Rightarrow> Inr []
      | Some it \<Rightarrow>
          rbind (iter_ranks it) (\<lambda>ns.
            Inr (filter (\<lambda>n. n \<noteq> me \<and> \<not> (has_remote_writer fr \<and> n = exNode fr)) ns)))"

fun serve_slices :: "db_data \<Rightarrow> delayed_slice list \<Rightarrow> frontier_effect list res" where
  "serve_slices db [] = Inr []"
| "serve_slices db (s # ss) = rbind (serve_slice db s) (\<lambda>x. rbind (serve_slices db ss) (\<lambda>xs. Inr (x # xs)))"

definition delayed_slices :: "db_data \<Rightarrow> db_frontier \<Rightarrow> frontier_effect list res" where
  "delayed_slices db fr = rbind (walk_blocks 0 (unat (slicePosition fr)) (sliceDelayed fr)) (serve_slices db)"

text \<open>\<open>me\<close> is the rank of the node, \<open>from\<close> the rank that has the block.\<close>

definition arts_signal_frontier_remote ::
    "u32 \<Rightarrow> db_data \<Rightarrow> u32 \<Rightarrow> db_frontier \<Rightarrow> (db_frontier \<times> frontier_effect list) res" where
  "arts_signal_frontier_remote me db from fr =
     rbind (frontier_lock (lock fr)) (\<lambda>l.
       let ex = (if has_remote_writer fr then
                   let g = arts_candidate_edt_guid (exEdt fr) (exEdtGuid fr) in
                   if exNode fr = from then [Send_Already_Local from (db_guid db) g (exSlot fr) (exMode fr)]
                   else if exNode fr \<noteq> me then [Forward_Full (exNode fr) from (db_guid db) g (exSlot fr) (exMode fr)]
                   else [Full_Request (db_guid db) from g (exSlot fr) (exMode fr)]
                 else [])
       in rbind (other_ranks me fr) (\<lambda>ns.
          rbind (walk_blocks 0 (unat (localPosition fr)) (localDelayed fr)) (\<lambda>ds.
          rbind (delayed_slices db fr) (\<lambda>ss.
            case arts_push_db_to_element (elements fr) (position fr) from of
              (es, inserted) \<Rightarrow>
                Inr (fr\<lparr>elements := es, position := (if inserted then position fr + 1 else position fr),
                       lock := frontier_unlock l\<rparr>,
                     ex @ map (\<lambda>n. Db_Forward n from (db_guid db)) ns
                        @ map (\<lambda>d. Db_Request (db_guid db) from (d_edt d) (d_slot d) (d_mode d)) ds @ ss)))))"

text \<open>Waiting tasks get the block; \<open>edt_of\<close> is the route table's lookup of a task.\<close>

fun satisfy_delayed :: "db_data \<Rightarrow> delayed_edt list \<Rightarrow> frontier_effect list res" where
  "satisfy_delayed db [] = Inr []"
| "satisfy_delayed db (d # ds) =
     (case d_edt d of
        None \<Rightarrow> Inl Null_Deref
      | Some e \<Rightarrow> rbind (satisfy_delayed db ds) (\<lambda>xs. Inr (Satisfy_Dep e (d_slot d) (db_guid db) # xs)))"

definition arts_signal_frontier_local ::
    "u32 \<Rightarrow> (arts_guid_t \<Rightarrow> edt_ptr) \<Rightarrow> db_data \<Rightarrow> db_frontier \<Rightarrow> (db_frontier \<times> frontier_effect list) res" where
  "arts_signal_frontier_local me edt_of db fr =
     rbind (frontier_lock (lock fr)) (\<lambda>l.
       let ex = (if has_remote_writer fr then
                   let g = arts_candidate_edt_guid (exEdt fr) (exEdtGuid fr);
                       edt = (if exEdt fr = None \<and> g \<noteq> NULL_GUID then edt_of g else exEdt fr)
                   in if exNode fr = me
                      then (case edt of Some e \<Rightarrow> [Satisfy_Dep e (exSlot fr) (db_guid db)] | None \<Rightarrow> [])
                      else [Full_Send (exNode fr) (db_guid db) g (exSlot fr) (exMode fr)]
                 else [])
       in rbind (other_ranks me fr) (\<lambda>ns.
          rbind (walk_blocks 0 (unat (localPosition fr)) (localDelayed fr)) (\<lambda>ds.
          rbind (satisfy_delayed db ds) (\<lambda>ls.
          rbind (delayed_slices db fr) (\<lambda>ss.
            Inr (fr\<lparr>lock := frontier_unlock l\<rparr>,
                 ex @ map (\<lambda>n. Db_Send n (db_guid db)) ns @ ls @ ss))))))"

definition arts_progress_frontier ::
    "u32 \<Rightarrow> (arts_guid_t \<Rightarrow> edt_ptr) \<Rightarrow> db_data \<Rightarrow> u32 \<Rightarrow> db_frontier list \<Rightarrow> (db_frontier list \<times> frontier_effect list) res" where
  "arts_progress_frontier me edt_of db rnk fs =
     (case fs of
        [] \<Rightarrow> Inr ([], [])
      | [_] \<Rightarrow> Inr ([], [])
      | _ # fr # rest \<Rightarrow>
          rbind (if rnk = me then arts_signal_frontier_local me edt_of db fr
                 else arts_signal_frontier_remote me db rnk fr) (\<lambda>(fr, xs). Inr (fr # rest, xs)))"

definition arts_progress_and_get_frontier :: "db_frontier list \<Rightarrow> (db_frontier list \<times> frontier_iter option) res" where
  "arts_progress_and_get_frontier fs =
     (case fs of [] \<Rightarrow> Inl Null_Deref | fr # rest \<Rightarrow> Inr (rest, arts_db_frontier_iter_init (Some fr)))"

section \<open>Data blocks and requests of other ranks\<close>

datatype arts_db_types_t = ARTS_DB_DEFAULT | ARTS_DB_LOCAL | ARTS_DB_GPU | ARTS_DB_LC

text \<open>The list of a block: none yet, the marker of a block that is not tracked, or its frontiers.\<close>

datatype db_list_ptr = No_List | Untracked | Frontiers "db_frontier list"

record db_block = db_data +
  db_type :: arts_db_types_t
  db_list :: db_list_ptr

definition arts_request_db_slice ::
    "db_block option \<Rightarrow> delayed_slice \<Rightarrow> (db_block option \<times> bool \<times> frontier_effect list) res" where
  "arts_request_db_slice db s =
     (case db of
        None \<Rightarrow> Inr (None, False, [])
      | Some b \<Rightarrow>
          (case db_list b of
             No_List \<Rightarrow> rbind (serve_slice (db_data.truncate b) s) (\<lambda>x. Inr (Some b, True, [x]))
           | Untracked \<Rightarrow> Inl Null_Deref
           | Frontiers fs \<Rightarrow>
               rbind (slice_loop (db_data.truncate b) s True (if fs = [] then arts_new_db_list else fs)) (\<lambda>(fs, xs).
                 Inr (Some (b\<lparr>db_list := Frontiers fs\<rparr>), True, xs))))"

definition arts_add_db_duplicate_ex ::
    "db_block option \<Rightarrow> u32 \<Rightarrow> edt_ptr \<Rightarrow> arts_guid_t \<Rightarrow> u32 \<Rightarrow> arts_db_access_mode_t \<Rightarrow> u32 \<Rightarrow>
     (db_block option \<times> bool \<times> bool) res" where
  "arts_add_db_duplicate_ex db rnk edt g slot mode flags =
     (case db of
        None \<Rightarrow> Inr (None, True, True)
      | Some b \<Rightarrow>
          if db_type b = ARTS_DB_LOCAL \<or> db_list b = Untracked then Inr (Some b, True, True)
          else
            let fs = (case db_list b of Frontiers fs \<Rightarrow> fs | _ \<Rightarrow> arts_new_db_list) in
            rbind (arts_push_db_to_list
                     \<lparr>a_rank = rnk, a_write = (mode = DB_MODE_EW \<or> mode = DB_MODE_MEMSET),
                      a_local = (arts_guid_get_rank (db_guid b) = rnk),
                      a_bypass = (mode = DB_MODE_RO \<and> flags AND ARTS_DEP_FLAG_PREFER_DUPLICATE \<noteq> 0),
                      a_edt = edt, a_edt_guid = arts_candidate_edt_guid edt g, a_slot = slot, a_mode = mode\<rparr> fs)
              (\<lambda>(fs, unique, on_head). Inr (Some (b\<lparr>db_list := Frontiers fs\<rparr>), unique, on_head)))"

definition arts_add_db_duplicate ::
    "db_block option \<Rightarrow> u32 \<Rightarrow> edt_ptr \<Rightarrow> arts_guid_t \<Rightarrow> u32 \<Rightarrow> arts_db_access_mode_t \<Rightarrow> (db_block option \<times> bool \<times> bool) res" where
  "arts_add_db_duplicate db rnk edt g slot mode = arts_add_db_duplicate_ex db rnk edt g slot mode 0"

fun clear_exclusive :: "u32 \<Rightarrow> arts_guid_t \<Rightarrow> db_frontier list \<Rightarrow> db_frontier list" where
  "clear_exclusive rnk g [] = []"
| "clear_exclusive rnk g (fr # rest) =
     (if exNode fr = rnk \<and> exEdtGuid fr = g
      then fr\<lparr>exEdtGuid := NULL_GUID, exEdt := None, exSlot := 0, exMode := DB_MODE_NULL\<rparr> # rest
      else fr # clear_exclusive rnk g rest)"

definition arts_clear_exclusive_request :: "u32 \<Rightarrow> arts_guid_t \<Rightarrow> db_block \<Rightarrow> db_block res" where
  "arts_clear_exclusive_request rnk g b =
     (case db_list b of
        No_List \<Rightarrow> Inr b
      | Untracked \<Rightarrow> Inl Null_Deref
      | Frontiers fs \<Rightarrow> Inr (b\<lparr>db_list := Frontiers (clear_exclusive rnk g fs)\<rparr>))"

text \<open>A rank asks for a copy, and for the block itself. The number is how
  many references go back to the route table.\<close>

definition arts_remote_db_send_check ::
    "node_cfg \<Rightarrow> u32 \<Rightarrow> arts_db_access_mode_t \<Rightarrow> u32 \<Rightarrow> db_block \<Rightarrow> (db_block \<times> nat \<times> frontier_effect list) res" where
  "arts_remote_db_send_check nc rnk mode flags b =
     (if \<not> arts_guid_is_local nc (db_guid b) then Inr (b, 1, [Db_Send rnk (db_guid b)])
      else rbind (arts_add_db_duplicate_ex (Some b) rnk None NULL_GUID 0 mode flags) (\<lambda>(b', added, _).
             case b' of None \<Rightarrow> Inl Null_Deref
             | Some b' \<Rightarrow> Inr (b', 0, if added then [Db_Send rnk (db_guid b)] else [])))"

definition arts_remote_db_full_send_check ::
    "node_cfg \<Rightarrow> u32 \<Rightarrow> arts_guid_t \<Rightarrow> u32 \<Rightarrow> arts_db_access_mode_t \<Rightarrow> db_block \<Rightarrow> (db_block \<times> nat \<times> frontier_effect list) res" where
  "arts_remote_db_full_send_check nc rnk g slot mode b =
     (if \<not> arts_guid_is_local nc (db_guid b) then Inr (b, 1, [Full_Send rnk (db_guid b) g slot mode])
      else rbind (arts_add_db_duplicate (Some b) rnk None g slot mode) (\<lambda>(b', added, on_head).
             case b' of None \<Rightarrow> Inl Null_Deref
             | Some b' \<Rightarrow>
                 if added \<and> on_head
                 then rbind (arts_clear_exclusive_request rnk g b') (\<lambda>b'. Inr (b', 0, [Full_Send rnk (db_guid b) g slot mode]))
                 else Inr (b', 0, [])))"

end
