(* ===== verification/Frontier_Props.thy ===== *)
theory Frontier_Props
  imports Frontier
begin

text \<open>
  Correctness of the frontiers.  The chains of arrays behave as lists; the list of
  frontiers keeps its form; an access that comes after a write is placed behind it; tasks
  that had to wait get the block once each, in order.  Two requests of other ranks are
  shown to go wrong.
\<close>

section \<open>Chains as lists\<close>

definition blocks_ok :: "'a list list \<Rightarrow> nat \<Rightarrow> bool" where
  "blocks_ok c n \<longleftrightarrow> c \<noteq> [] \<and> (\<forall>b\<in>set c. length b = DBSPERELEMENT) \<and> n \<le> DBSPERELEMENT * length c"

lemma blocks_concat: "\<forall>b\<in>set c. length b = DBSPERELEMENT \<Longrightarrow> length (concat c) = DBSPERELEMENT * length c"
  by (induction c) auto

lemma scan_element_spec:
  assumes "length xs = DBSPERELEMENT" "i \<le> DBSPERELEMENT" "j \<le> pos"
  shows "scan_element xs i j pos d =
     (if d \<in> set (take (pos - j) (drop i xs)) then Duplicate
      else if pos - j < DBSPERELEMENT - i then Stored (xs[i + (pos - j) := d])
      else Scanned (j + (DBSPERELEMENT - i)))"
  using assms
proof (induction xs i j pos d rule: scan_element.induct)
  case (1 xs i j pos d)
  show ?case
  proof (cases "i < DBSPERELEMENT \<and> j < pos")
    case True
    then obtain k where k: "pos - j = Suc k" "pos - (j + 1) = k" by (metis Suc_diff_Suc Suc_eq_plus1 diff_Suc_1)
    have "drop i xs = xs ! i # drop (i + 1) xs" using True 1(2) by (simp add: Cons_nth_drop_Suc)
    then have "set (take (pos - j) (drop i xs)) = insert (xs ! i) (set (take (pos - (j + 1)) (drop (i + 1) xs)))" using k by simp
    moreover have "scan_element xs i j pos d = (if xs ! i = d then Duplicate else scan_element xs (i + 1) (j + 1) pos d)"
      using True by (simp add: scan_element.simps [of xs i])
    ultimately show ?thesis using True 1 k by auto
  next
    case False
    then have "scan_element xs i j pos d = (if i < DBSPERELEMENT then Stored (xs[i := d]) else Scanned j)"
      using 1(4) by (simp add: scan_element.simps [of xs i])
    then show ?thesis using False 1(2,3,4) by auto
  qed
qed

lemma push_elements_spec:
  assumes "\<forall>b\<in>set c. length b = DBSPERELEMENT" "c \<noteq> []" "j \<le> pos" "pos - j \<le> DBSPERELEMENT * length c"
  shows "if d \<in> set (take (pos - j) (concat c)) then push_elements c j pos d = (c, False)
     else \<exists>c'. push_elements c j pos d = (c', True) \<and> take (pos - j + 1) (concat c') = take (pos - j) (concat c) @ [d] \<and>
       (\<forall>b\<in>set c'. length b = DBSPERELEMENT) \<and> c' \<noteq> [] \<and> pos - j + 1 \<le> DBSPERELEMENT * length c'"
  using assms
proof (induction c j pos d rule: push_elements.induct)
  case (2 xs rest j pos d)
  have len: "length xs = DBSPERELEMENT" using 2(2) by simp
  note scan = scan_element_spec [OF len, of 0 j pos d, simplified]
  let ?r = "if rest = [] then [arts_new_db_element] else rest"
  consider (dup) "d \<in> set (take (pos - j) xs)" | (store) "d \<notin> set (take (pos - j) xs)" "pos - j < DBSPERELEMENT"
    | (more) "d \<notin> set xs" "DBSPERELEMENT \<le> pos - j" using len by force
  then show ?case
  proof cases
    case dup
    then show ?thesis using scan 2(4) by (simp del: take_all_iff)
  next
    case store
    then have "push_elements (xs # rest) j pos d = (xs[pos - j := d] # rest, True)" using scan 2(4) by simp
    moreover have "take (pos - j + 1) (xs[pos - j := d]) = take (pos - j) xs @ [d]"
      using store(2) len by (simp add: take_Suc_conv_app_nth)
    ultimately show ?thesis using store len 2(2) by auto
  next
    case more
    obtain m where m: "pos = j + DBSPERELEMENT + m" using more(2) 2(4) by (metis le_add_diff_inverse le_Suc_ex add.assoc)
    have pj: "pos - j = DBSPERELEMENT + m" "pos - (j + DBSPERELEMENT) = m" unfolding m by simp_all
    have sc: "scan_element xs 0 j pos d = Scanned (j + DBSPERELEMENT)" using scan 2(4) more len by simp
    have r: "\<forall>b\<in>set ?r. length b = DBSPERELEMENT" "?r \<noteq> []" "j + DBSPERELEMENT \<le> pos" "m \<le> DBSPERELEMENT * length ?r"
      using 2(2,5) pj m by (auto simp: arts_new_db_element_def)
    have m0: "m = 0" if "rest = []" using that 2(5) pj by simp
    have same: "take m (concat ?r) = take m (concat rest)" using m0 by (cases "rest = []") auto
    have tk: "take (DBSPERELEMENT + k) (concat (xs # ys)) = xs @ take k (concat ys)" for k ys using len by simp
    have set: "d \<in> set (take (pos - j) (concat (xs # rest))) \<longleftrightarrow> d \<in> set (take m (concat ?r))"
      unfolding pj(1) tk same using more(1) by simp
    note IH = 2(1) [OF sc r(1,2,3), unfolded pj, OF r(4)]
    show ?thesis
    proof (cases "d \<in> set (take m (concat ?r))")
      case True
      then have "rest \<noteq> []" using m0 by (cases "rest = []") auto
      then show ?thesis using IH True set sc by simp
    next
      case False
      then obtain c' where c': "push_elements ?r (j + DBSPERELEMENT) pos d = (c', True)"
        "take (m + 1) (concat c') = take m (concat ?r) @ [d]"
        "\<forall>b\<in>set c'. length b = DBSPERELEMENT" "c' \<noteq> []" "m + 1 \<le> DBSPERELEMENT * length c'"
        using IH by (simp only: if_False) blast
      have "push_elements (xs # rest) j pos d = (xs # c', True)" using sc c'(1) by simp
      moreover have "take (pos - j + 1) (concat (xs # c')) = take (pos - j) (concat (xs # rest)) @ [d]"
        unfolding pj(1) add.assoc tk c'(2) same by simp
      moreover have "\<forall>b\<in>set (xs # c'). length b = DBSPERELEMENT" "pos - j + 1 \<le> DBSPERELEMENT * length (xs # c')"
        using c'(3,5) len pj by simp_all
      moreover have "d \<notin> set (take (pos - j) (concat (xs # rest)))" using False set by blast
      ultimately show ?thesis by (simp only: if_False) blast
    qed
  qed
qed simp

lemma put_block_spec:
  assumes "\<forall>b\<in>set c. length b = DBSPERELEMENT" "c \<noteq> []" "DBSPERELEMENT * k + i \<le> DBSPERELEMENT * length c" "i < DBSPERELEMENT"
    "length z = DBSPERELEMENT"
  shows "take (DBSPERELEMENT * k + i + 1) (concat (put_block z k i v c)) = take (DBSPERELEMENT * k + i) (concat c) @ [v] \<and>
     (\<forall>b\<in>set (put_block z k i v c). length b = DBSPERELEMENT) \<and> put_block z k i v c \<noteq> [] \<and>
     DBSPERELEMENT * k + i + 1 \<le> DBSPERELEMENT * length (put_block z k i v c)"
  using assms
proof (induction z k i v c rule: put_block.induct)
  case (2 z i v b bs)
  have "take (i + 1) (b[i := v]) = take i b @ [v]" using 2 by (simp add: take_Suc_conv_app_nth)
  then show ?case using 2 by auto
next
  case (3 z k i v b bs)
  let ?r = "if bs = [] then [z] else bs"
  have len: "length b = DBSPERELEMENT" using 3(2) by simp
  have r: "\<forall>b\<in>set ?r. length b = DBSPERELEMENT" "?r \<noteq> []" "DBSPERELEMENT * k + i \<le> DBSPERELEMENT * length ?r"
    using 3(2,4,6) by (cases "bs = []"; simp)+
  have z0: "DBSPERELEMENT * k + i = 0" if "bs = []" using that 3(4) by simp
  have same: "take (DBSPERELEMENT * k + i) (concat ?r) = take (DBSPERELEMENT * k + i) (concat bs)"
    using z0 by (cases "bs = []") auto
  have tk: "take (DBSPERELEMENT * Suc k + m) (concat (b # ys)) = b @ take (DBSPERELEMENT * k + m) (concat ys)" for m ys using len by simp
  note IH = 3(1) [OF r 3(5,6)]
  let ?q = "put_block z k i v ?r"
  have q: "take (DBSPERELEMENT * k + (i + 1)) (concat ?q) = take (DBSPERELEMENT * k + i) (concat bs) @ [v]"
    "\<forall>b\<in>set ?q. length b = DBSPERELEMENT" "DBSPERELEMENT * k + i + 1 \<le> DBSPERELEMENT * length ?q"
    using IH unfolding same add.assoc by blast+
  have "take (DBSPERELEMENT * Suc k + i + 1) (concat (b # ?q)) = take (DBSPERELEMENT * Suc k + i) (concat (b # bs)) @ [v]"
    unfolding add.assoc [of "DBSPERELEMENT * Suc k"] tk q(1) by simp
  moreover have "\<forall>b\<in>set (b # ?q). length b = DBSPERELEMENT" using q(2) len by simp
  moreover have "DBSPERELEMENT * Suc k + i + 1 \<le> DBSPERELEMENT * length (b # ?q)" using q(3) by simp
  ultimately show ?case unfolding put_block.simps by blast
qed simp

lemma blocks_put:
  fixes v :: 'a
  assumes "blocks_ok c n" "length z = DBSPERELEMENT"
  defines "c' \<equiv> put_block z (n div DBSPERELEMENT) (n mod DBSPERELEMENT) v c"
  shows "take (n + 1) (concat c') = take n (concat c) @ [v]" "blocks_ok c' (n + 1)"
proof -
  have n: "DBSPERELEMENT * (n div DBSPERELEMENT) + n mod DBSPERELEMENT = n" by simp
  have "n mod DBSPERELEMENT < DBSPERELEMENT" by simp
  from put_block_spec [OF _ _ _ this assms(2), of c "n div DBSPERELEMENT" v, unfolded n]
  show "take (n + 1) (concat c') = take n (concat c) @ [v]" "blocks_ok c' (n + 1)"
    using assms(1) unfolding c'_def blocks_ok_def by blast+
qed

lemma blocks_push:
  assumes "blocks_ok c (unat pos)"
  shows "d \<in> set (take (unat pos) (concat c)) \<Longrightarrow> arts_push_db_to_element c pos d = (c, False)"
    "d \<notin> set (take (unat pos) (concat c)) \<Longrightarrow> \<exists>c'. arts_push_db_to_element c pos d = (c', True) \<and>
       take (unat pos + 1) (concat c') = take (unat pos) (concat c) @ [d] \<and> blocks_ok c' (unat pos + 1)"
  using push_elements_spec [of c 0 "unat pos" d] assms
  by (simp_all only: arts_push_db_to_element_def blocks_ok_def if_True if_False) auto

lemma walk_blocks_spec:
  assumes "\<forall>b\<in>set c. length b = DBSPERELEMENT" "n - i + i mod DBSPERELEMENT \<le> DBSPERELEMENT * length c" "i \<le> n"
  shows "walk_blocks i n c = Inr (take (n - i) (drop (i mod DBSPERELEMENT) (concat c)))"
  using assms
proof (induction i n c rule: walk_blocks.induct)
  case (1 i n c)
  show ?case
  proof (cases "i < n")
    case True
    then obtain b bs where c: "c = b # bs" using 1(3) by (cases c) auto
    have len: "length b = DBSPERELEMENT" using 1(2) c by simp
    let ?p = "i mod DBSPERELEMENT"
    have p: "?p < DBSPERELEMENT" by simp
    let ?c = "if ?p + 1 = DBSPERELEMENT then bs else c"
    obtain k where k: "n - i = Suc k" "n - (i + 1) = k" using True by (metis Suc_diff_Suc Suc_eq_plus1 diff_Suc_1)
    have md: "(i + 1) mod DBSPERELEMENT = (if ?p + 1 = DBSPERELEMENT then 0 else ?p + 1)" by (simp add: mod_Suc)
    have "drop ?p (concat c) = b ! ?p # drop (?p + 1) (concat c)" using p len c by (simp add: nth_append flip: Cons_nth_drop_Suc)
    moreover have "drop (?p + 1) (concat c) = drop ((i + 1) mod DBSPERELEMENT) (concat ?c)" using md len c by auto
    ultimately have dr: "drop ?p (concat c) = b ! ?p # drop ((i + 1) mod DBSPERELEMENT) (concat ?c)" by simp
    have IH: "walk_blocks (i + 1) n ?c = Inr (take (n - (i + 1)) (drop ((i + 1) mod DBSPERELEMENT) (concat ?c)))"
    proof -
      have "\<forall>b\<in>set ?c. length b = DBSPERELEMENT" using 1(2) c by auto
      moreover have "n - (i + 1) + (i + 1) mod DBSPERELEMENT \<le> DBSPERELEMENT * length ?c"
        using 1(3) k md c by (auto split: if_splits)
      ultimately show ?thesis using 1(1) [OF True c refl] True by simp
    qed
    have "walk_blocks i n c = rbind (walk_blocks (i + 1) n ?c) (\<lambda>r. Inr (b ! ?p # r))"
      using True c by (simp add: walk_blocks.simps [of i] Let_def)
    then show ?thesis unfolding IH dr k by simp
  next
    case False
    then show ?thesis by (simp add: walk_blocks.simps [of i])
  qed
qed

lemma walk_ok: "blocks_ok c n \<Longrightarrow> walk_blocks 0 n c = Inr (take n (concat c))"
  using walk_blocks_spec [of c n 0] by (simp add: blocks_ok_def)

lemma iter_ranks_walk:
  "iter_ranks it = walk_blocks (unat (currentIndex it)) (unat (position (it_frontier it))) (currentElement it)"
proof (induction it rule: iter_ranks.induct)
  case (1 it)
  show ?case
  proof (cases "currentIndex it < position (it_frontier it)")
    case True
    have lt: "unat (currentIndex it) < unat (position (it_frontier it))" using True by (simp add: word_less_nat_alt)
    show ?thesis
    proof (cases "currentElement it")
      case Nil
      then show ?thesis using True lt
        by (simp add: iter_ranks.simps [of it] walk_blocks.simps [of "unat (currentIndex it)"] arts_db_frontier_iter_next_def)
    next
      case (Cons b bs)
      let ?it = "it\<lparr>currentIndex := currentIndex it + 1,
          currentElement := if unat (currentIndex it + 1) mod DBSPERELEMENT = 0 then bs else currentElement it\<rparr>"
      have nx: "arts_db_frontier_iter_next it = Inr (Some (?it, b ! (unat (currentIndex it) mod DBSPERELEMENT)))"
        using True Cons by (simp add: arts_db_frontier_iter_next_def Let_def)
      have "unat (currentIndex it + 1) mod DBSPERELEMENT = 0 \<longleftrightarrow> unat (currentIndex it) mod DBSPERELEMENT + 1 = DBSPERELEMENT"
        unfolding unat_suc_lt [OF True] by (auto simp: mod_Suc split: if_splits)
      then show ?thesis using 1 [OF nx refl refl] lt nx Cons unat_suc_lt [OF True]
        by (simp add: iter_ranks.simps [of it] walk_blocks.simps [of "unat (currentIndex it)"] Let_def)
    qed
  next
    case False
    then show ?thesis
      by (simp add: iter_ranks.simps [of it] walk_blocks.simps [of "unat (currentIndex it)"] arts_db_frontier_iter_next_def word_less_nat_alt)
  qed
qed

section \<open>One frontier\<close>

definition ranks :: "db_frontier \<Rightarrow> u32 list" where
  "ranks fr = take (unat (position fr)) (concat (elements fr))"

definition delayed :: "db_frontier \<Rightarrow> delayed_edt list" where
  "delayed fr = take (unat (localPosition fr)) (concat (localDelayed fr))"

definition slices :: "db_frontier \<Rightarrow> delayed_slice list" where
  "slices fr = take (unat (slicePosition fr)) (concat (sliceDelayed fr))"

text \<open>Between calls the lock of a frontier is free; its counters are at most the number \<open>n\<close> of requests so far.\<close>

definition frontier_ok :: "nat \<Rightarrow> db_frontier \<Rightarrow> bool" where
  "frontier_ok n fr \<longleftrightarrow>
     unat (position fr) \<le> n \<and> unat (localPosition fr) \<le> n \<and> unat (slicePosition fr) \<le> n \<and>
     (lock fr = 0 \<or> lock fr = WRITE_SET) \<and> distinct (ranks fr) \<and>
     blocks_ok (elements fr) (unat (position fr)) \<and> blocks_ok (localDelayed fr) (unat (localPosition fr)) \<and>
     blocks_ok (sliceDelayed fr) (unat (slicePosition fr))"

lemma unat_suc: "unat (p :: u32) + 1 < 2 ^ 32 \<Longrightarrow> unat (p + 1) = unat p + 1"
  by (subst unat_add_lt) simp_all

lemma new_frontier_ok [simp]:
  "frontier_ok n arts_new_db_frontier" "ranks arts_new_db_frontier = []" "delayed arts_new_db_frontier = []"
  "slices arts_new_db_frontier = []"
  by (simp_all add: frontier_ok_def arts_new_db_frontier_def ranks_def delayed_def slices_def blocks_ok_def
      arts_new_db_element_def new_delayed_def new_slices_def)

lemma sealed_new_ok [simp]: "frontier_ok n (arts_new_db_frontier\<lparr>lock := WRITE_SET\<rparr>)" "sealed (arts_new_db_frontier\<lparr>lock := WRITE_SET\<rparr>)"
  by (simp_all add: frontier_ok_def arts_new_db_frontier_def ranks_def blocks_ok_def arts_new_db_element_def new_delayed_def
      new_slices_def sealed_def)

lemma frontier_ok_mono: "frontier_ok n fr \<Longrightarrow> n \<le> m \<Longrightarrow> frontier_ok m fr"
  by (auto simp: frontier_ok_def)

lemma lock_words:
  "WRITE_SET AND 1 = (0 :: u32)" "(WRITE_SET OR 1) AND WRITE_SET = (WRITE_SET :: u32)" "(1 :: u32) AND WRITE_SET = 0"
  "WRITE_SET AND WRITE_SET = (WRITE_SET :: u32)"
  by simp_all

text \<open>A frontier takes any request until it is sealed, and only a writer that does not bypass seals it.\<close>

lemma push_frontier_sealed:
  assumes "sealed fr" "frontier_ok n fr"
  shows "arts_push_db_to_frontier a fr = Inr (fr, None)"
  using assms
  by (auto simp: arts_push_db_to_frontier_def frontier_add_read_lock_def frontier_add_write_lock_def sealed_def)

lemma push_frontier_open:
  assumes op: "\<not> sealed fr" and ok: "frontier_ok n fr" and rm: "n + 1 < 2 ^ 32"
  obtains fr' where
    "arts_push_db_to_frontier a fr = Inr (fr', Some (a_rank a \<notin> set (ranks fr)))"
    "frontier_ok (n + 1) fr'" "sealed fr' \<longleftrightarrow> a_write a \<and> \<not> a_bypass a"
    "ranks fr' = (if a_rank a \<in> set (ranks fr) then ranks fr else ranks fr @ [a_rank a])"
    "delayed fr' = delayed fr" "slices fr' = slices fr" "localPosition fr' = localPosition fr" "slicePosition fr' = slicePosition fr"
    "has_remote_writer fr' = (if a_write a \<and> \<not> a_local a \<and> a_rank a \<notin> set (ranks fr)
        then a_edt a \<noteq> None \<or> a_edt_guid a \<noteq> NULL_GUID else has_remote_writer fr)"
    "exEdtGuid fr' = (if a_write a \<and> \<not> a_local a \<and> a_rank a \<notin> set (ranks fr) then a_edt_guid a else exEdtGuid fr)"
proof -
  have l0: "lock fr = 0" using op ok by (auto simp: frontier_ok_def sealed_def)
  obtain es where es: "arts_push_db_to_element (elements fr) (position fr) (a_rank a) = (es, a_rank a \<notin> set (ranks fr))"
    "take (unat (if a_rank a \<in> set (ranks fr) then position fr else position fr + 1)) (concat es) =
       (if a_rank a \<in> set (ranks fr) then ranks fr else ranks fr @ [a_rank a])"
    "blocks_ok es (unat (if a_rank a \<in> set (ranks fr) then position fr else position fr + 1))"
    using blocks_push [of "elements fr" "position fr" "a_rank a"] ok unat_suc [of "position fr"] rm
    by (cases "a_rank a \<in> set (ranks fr)") (auto simp: frontier_ok_def ranks_def)
  define fr' where "fr' = (let fr1 = fr\<lparr>elements := es, position := (if a_rank a \<notin> set (ranks fr) then position fr + 1 else position fr)\<rparr>;
      fr2 = (if a_rank a \<notin> set (ranks fr) \<and> a_write a \<and> \<not> a_local a
             then fr1\<lparr>exNode := a_rank a, exEdtGuid := a_edt_guid a, exEdt := a_edt a, exSlot := a_slot a, exMode := a_mode a\<rparr> else fr1);
      fr3 = (if a_write a \<and> a_local a then arts_record_local_writer (a_edt a) (a_edt_guid a) fr2 else fr2)
      in fr3\<lparr>lock := if a_write a \<and> \<not> a_bypass a then WRITE_SET else 0\<rparr>)"
  have p1: "arts_push_db_to_frontier a fr = Inr (fr', Some (a_rank a \<notin> set (ranks fr)))"
    using l0 es(1)
    by (auto simp: arts_push_db_to_frontier_def frontier_add_read_lock_def frontier_add_write_lock_def frontier_unlock_def
        arts_atomic_fetch_and_def arts_record_local_writer_def fr'_def Let_def)
  have "unat (position fr + 1) = unat (position fr) + 1" using ok rm by (intro unat_suc) (simp add: frontier_ok_def)
  then have p2: "frontier_ok (n + 1) fr'" "ranks fr' = (if a_rank a \<in> set (ranks fr) then ranks fr else ranks fr @ [a_rank a])"
    using es(2,3) ok by (auto simp: fr'_def Let_def frontier_ok_def ranks_def arts_record_local_writer_def)
  show thesis
    by (rule that [OF p1 p2(1) _ p2(2)]) (auto simp: fr'_def Let_def sealed_def delayed_def slices_def arts_record_local_writer_def has_remote_writer_def)
qed

section \<open>The list\<close>

text \<open>All frontiers but the last are sealed.\<close>

definition list_ok :: "nat \<Rightarrow> db_frontier list \<Rightarrow> bool" where
  "list_ok n fs \<longleftrightarrow> fs \<noteq> [] \<and> (\<forall>fr\<in>set fs. frontier_ok n fr) \<and> (\<forall>fr\<in>set (butlast fs). sealed fr)"

definition joins :: "access \<Rightarrow> db_frontier \<Rightarrow> bool" where
  "joins a fr \<longleftrightarrow> a_local a \<and> arts_same_local_writer fr (a_edt a) (a_edt_guid a)"

lemma try_join:
  assumes "frontier_ok n fr"
  shows "arts_try_join_same_local_writer fr e g = Inr (fr, arts_same_local_writer fr e g)"
  using assms
  by (auto simp: arts_try_join_same_local_writer_def frontier_lock_def frontier_unlock_def arts_atomic_fetch_and_def frontier_ok_def)

declare push_loop.simps(2) [simp del]

lemma push_loop_sealed:
  assumes "sealed fr" "frontier_ok n fr"
  shows "push_loop a (fr # rest) =
     (if joins a fr then Inr (fr # rest, 0, False)
      else rbind (push_loop a (if rest = [] then [arts_new_db_frontier] else rest)) (\<lambda>(rest', k, u). Inr (fr # rest', Suc k, u)))"
  using push_frontier_sealed [OF assms] try_join [OF assms(2)] by (simp add: push_loop.simps(2) joins_def)

text \<open>
  Where a request goes: to the first sealed frontier whose local writer it comes from,
  or else to the last frontier, or to a new one behind it if that is sealed.
\<close>

definition place :: "access \<Rightarrow> db_frontier list \<Rightarrow> nat" where
  "place a fs = length (takeWhile (\<lambda>fr. sealed fr \<and> \<not> joins a fr) fs)"

definition target :: "access \<Rightarrow> db_frontier list \<Rightarrow> db_frontier" where
  "target a fs = (if place a fs < length fs then fs ! place a fs else arts_new_db_frontier)"

definition no_join :: "access \<Rightarrow> db_frontier list \<Rightarrow> bool" where
  "no_join a fs \<longleftrightarrow> (\<forall>fr\<in>set fs. sealed fr \<longrightarrow> \<not> joins a fr)"

lemma list_ok_Cons:
  "list_ok n (fr # rest) \<longleftrightarrow> frontier_ok n fr \<and> (rest \<noteq> [] \<longrightarrow> sealed fr \<and> list_ok n rest)"
  by (auto simp: list_ok_def)

lemma list_ok_nth:
  "list_ok n fs \<longleftrightarrow> fs \<noteq> [] \<and> (\<forall>i<length fs. frontier_ok n (fs ! i)) \<and> (\<forall>i. Suc i < length fs \<longrightarrow> sealed (fs ! i))"
  unfolding list_ok_def all_set_conv_all_nth by (auto simp: nth_butlast)

lemma list_ok_mono: "list_ok n fs \<Longrightarrow> n \<le> m \<Longrightarrow> list_ok m fs"
  using frontier_ok_mono by (auto simp: list_ok_def)

lemma push_loop_spec:
  assumes "list_ok n fs" "n + 1 < 2 ^ 32"
  shows "\<exists>fs' u. push_loop a fs = Inr (fs', place a fs, u) \<and> list_ok (n + 1) fs' \<and> place a fs < length fs' \<and> length fs \<le> length fs' \<and>
     (\<forall>i<length fs. i \<noteq> place a fs \<longrightarrow> fs' ! i = fs ! i) \<and>
     (\<forall>i<length fs. sealed (fs ! i) \<longrightarrow> fs' ! i = fs ! i) \<and>
     length fs' \<le> max (length fs) (place a fs + 1) \<and>
     (\<not> sealed (target a fs) \<longrightarrow>
        arts_push_db_to_frontier a (target a fs) = Inr (fs' ! place a fs, Some u) \<and> u = (a_rank a \<notin> set (ranks (target a fs))) \<and>
        (sealed (fs' ! place a fs) \<longleftrightarrow> a_write a \<and> \<not> a_bypass a))"
  using assms
proof (induction fs)
  case (Cons fr rest)
  have fr: "frontier_ok n fr" "frontier_ok (n + 1) fr" using Cons.prems frontier_ok_mono by (auto simp: list_ok_Cons)
  show ?case
  proof (cases "sealed fr")
    case False
    then have "rest = []" using Cons.prems by (auto simp: list_ok_Cons)
    obtain fr' where p: "arts_push_db_to_frontier a fr = Inr (fr', Some (a_rank a \<notin> set (ranks fr)))" "frontier_ok (n + 1) fr'"
      "sealed fr' \<longleftrightarrow> a_write a \<and> \<not> a_bypass a" using push_frontier_open [OF False fr(1) Cons.prems(2)] by metis
    then show ?thesis using False \<open>rest = []\<close> by (auto simp: place_def target_def list_ok_Cons push_loop.simps(2))
  next
    case sl: True
    note eq = push_loop_sealed [OF sl fr(1), of a rest]
    show ?thesis
    proof (cases "joins a fr")
      case True
      then show ?thesis using eq Cons.prems(1) list_ok_mono [of n _ "n + 1"] sl by (auto simp: place_def target_def)
    next
      case nj: False
      let ?r = "if rest = [] then [arts_new_db_frontier] else rest"
      have pl: "place a (fr # rest) = Suc (place a rest)" using sl nj by (simp add: place_def)
      show ?thesis
      proof (cases "rest = []")
        case True
        obtain fr' where p: "arts_push_db_to_frontier a arts_new_db_frontier = Inr (fr', Some (a_rank a \<notin> set (ranks arts_new_db_frontier)))"
          "frontier_ok (n + 1) fr'" "sealed fr' \<longleftrightarrow> a_write a \<and> \<not> a_bypass a"
          using push_frontier_open [OF new_frontier_open new_frontier_ok(1) Cons.prems(2)] by metis
        have "push_loop a (fr # rest) = Inr ([fr, fr'], Suc 0, True)" using eq nj True p(1) by (simp add: push_loop.simps(2))
        then show ?thesis using p True pl sl fr by (auto simp: list_ok_Cons place_def target_def less_Suc_eq)
      next
        case False
        have "list_ok n rest" using Cons.prems False by (auto simp: list_ok_Cons)
        from Cons.IH [OF this Cons.prems(2)] obtain fs' u where IH: "push_loop a rest = Inr (fs', place a rest, u)" "list_ok (n + 1) fs'" "place a rest < length fs'"
          "length rest \<le> length fs'" "\<forall>i<length rest. i \<noteq> place a rest \<longrightarrow> fs' ! i = rest ! i"
          "\<forall>i<length rest. sealed (rest ! i) \<longrightarrow> fs' ! i = rest ! i" "length fs' \<le> max (length rest) (place a rest + 1)"
          "\<not> sealed (target a rest) \<longrightarrow> arts_push_db_to_frontier a (target a rest) = Inr (fs' ! place a rest, Some u) \<and>
             u = (a_rank a \<notin> set (ranks (target a rest))) \<and> (sealed (fs' ! place a rest) \<longleftrightarrow> a_write a \<and> \<not> a_bypass a)" by blast
        have "push_loop a (fr # rest) = Inr (fr # fs', Suc (place a rest), u)" using eq nj False IH(1) by simp
        moreover have "list_ok (n + 1) (fr # fs')" using IH(2) sl fr by (simp add: list_ok_Cons)
        moreover have "\<forall>i<length (fr # rest). i \<noteq> Suc (place a rest) \<longrightarrow> (fr # fs') ! i = (fr # rest) ! i"
          "\<forall>i<length (fr # rest). sealed ((fr # rest) ! i) \<longrightarrow> (fr # fs') ! i = (fr # rest) ! i"
          using IH(5,6) by (auto simp: nth_Cons split: nat.splits)
        moreover have "target a (fr # rest) = target a rest" by (simp add: target_def pl)
        ultimately show ?thesis unfolding pl using IH(3,4,7,8)
          by (intro exI [of _ "fr # fs'"] exI [of _ u] conjI) simp_all
      qed
    qed
  qed
qed (simp add: list_ok_def)

lemma add_delayed_spec:
  assumes "frontier_ok (n + 1) fr" "unat (localPosition fr) \<le> n" "n + 1 < 2 ^ 32"
  obtains fr' where "add_delayed d fr = Inr fr'" "frontier_ok (n + 1) fr'" "delayed fr' = delayed fr @ [d]"
    "sealed fr' = sealed fr" "ranks fr' = ranks fr" "slices fr' = slices fr" "has_remote_writer fr' = has_remote_writer fr"
proof -
  have lk: "lock fr = 0 \<or> lock fr = WRITE_SET" using assms(1) by (simp add: frontier_ok_def)
  define fr' where "fr' = fr\<lparr>localDelayed := arts_push_delayed_edt (localDelayed fr) (localPosition fr) d,
      localPosition := localPosition fr + 1\<rparr>"
  have u: "unat (localPosition fr + 1) = unat (localPosition fr) + 1" using assms(2,3) by (intro unat_suc) simp
  have b: "blocks_ok (localDelayed fr) (unat (localPosition fr))" using assms(1) by (simp add: frontier_ok_def)
  note put = blocks_put [OF b, of new_delayed d]
  have a1: "add_delayed d fr = Inr fr'"
    using lk by (auto simp: add_delayed_def fr'_def frontier_lock_def frontier_unlock_def arts_atomic_fetch_and_def)
  have a2: "delayed fr' = delayed fr @ [d]"
    using put(1) u by (simp add: fr'_def delayed_def arts_push_delayed_edt_def new_delayed_def)
  have a3: "frontier_ok (n + 1) fr'"
    using put(2) u assms(1,2) by (auto simp: fr'_def frontier_ok_def arts_push_delayed_edt_def new_delayed_def ranks_def)
  show thesis by (rule that [OF a1 a3 a2]) (simp_all add: fr'_def sealed_def ranks_def slices_def has_remote_writer_def)
qed

lemma no_join_target: "no_join a fs \<Longrightarrow> \<not> sealed (target a fs)"
proof -
  assume nj: "no_join a fs"
  show ?thesis
  proof (cases "place a fs < length fs")
    case True
    then have "\<not> (sealed (fs ! place a fs) \<and> \<not> joins a (fs ! place a fs))" unfolding place_def by (rule nth_length_takeWhile)
    then show ?thesis using nj True by (auto simp: no_join_def target_def)
  qed (simp add: target_def)
qed

text \<open>
  A push keeps the form of the list; sealed frontiers stay sealed; a write seals its
  frontier; a local request that is not on the head is recorded there, behind the others.
\<close>

lemma push_list_spec:
  assumes ok: "list_ok n fs" and n: "n + 1 < 2 ^ 32"
  obtains fs' u where "arts_push_db_to_list a fs = Inr (fs', u, place a fs = 0)" "list_ok (n + 1) fs'" "place a fs < length fs'"
    "length fs \<le> length fs'" "\<And>i. i < length fs \<Longrightarrow> sealed (fs ! i) \<Longrightarrow> sealed (fs' ! i)"
    "\<not> sealed (target a fs) \<Longrightarrow> u = (a_rank a \<notin> set (ranks (target a fs)))"
    "\<not> sealed (target a fs) \<Longrightarrow> sealed (fs' ! place a fs) \<longleftrightarrow> a_write a \<and> \<not> a_bypass a"
    "length fs' \<le> max (length fs) (place a fs + 1)" "\<And>i. i < length fs \<Longrightarrow> i \<noteq> place a fs \<Longrightarrow> fs' ! i = fs ! i"
    "\<not> sealed (target a fs) \<Longrightarrow> ranks (fs' ! place a fs) =
       (if a_rank a \<in> set (ranks (target a fs)) then ranks (target a fs) else ranks (target a fs) @ [a_rank a])"
    "\<not> sealed (target a fs) \<Longrightarrow> slices (fs' ! place a fs) = slices (target a fs)"
    "\<not> sealed (target a fs) \<Longrightarrow> a_local a \<Longrightarrow> has_remote_writer (fs' ! place a fs) = has_remote_writer (target a fs)"
    "\<not> sealed (target a fs) \<Longrightarrow> delayed (fs' ! place a fs) = delayed (target a fs) @
       (if a_local a \<and> place a fs \<noteq> 0 then [\<lparr>d_edt = a_edt a, d_slot = a_slot a, d_mode = a_mode a\<rparr>] else [])"
proof -
  let ?k = "place a fs"
  let ?d = "\<lparr>d_edt = a_edt a, d_slot = a_slot a, d_mode = a_mode a\<rparr>"
  obtain fs1 u where l: "push_loop a fs = Inr (fs1, ?k, u)" "list_ok (n + 1) fs1" "?k < length fs1" "length fs \<le> length fs1"
    "\<forall>i<length fs. i \<noteq> ?k \<longrightarrow> fs1 ! i = fs ! i" "\<forall>i<length fs. sealed (fs ! i) \<longrightarrow> fs1 ! i = fs ! i"
    "length fs1 \<le> max (length fs) (?k + 1)"
    "\<not> sealed (target a fs) \<longrightarrow> arts_push_db_to_frontier a (target a fs) = Inr (fs1 ! ?k, Some u) \<and>
       u = (a_rank a \<notin> set (ranks (target a fs))) \<and> (sealed (fs1 ! ?k) \<longleftrightarrow> a_write a \<and> \<not> a_bypass a)"
    using push_loop_spec [OF ok n, of a] by blast
  have tok: "frontier_ok n (target a fs)" using ok by (auto simp: target_def list_ok_def)
  have dl: "delayed (fs1 ! ?k) = delayed (target a fs) \<and> localPosition (fs1 ! ?k) = localPosition (target a fs) \<and>
      (\<not> sealed (target a fs) \<longrightarrow>
         ranks (fs1 ! ?k) = (if a_rank a \<in> set (ranks (target a fs)) then ranks (target a fs) else ranks (target a fs) @ [a_rank a]) \<and>
         slices (fs1 ! ?k) = slices (target a fs) \<and>
         (a_local a \<longrightarrow> has_remote_writer (fs1 ! ?k) = has_remote_writer (target a fs)))"
  proof (cases "sealed (target a fs)")
    case True
    then have "?k < length fs" "sealed (fs ! ?k)" by (auto simp: target_def split: if_splits)
    then show ?thesis using l(6) by (simp add: target_def)
  next
    case False
    obtain fr' where "arts_push_db_to_frontier a (target a fs) = Inr (fr', Some (a_rank a \<notin> set (ranks (target a fs))))"
      "delayed fr' = delayed (target a fs)" "localPosition fr' = localPosition (target a fs)" "slices fr' = slices (target a fs)"
      "ranks fr' = (if a_rank a \<in> set (ranks (target a fs)) then ranks (target a fs) else ranks (target a fs) @ [a_rank a])"
      "a_local a \<longrightarrow> has_remote_writer fr' = has_remote_writer (target a fs)"
      using push_frontier_open [OF False tok n, of a] by metis
    then show ?thesis using l(8) False by simp
  qed
  have fk: "frontier_ok (n + 1) (fs1 ! ?k)" using l(2,3) by (simp add: list_ok_def)
  have lp: "unat (localPosition (fs1 ! ?k)) \<le> n" using dl tok by (simp add: frontier_ok_def)
  obtain fr' where fr': "add_delayed ?d (fs1 ! ?k) = Inr fr'" "frontier_ok (n + 1) fr'" "delayed fr' = delayed (fs1 ! ?k) @ [?d]"
    "sealed fr' = sealed (fs1 ! ?k)" "ranks fr' = ranks (fs1 ! ?k)" "slices fr' = slices (fs1 ! ?k)"
    "has_remote_writer fr' = has_remote_writer (fs1 ! ?k)" using add_delayed_spec [OF fk lp n] by metis
  define fs2 where "fs2 = (if a_local a \<and> ?k \<noteq> 0 then fs1[?k := fr'] else fs1)"
  have r1: "arts_push_db_to_list a fs = Inr (fs2, u, ?k = 0)"
    using l(1) ok fr'(1) by (simp add: arts_push_db_to_list_def fs2_def list_ok_def Let_def)
  have sl: "sealed (fs2 ! i) = sealed (fs1 ! i)" if "i < length fs1" for i
    using that fr'(4) by (cases "i = ?k") (auto simp: fs2_def)
  have len: "length fs2 = length fs1" by (simp add: fs2_def)
  have "frontier_ok (n + 1) (fs2 ! i)" if "i < length fs1" for i
    using that l(2) fr'(2) by (cases "i = ?k") (auto simp: fs2_def list_ok_nth)
  then have "list_ok (n + 1) fs2" using l(2) sl len unfolding list_ok_nth by auto
  then show thesis using l(3-8) dl fr'(3,5-7) sl
    by (intro that [OF r1]) (auto simp: fs2_def)
qed

section \<open>Progress\<close>

lemma signal_local_ok:
  assumes "frontier_ok n fr" "arts_signal_frontier_local me edt_of db fr = Inr (fr', xs)"
  shows "fr' = fr"
  using assms by (auto simp: arts_signal_frontier_local_def frontier_lock_def frontier_unlock_def arts_atomic_fetch_and_def
      frontier_ok_def Let_def split: if_splits)

lemma signal_remote_ok:
  assumes ok: "frontier_ok n fr" and n: "n + 1 < 2 ^ 32" and s: "arts_signal_frontier_remote me db from fr = Inr (fr', xs)"
  shows "frontier_ok (n + 1) fr'" "sealed fr' = sealed fr"
proof -
  let ?dup = "from \<in> set (ranks fr)"
  obtain es where es: "arts_push_db_to_element (elements fr) (position fr) from = (es, \<not> ?dup)"
    "take (unat (if ?dup then position fr else position fr + 1)) (concat es) = (if ?dup then ranks fr else ranks fr @ [from])"
    "blocks_ok es (unat (if ?dup then position fr else position fr + 1))"
    using blocks_push [of "elements fr" "position fr" "from"] ok unat_suc [of "position fr"] n
    by (cases ?dup) (auto simp: frontier_ok_def ranks_def)
  have u: "unat (position fr + 1) = unat (position fr) + 1" using ok n by (intro unat_suc) (simp add: frontier_ok_def)
  have "fr' = fr\<lparr>elements := es, position := (if ?dup then position fr else position fr + 1)\<rparr>"
    using ok s es(1) by (auto simp: arts_signal_frontier_remote_def frontier_lock_def frontier_unlock_def arts_atomic_fetch_and_def
        frontier_ok_def Let_def split: if_splits)
  then show "frontier_ok (n + 1) fr'" "sealed fr' = sealed fr"
    using es(2,3) ok u by (auto simp: frontier_ok_def ranks_def sealed_def split: if_splits)
qed

lemma progress_ok:
  assumes ok: "list_ok n (fr0 # fr1 # rest)" and n: "n + 1 < 2 ^ 32"
    and p: "arts_progress_frontier me edt_of db r (fr0 # fr1 # rest) = Inr (fs', xs)"
  shows "\<exists>fr. fs' = fr # rest \<and> sealed fr = sealed fr1 \<and> list_ok (n + 1) fs'"
proof -
  obtain fr where fr: "(if r = me then arts_signal_frontier_local me edt_of db fr1 else arts_signal_frontier_remote me db r fr1) = Inr (fr, xs)"
    "fs' = fr # rest" using p by (auto simp: arts_progress_frontier_def)
  have ok1: "frontier_ok n fr1" "list_ok n (fr1 # rest)" using ok by (simp_all add: list_ok_Cons)
  have "frontier_ok (n + 1) fr \<and> sealed fr = sealed fr1"
  proof (cases "r = me")
    case True
    then have "fr = fr1" using fr(1) signal_local_ok [OF ok1(1), of me edt_of db fr xs] by simp
    then show ?thesis using frontier_ok_mono [OF ok1(1), of "n + 1"] by simp
  next
    case False
    then show ?thesis using fr(1) signal_remote_ok [OF ok1(1) n] by auto
  qed
  moreover have "rest \<noteq> [] \<longrightarrow> list_ok (n + 1) rest \<and> sealed fr1"
    using ok1(2) list_ok_mono [of n rest "n + 1"] by (auto simp: list_ok_Cons)
  ultimately show ?thesis using fr(2) by (simp add: list_ok_Cons)
qed

datatype frontier_op = Push access | Progress u32

fun frontier_step :: "u32 \<Rightarrow> (arts_guid_t \<Rightarrow> edt_ptr) \<Rightarrow> db_data \<Rightarrow> frontier_op \<Rightarrow> db_frontier list \<Rightarrow> db_frontier list res" where
  "frontier_step me edt_of db (Push a) fs = rbind (arts_push_db_to_list a fs) (\<lambda>(fs, _, _). Inr fs)"
| "frontier_step me edt_of db (Progress r) fs = rbind (arts_progress_frontier me edt_of db r fs) (\<lambda>(fs, _). Inr fs)"

fun progresses :: "frontier_op list \<Rightarrow> nat" where
  "progresses [] = 0"
| "progresses (Progress r # ops) = Suc (progresses ops)"
| "progresses (Push a # ops) = progresses ops"

lemma pushes_run:
  assumes "list_ok n fs" "n + length as < 2 ^ 32"
  shows "\<exists>fs'. each (frontier_step me edt_of db) (map Push as) fs = Inr fs' \<and> list_ok (n + length as) fs'"
  using assms
proof (induction as arbitrary: n fs)
  case (Cons a as)
  have n1: "n + 1 < 2 ^ 32" using Cons.prems(2) by simp
  obtain fs1 u where f: "arts_push_db_to_list a fs = Inr (fs1, u, place a fs = 0)" "list_ok (n + 1) fs1"
    by (rule push_list_spec [OF Cons.prems(1) n1])
  then show ?case using Cons.IH [OF f(2)] Cons.prems(2) by simp
qed simp

text \<open>While the frontier at \<open>k\<close> has not been passed, the frontiers up to it stay sealed.\<close>

lemma sealed_prefix_run:
  assumes "each (frontier_step me edt_of db) ops fs = Inr fs'" "list_ok n fs" "n + length ops < 2 ^ 32" "k < length fs"
    "\<forall>i\<le>k. sealed (fs ! i)" "progresses ops \<le> k"
  shows "list_ok (n + length ops) fs' \<and> k - progresses ops < length fs' \<and> (\<forall>i\<le>k - progresses ops. sealed (fs' ! i))"
  using assms
proof (induction ops arbitrary: fs n k)
  case (Cons op ops)
  obtain fs1 where fs1: "frontier_step me edt_of db op fs = Inr fs1" "each (frontier_step me edt_of db) ops fs1 = Inr fs'"
    using Cons.prems(1) by auto
  have n: "n + 1 < 2 ^ 32 \<or> ops = []" "n + 1 + length ops < 2 ^ 32" using Cons.prems(3) by auto
  show ?case
  proof (cases op)
    case (Push a)
    obtain fs2 u where p: "arts_push_db_to_list a fs = Inr (fs2, u, place a fs = 0)" "list_ok (n + 1) fs2" "length fs \<le> length fs2"
      "\<And>i. i < length fs \<Longrightarrow> sealed (fs ! i) \<Longrightarrow> sealed (fs2 ! i)"
      using push_list_spec [OF Cons.prems(2), of a] n(2) by (metis add_lessD1)
    have "fs1 = fs2" using fs1(1) Push p(1) by simp
    then show ?thesis using Cons.IH [OF fs1(2), of "n + 1" k] p(2-4) n(2) Cons.prems(4-6) Push by simp
  next
    case (Progress r)
    then obtain k' where k: "k = Suc k'" "progresses ops \<le> k'" using Cons.prems(6) by (cases k) auto
    obtain f0 f1 rest where fs: "fs = f0 # f1 # rest" using Cons.prems(4) k by (cases fs; cases "tl fs") auto
    obtain xs where "arts_progress_frontier me edt_of db r fs = Inr (fs1, xs)" using fs1(1) Progress by auto
    then obtain fr where fr: "fs1 = fr # rest" "sealed fr = sealed f1" "list_ok (n + 1) fs1"
      using progress_ok [of n f0 f1 rest] Cons.prems(2) n(2) fs by (metis add_lessD1)
    have "\<forall>i\<le>k'. sealed (fs1 ! i)"
    proof (intro allI impI)
      fix i
      assume "i \<le> k'"
      then have "sealed (fs ! Suc i)" using Cons.prems(5) k by simp
      then show "sealed (fs1 ! i)" using fr(1,2) fs by (cases i) auto
    qed
    then show ?thesis using Cons.IH [OF fs1(2) fr(3), of k'] n(2) fr(1) fs Cons.prems(4) k Progress by simp
  qed
qed simp

section \<open>Waiting tasks\<close>

lemma other_ranks_none:
  assumes "frontier_ok n fr" "set (ranks fr) \<subseteq> {me}"
  shows "other_ranks me fr = Inr []"
proof (cases "position fr = 0")
  case False
  have "iter_ranks \<lparr>it_frontier = fr, currentIndex = 0, currentElement = elements fr\<rparr> = Inr (ranks fr)"
    using assms(1) walk_ok [of "elements fr" "unat (position fr)"] by (simp add: iter_ranks_walk frontier_ok_def ranks_def)
  moreover have "filter (\<lambda>n. n \<noteq> me \<and> \<not> (has_remote_writer fr \<and> n = exNode fr)) (ranks fr) = []"
    using assms(2) by (auto simp: filter_empty_conv)
  ultimately show ?thesis using False by (simp add: other_ranks_def arts_db_frontier_iter_init_def)
qed (simp add: other_ranks_def arts_db_frontier_iter_init_def)

lemma satisfy_delayed_spec:
  "\<forall>a\<in>set as. a_edt a \<noteq> None \<Longrightarrow>
   satisfy_delayed db (map (\<lambda>a. \<lparr>d_edt = a_edt a, d_slot = a_slot a, d_mode = a_mode a\<rparr>) as) =
     Inr (map (\<lambda>a. Satisfy_Dep (the (a_edt a)) (a_slot a) (db_guid db)) as)"
  by (induction as) auto

lemma signal_local_spec:
  assumes ok: "frontier_ok n fr" and r: "set (ranks fr) \<subseteq> {me}" and w: "\<not> has_remote_writer fr" and s: "slices fr = []"
    and d: "delayed fr = map (\<lambda>a. \<lparr>d_edt = a_edt a, d_slot = a_slot a, d_mode = a_mode a\<rparr>) as" "\<forall>a\<in>set as. a_edt a \<noteq> None"
  shows "arts_signal_frontier_local me edt_of db fr = Inr (fr, map (\<lambda>a. Satisfy_Dep (the (a_edt a)) (a_slot a) (db_guid db)) as)"
proof -
  have wk: "walk_blocks 0 (unat (localPosition fr)) (localDelayed fr) = Inr (delayed fr)"
    "walk_blocks 0 (unat (slicePosition fr)) (sliceDelayed fr) = Inr (slices fr)"
    using ok walk_ok by (auto simp: frontier_ok_def delayed_def slices_def)
  have "lock fr = 0 \<or> lock fr = WRITE_SET" using ok by (simp add: frontier_ok_def)
  then show ?thesis using wk w s d satisfy_delayed_spec [OF d(2)] other_ranks_none [OF ok r]
    by (auto simp: arts_signal_frontier_local_def frontier_lock_def frontier_unlock_def arts_atomic_fetch_and_def delayed_slices_def Let_def)
qed

text \<open>The second frontier of a list, which a request behind a sealed first one would create.\<close>

definition second :: "db_frontier list \<Rightarrow> db_frontier" where
  "second fs = (if length fs = 1 then arts_new_db_frontier else fs ! 1)"

lemma pushes_to_second:
  assumes "list_ok n fs" "hd fs = f0" "sealed f0" "length fs \<le> 2" "\<not> sealed (second fs)" "n + length as < 2 ^ 32" "as \<noteq> []"
    "\<forall>a\<in>set as. a_local a \<and> a_rank a = me \<and> \<not> joins a f0" "\<forall>a\<in>set (butlast as). \<not> (a_write a \<and> \<not> a_bypass a)"
  shows "\<exists>f1. each (frontier_step me edt_of db) (map Push as) fs = Inr [f0, f1] \<and> frontier_ok (n + length as) f1 \<and>
     delayed f1 = delayed (second fs) @ map (\<lambda>a. \<lparr>d_edt = a_edt a, d_slot = a_slot a, d_mode = a_mode a\<rparr>) as \<and>
     set (ranks f1) \<subseteq> insert me (set (ranks (second fs))) \<and> slices f1 = slices (second fs) \<and>
     has_remote_writer f1 = has_remote_writer (second fs)"
  using assms
proof (induction as arbitrary: n fs)
  case (Cons a as)
  have "fs \<noteq> []" using Cons.prems(1) by (simp add: list_ok_def)
  then obtain rest where r: "fs = f0 # rest" using Cons.prems(2) by (cases fs) simp_all
  have len: "length fs = 1 \<or> length fs = 2" and f0: "fs ! 0 = f0" using r Cons.prems(4) by (cases rest; simp)+
  have nj: "\<not> joins a f0" using Cons.prems(8) by simp
  have "place a fs = 1 \<and> target a fs = second fs"
  proof (cases rest)
    case Nil
    then show ?thesis using r nj Cons.prems(3) by (simp add: place_def target_def second_def)
  next
    case (Cons f fs'')
    then have "\<not> sealed f" using r Cons.prems(5) by (simp add: second_def)
    then show ?thesis using Cons r nj Cons.prems(3) by (simp add: place_def target_def second_def)
  qed
  then have pl: "place a fs = 1" "target a fs = second fs" by simp_all
  have n1: "n + 1 < 2 ^ 32" using Cons.prems(6) by simp
  have ns: "\<not> sealed (target a fs)" using pl(2) Cons.prems(5) by simp
  obtain fs1 u where f: "arts_push_db_to_list a fs = Inr (fs1, u, place a fs = 0)" "list_ok (n + 1) fs1" "place a fs < length fs1"
    "length fs1 \<le> max (length fs) (place a fs + 1)" "\<And>i. i < length fs \<Longrightarrow> i \<noteq> place a fs \<Longrightarrow> fs1 ! i = fs ! i"
    "sealed (fs1 ! place a fs) \<longleftrightarrow> a_write a \<and> \<not> a_bypass a"
    "ranks (fs1 ! place a fs) = (if a_rank a \<in> set (ranks (target a fs)) then ranks (target a fs) else ranks (target a fs) @ [a_rank a])"
    "slices (fs1 ! place a fs) = slices (target a fs)"
    "a_local a \<Longrightarrow> has_remote_writer (fs1 ! place a fs) = has_remote_writer (target a fs)"
    "delayed (fs1 ! place a fs) = delayed (target a fs) @
       (if a_local a \<and> place a fs \<noteq> 0 then [\<lparr>d_edt = a_edt a, d_slot = a_slot a, d_mode = a_mode a\<rparr>] else [])"
  proof (rule push_list_spec [OF Cons.prems(1) n1, of a], goal_cases)
    case (1 fs1 u)
    show ?case by (rule that [OF 1(2-4,9,10) 1(8) [OF ns] 1(11) [OF ns] 1(12) [OF ns] 1(13) [OF ns] 1(14) [OF ns]])
  qed
  define f1 where "f1 = fs1 ! 1"
  have l2: "length fs1 = 2" using f(3,4) pl len by auto
  have "fs1 ! 0 = f0" using f(5) [of 0] pl r by simp
  then have fs1: "fs1 = [f0, f1]" unfolding f1_def using l2 by (intro nth_equalityI) (auto simp: less_2_cases_iff)
  have a: "a_local a" "a_rank a = me" using Cons.prems(8) by auto
  have sec: "second fs1 = f1" using fs1 by (simp add: second_def)
  have f1: "delayed f1 = delayed (second fs) @ [\<lparr>d_edt = a_edt a, d_slot = a_slot a, d_mode = a_mode a\<rparr>]"
    "set (ranks f1) \<subseteq> insert me (set (ranks (second fs)))" "slices f1 = slices (second fs)"
    "has_remote_writer f1 = has_remote_writer (second fs)" "sealed f1 \<longleftrightarrow> a_write a \<and> \<not> a_bypass a"
    using f(6-10) pl a by (auto simp: f1_def)
  show ?case
  proof (cases "as = []")
    case True
    then show ?thesis using f(1,2) fs1 f1 by (auto simp: list_ok_Cons)
  next
    case False
    have "\<not> sealed f1" using f1(5) Cons.prems(9) False by simp
    moreover have "\<forall>a\<in>set (butlast as). \<not> (a_write a \<and> \<not> a_bypass a)" using Cons.prems(9) False by simp
    ultimately obtain f1' where "each (frontier_step me edt_of db) (map Push as) fs1 = Inr [f0, f1']" "frontier_ok (n + 1 + length as) f1'"
      "delayed f1' = delayed f1 @ map (\<lambda>a. \<lparr>d_edt = a_edt a, d_slot = a_slot a, d_mode = a_mode a\<rparr>) as"
      "set (ranks f1') \<subseteq> insert me (set (ranks f1))" "slices f1' = slices f1" "has_remote_writer f1' = has_remote_writer f1"
      using Cons.IH [OF f(2)] fs1 sec Cons.prems(3,6,8) False by auto
    then show ?thesis using f(1) f1 by auto
  qed
qed simp

section \<open>Properties\<close>


definition demo_write :: "u32 \<Rightarrow> access" where
  "demo_write r = \<lparr>a_rank = r, a_write = True, a_local = False, a_bypass = False, a_edt = None, a_edt_guid = 9, a_slot = 0, a_mode = DB_MODE_EW\<rparr>"

definition demo_read :: "u32 \<Rightarrow> access" where
  "demo_read r = \<lparr>a_rank = r, a_write = False, a_local = False, a_bypass = False, a_edt = None, a_edt_guid = 8, a_slot = 0, a_mode = DB_MODE_RO\<rparr>"

definition demo_db :: db_data where
  "demo_db = \<lparr>db_guid = 77, db_bytes = [1, 2, 3, 4]\<rparr>"

lemma new_list_ok: "list_ok n arts_new_db_list"
  by (simp add: arts_new_db_list_def list_ok_Cons)


text \<open>
  C12.  Local tasks that come after a write wait, and get the block once each in the order
  they came.  While a sealed frontier is the only one, local requests, the last of which
  may be a write, are recorded behind it; when the list moves on, exactly these tasks
  have their slot satisfied, in order, and nothing else happens.
\<close>

theorem waiting_tasks_served_once_in_order:
  assumes "list_ok n [f0]" "sealed f0" "n + length as < 2 ^ 32" "as \<noteq> []"
    "\<forall>a\<in>set as. a_local a \<and> a_rank a = me \<and> \<not> joins a f0 \<and> a_edt a \<noteq> None" "\<forall>a\<in>set (butlast as). \<not> a_write a"
  shows "\<exists>f1. each (frontier_step me edt_of db) (map Push as) [f0] = Inr [f0, f1] \<and>
     arts_progress_frontier me edt_of db me [f0, f1] =
       Inr ([f1], map (\<lambda>a. Satisfy_Dep (the (a_edt a)) (a_slot a) (db_guid db)) as)"
proof -
  have sec: "second [f0] = arts_new_db_frontier" by (simp add: second_def)
  have nw: "\<not> has_remote_writer arts_new_db_frontier" by (simp add: has_remote_writer_def arts_new_db_frontier_def)
  obtain f1 where f1: "each (frontier_step me edt_of db) (map Push as) [f0] = Inr [f0, f1]" "frontier_ok (n + length as) f1"
    "delayed f1 = map (\<lambda>a. \<lparr>d_edt = a_edt a, d_slot = a_slot a, d_mode = a_mode a\<rparr>) as"
    "set (ranks f1) \<subseteq> {me}" "slices f1 = []" "\<not> has_remote_writer f1"
    using pushes_to_second [of n "[f0]" f0 as me edt_of db] assms sec nw by auto
  have "\<forall>a\<in>set as. a_edt a \<noteq> None" using assms(5) by blast
  from signal_local_spec [OF f1(2,4,6,5,3) this] f1(1) show ?thesis by (simp add: arts_progress_frontier_def)
qed

definition demo_task :: "nat \<Rightarrow> access" where
  "demo_task i = \<lparr>a_rank = 0, a_write = False, a_local = True, a_bypass = False,
     a_edt = Some \<lparr>eaddr = i, current_edt = of_nat i\<rparr>, a_edt_guid = of_nat i, a_slot = 0, a_mode = DB_MODE_RO\<rparr>"

theorem waiting_tasks_served_once_in_order_witness:
  "\<exists>f1. each (frontier_step 0 (\<lambda>_. None) demo_db) (map Push [demo_task 4, demo_task 5]) [arts_new_db_frontier\<lparr>lock := WRITE_SET\<rparr>] =
       Inr [arts_new_db_frontier\<lparr>lock := WRITE_SET\<rparr>, f1] \<and>
     arts_progress_frontier 0 (\<lambda>_. None) demo_db 0 [arts_new_db_frontier\<lparr>lock := WRITE_SET\<rparr>, f1] =
       Inr ([f1], [Satisfy_Dep \<lparr>eaddr = 4, current_edt = 4\<rparr> 0 77, Satisfy_Dep \<lparr>eaddr = 5, current_edt = 5\<rparr> 0 77])"
proof -
  have "list_ok 0 [arts_new_db_frontier\<lparr>lock := WRITE_SET\<rparr>]"
    by (simp add: list_ok_Cons)
  moreover have "\<not> joins (demo_task 4) (arts_new_db_frontier\<lparr>lock := WRITE_SET\<rparr>)" "\<not> joins (demo_task 5) (arts_new_db_frontier\<lparr>lock := WRITE_SET\<rparr>)"
    by (simp_all add: joins_def demo_task_def arts_same_local_writer_def arts_candidate_edt_guid_def same_edt_def arts_new_db_frontier_def)
  moreover have "a_local (demo_task i)" "a_rank (demo_task i) = 0" "\<not> a_write (demo_task i)" "a_slot (demo_task i) = 0"
    "a_edt (demo_task i) = Some \<lparr>eaddr = i, current_edt = of_nat i\<rparr>" for i by (simp_all add: demo_task_def)
  moreover have "db_guid demo_db = 77" by (simp add: demo_db_def)
  ultimately show ?thesis
    using waiting_tasks_served_once_in_order [of 0 "arts_new_db_frontier\<lparr>lock := WRITE_SET\<rparr>" "[demo_task 4, demo_task 5]" 0 "\<lambda>_. None" demo_db]
    by simp
qed

text \<open>
  C34.  A rank that holds a copy of a block and asks for the block itself is never
  answered.  The owner finds the rank already in the frontier, so it records no writer and
  sends nothing, yet it seals the frontier: the request leaves no trace that could be
  served later.
\<close>

theorem write_request_of_reader_is_lost:
  assumes "arts_guid_is_local nc (db_guid b)" "db_type b \<noteq> ARTS_DB_LOCAL" "db_list b = Frontiers [fr]"
    "frontier_ok n fr" "n + 1 < 2 ^ 32" "\<not> sealed fr" "\<not> has_remote_writer fr"
    "r \<in> set (ranks fr)" "r \<noteq> arts_global_rank_id nc"
  shows "\<exists>fr'. arts_remote_db_full_send_check nc r g slot DB_MODE_EW b = Inr (b\<lparr>db_list := Frontiers [fr']\<rparr>, 0, []) \<and>
     sealed fr' \<and> \<not> has_remote_writer fr' \<and> delayed fr' = delayed fr \<and> ranks fr' = ranks fr"
proof -
  let ?a = "\<lparr>a_rank = r, a_write = True, a_local = (arts_guid_get_rank (db_guid b) = r), a_bypass = False,
      a_edt = None, a_edt_guid = arts_candidate_edt_guid None g, a_slot = slot, a_mode = DB_MODE_EW\<rparr>"
  have loc: "arts_guid_get_rank (db_guid b) \<noteq> r" using assms(1,9) by (auto simp: arts_guid_is_local_def)
  obtain fr' where fr': "arts_push_db_to_frontier ?a fr = Inr (fr', Some (a_rank ?a \<notin> set (ranks fr)))" "sealed fr' \<longleftrightarrow> a_write ?a \<and> \<not> a_bypass ?a"
    "ranks fr' = (if a_rank ?a \<in> set (ranks fr) then ranks fr else ranks fr @ [a_rank ?a])" "delayed fr' = delayed fr"
    "has_remote_writer fr' = (if a_write ?a \<and> \<not> a_local ?a \<and> a_rank ?a \<notin> set (ranks fr)
        then a_edt ?a \<noteq> None \<or> a_edt_guid ?a \<noteq> NULL_GUID else has_remote_writer fr)"
    by (rule push_frontier_open [OF assms(6,4,5)])
  have "push_loop ?a [fr] = Inr ([fr'], 0, False)" using fr'(1) assms(8) by (simp add: push_loop.simps(2))
  then have "arts_push_db_to_list ?a [fr] = Inr ([fr'], False, True)" by (simp add: arts_push_db_to_list_def)
  then have "arts_remote_db_full_send_check nc r g slot DB_MODE_EW b = Inr (b\<lparr>db_list := Frontiers [fr']\<rparr>, 0, [])"
    using assms(1-3) by (simp add: arts_remote_db_full_send_check_def arts_add_db_duplicate_def arts_add_db_duplicate_ex_def)
  then show ?thesis using fr' assms(7,8) by auto
qed

definition demo_block :: "db_frontier \<Rightarrow> db_block" where
  "demo_block fr = \<lparr>db_guid = 77, db_bytes = [1, 2, 3, 4], db_type = ARTS_DB_DEFAULT, db_list = Frontiers [fr]\<rparr>"

lemma demo_block_local: "arts_guid_is_local demo_cfg 77"
  by code_simp

theorem write_request_of_reader_is_lost_witness:
  "\<exists>fr'. arts_remote_db_full_send_check demo_cfg 1 9 0 DB_MODE_EW
       (demo_block (arts_new_db_frontier\<lparr>elements := [1 # replicate 7 0], position := 1\<rparr>)) = Inr (demo_block fr', 0, []) \<and>
     sealed fr' \<and> \<not> has_remote_writer fr'"
proof -
  let ?fr = "arts_new_db_frontier\<lparr>elements := [1 # replicate 7 0], position := 1\<rparr>"
  have "frontier_ok 1 ?fr" "\<not> sealed ?fr" "\<not> has_remote_writer ?fr" "1 \<in> set (ranks ?fr)"
    by (simp_all add: frontier_ok_def arts_new_db_frontier_def ranks_def blocks_ok_def new_delayed_def new_slices_def sealed_def has_remote_writer_def)
  then show ?thesis
    using write_request_of_reader_is_lost [of demo_cfg "demo_block ?fr" ?fr 1 1 9 0] demo_block_local
    by (auto simp: demo_block_def demo_cfg_def)
qed

text \<open>
  C35.  A remote read is answered with the old contents while a write is pending.  The
  owner puts the request behind the pending write, where it has to wait, but sends the
  block at once, since the push reports a rank that is new in the frontier and not
  whether it is the head.
\<close>

theorem remote_read_overtakes_pending_write:
  assumes "arts_guid_is_local nc (db_guid b)" "db_type b \<noteq> ARTS_DB_LOCAL" "db_list b = Frontiers [fr]"
    "frontier_ok n fr" "sealed fr" "r \<noteq> arts_global_rank_id nc"
  shows "\<exists>fr'. arts_remote_db_send_check nc r DB_MODE_RO 0 b =
       Inr (b\<lparr>db_list := Frontiers [fr, fr']\<rparr>, 0, [Db_Send r (db_guid b)]) \<and> ranks fr' = [r]"
proof -
  let ?a = "\<lparr>a_rank = r, a_write = False, a_local = (arts_guid_get_rank (db_guid b) = r), a_bypass = False,
      a_edt = None, a_edt_guid = arts_candidate_edt_guid None NULL_GUID, a_slot = 0, a_mode = DB_MODE_RO\<rparr>"
  have loc: "arts_guid_get_rank (db_guid b) \<noteq> r" using assms(1,6) by (auto simp: arts_guid_is_local_def)
  have z: "(0 :: nat) + 1 < 2 ^ 32" by simp
  obtain fr' where fr': "arts_push_db_to_frontier ?a arts_new_db_frontier = Inr (fr', Some (a_rank ?a \<notin> set (ranks arts_new_db_frontier)))"
    "ranks fr' = (if a_rank ?a \<in> set (ranks arts_new_db_frontier) then ranks arts_new_db_frontier else ranks arts_new_db_frontier @ [a_rank ?a])"
    by (rule push_frontier_open [OF new_frontier_open new_frontier_ok(1) z])
  have "\<not> joins ?a fr" using loc by (simp add: joins_def)
  then have "push_loop ?a [fr] = Inr ([fr, fr'], 1, True)"
    using push_loop_sealed [OF assms(5,4), of ?a "[]"] fr'(1) by (simp add: push_loop.simps(2))
  then have "arts_push_db_to_list ?a [fr] = Inr ([fr, fr'], True, False)" using loc by (simp add: arts_push_db_to_list_def)
  then have "arts_remote_db_send_check nc r DB_MODE_RO 0 b = Inr (b\<lparr>db_list := Frontiers [fr, fr']\<rparr>, 0, [Db_Send r (db_guid b)])"
    using assms(1-3) by (simp add: arts_remote_db_send_check_def arts_add_db_duplicate_ex_def)
  then show ?thesis using fr'(2) by auto
qed

theorem remote_read_overtakes_pending_write_witness:
  "\<exists>fr' b'. arts_remote_db_send_check demo_cfg 1 DB_MODE_RO 0 (demo_block (arts_new_db_frontier\<lparr>lock := WRITE_SET\<rparr>)) =
     Inr (b', 0, [Db_Send 1 77]) \<and> db_list b' = Frontiers [arts_new_db_frontier\<lparr>lock := WRITE_SET\<rparr>, fr'] \<and> ranks fr' = [1]"
  using remote_read_overtakes_pending_write [of demo_cfg "demo_block (arts_new_db_frontier\<lparr>lock := WRITE_SET\<rparr>)" _ 0 1] demo_block_local
  by (auto simp: demo_block_def demo_cfg_def)

end
