(* ===== verification/Block_Distribution.thy ===== *)
theory Block_Distribution
  imports Guid
begin

text \<open>
  The block distribution of a graph, \<^verbatim>\<open>graph/distribution/block_distribution.c\<close>: the
  vertices \<open>0 .. n - 1\<close> are cut into blocks of equal size, the last one possibly
  shorter, and every block has the GUID of the data block that holds it.  The
  asserts and the division by the block size are error values.
\<close>

section \<open>Data\<close>

type_synonym vertex_t = u64
type_synonym local_index_t = u64
type_synonym partition_t = u32

record arts_block_dist =
  num_vertices :: u64
  num_edges :: u64
  block_sz :: u64
  num_blocks :: u32
  graphGuid :: "arts_guid_t list"

section \<open>Construction\<close>

definition internal_init_block_distribution ::
    "arts_guid_t list \<Rightarrow> u64 \<Rightarrow> u64 \<Rightarrow> u32 \<Rightarrow> arts_block_dist" where
  "internal_init_block_distribution gs n m blocks =
     \<lparr>num_vertices = n, num_edges = m,
      block_sz = (if 0 < blocks then (n + ucast blocks - 1) div ucast blocks else 0),
      num_blocks = blocks, graphGuid = gs\<rparr>"

text \<open>One GUID for each rank of a list, in order.\<close>

fun reserve_at ::
    "node_cfg \<Rightarrow> thread_info \<Rightarrow> arts_type_t \<Rightarrow> u32 list \<Rightarrow> guid_state \<Rightarrow> (guid_state \<times> arts_guid_t list) res" where
  "reserve_at nc th ty [] s = Inr (s, [])"
| "reserve_at nc th ty (r # rs) s =
     rbind (arts_guid_reserve nc th ty r s) (\<lambda>(s', g).
       rbind (reserve_at nc th ty rs s') (\<lambda>(s'', gs). Inr (s'', g # gs)))"

text \<open>
  The ranks of the blocks in the order of the two nested loops: every node has
  \<open>per_node\<close> blocks, and the first \<open>extra\<close> nodes one more.
\<close>

fun block_ranks :: "nat \<Rightarrow> nat \<Rightarrow> nat \<Rightarrow> nat \<Rightarrow> u32 list" where
  "block_ranks per_node extra i 0 = []"
| "block_ranks per_node extra i (Suc k) =
     replicate per_node (of_nat i) @ (if 0 < extra then [of_nat i] else [])
     @ block_ranks per_node (extra - 1) (Suc i) k"

definition init_block_distribution_block ::
    "node_cfg \<Rightarrow> thread_info \<Rightarrow> u64 \<Rightarrow> u64 \<Rightarrow> u32 \<Rightarrow> arts_type_t \<Rightarrow> guid_state
      \<Rightarrow> (guid_state \<times> arts_block_dist) res" where
  "init_block_distribution_block nc th n m blocks ty s =
     (let nodes = arts_global_rank_count nc in
      if nodes = 0 then Inl Div_By_Zero
      else
        let blocks_per_node = blocks div nodes; extra = blocks mod nodes in
        rbind (reserve_at nc th ty (block_ranks (unat blocks_per_node) (unat extra) 0 (unat nodes)) s)
          (\<lambda>(s', gs). Inr (s', internal_init_block_distribution gs n m blocks)))"

definition init_block_distribution ::
    "node_cfg \<Rightarrow> thread_info \<Rightarrow> u64 \<Rightarrow> u64 \<Rightarrow> guid_state \<Rightarrow> (guid_state \<times> arts_block_dist) res" where
  "init_block_distribution nc th n m s =
     (let blocks = arts_global_rank_count nc in
      rbind (reserve_at nc th ARTS_DB (map of_nat [0..<unat blocks]) s)
        (\<lambda>(s', gs). Inr (s', internal_init_block_distribution gs n m blocks)))"

section \<open>Queries\<close>

definition get_block_size_for_partition :: "partition_t \<Rightarrow> arts_block_dist \<Rightarrow> u64" where
  "get_block_size_for_partition index d =
     (if index = num_blocks d - 1
      then num_vertices d - ucast (num_blocks d - 1) * block_sz d
      else block_sz d)"

definition get_owner_distr :: "vertex_t \<Rightarrow> arts_block_dist \<Rightarrow> partition_t res" where
  "get_owner_distr v d = (if block_sz d = 0 then Inl Div_By_Zero else Inr (ucast (v div block_sz d)))"

definition partition_start_distr :: "partition_t \<Rightarrow> arts_block_dist \<Rightarrow> vertex_t" where
  "partition_start_distr index d = block_sz d * ucast index"

definition partition_end_distr :: "partition_t \<Rightarrow> arts_block_dist \<Rightarrow> vertex_t" where
  "partition_end_distr index d =
     (if index = num_blocks d - 1 then num_vertices d - 1
      else partition_start_distr index d + (block_sz d - 1))"

definition get_vertex_from_local_distr :: "partition_t \<Rightarrow> local_index_t \<Rightarrow> arts_block_dist \<Rightarrow> vertex_t" where
  "get_vertex_from_local_distr local u d = partition_start_distr local d + u"

definition get_local_index_distr :: "vertex_t \<Rightarrow> arts_block_dist \<Rightarrow> local_index_t res" where
  "get_local_index_distr v d =
     rbind (get_owner_distr v d) (\<lambda>n.
       let base = partition_start_distr n d in if base \<le> v then Inr (v - base) else Inl Assert_Failed)"

definition get_guid_for_partition_distr :: "arts_block_dist \<Rightarrow> partition_t \<Rightarrow> arts_guid_t res" where
  "get_guid_for_partition_distr d index =
     (if unat index < length (graphGuid d) then Inr (graphGuid d ! unat index) else Inl Out_Of_Bounds)"

definition get_guid_for_vertex_distr :: "vertex_t \<Rightarrow> arts_block_dist \<Rightarrow> arts_guid_t res" where
  "get_guid_for_vertex_distr v d =
     rbind (get_owner_distr v d) (\<lambda>owner.
       if owner < num_blocks d then get_guid_for_partition_distr d owner else Inl Assert_Failed)"

definition get_num_local_blocks :: "node_cfg \<Rightarrow> arts_block_dist \<Rightarrow> nat res" where
  "get_num_local_blocks nc d =
     each (\<lambda>i k. rbind (get_guid_for_vertex_distr (of_nat i) d) (\<lambda>g.
              Inr (if arts_guid_is_local nc g then Suc k else k)))
       [0..<unat (num_blocks d)] 0"

section \<open>Blocks and vertices\<close>

text \<open>
  A distribution as the constructors leave it: at least one block and one vertex, the
  block size rounded up, and no wrap-around in the rounding.
\<close>

definition dist_ok :: "arts_block_dist \<Rightarrow> bool" where
  "dist_ok d \<longleftrightarrow>
     0 < unat (num_blocks d) \<and> 0 < unat (num_vertices d) \<and>
     unat (num_vertices d) + unat (num_blocks d) < 2 ^ 64 \<and>
     unat (block_sz d) = (unat (num_vertices d) + unat (num_blocks d) - 1) div unat (num_blocks d)"

lemma init_dist_ok:
  assumes "0 < unat blocks" "0 < unat n" "unat n + unat blocks < 2 ^ 64"
  shows "dist_ok (internal_init_block_distribution gs n m blocks)"
proof -
  have b: "unat (ucast blocks :: u64) = unat blocks" by (simp add: unat_ucast_up)
  have s: "unat (n + ucast blocks) = unat n + unat blocks" using assms b by (simp add: unat_add_lt)
  have "unat (n + ucast blocks - 1) = unat n + unat blocks - 1" using s assms by (simp add: unat_sub_le)
  then have "unat ((n + ucast blocks - 1) div ucast blocks) = (unat n + unat blocks - 1) div unat blocks"
    using b by (simp add: unat_div)
  moreover have "0 < blocks" using assms by (simp add: word_greater_zero_iff unat_gt_0)
  ultimately show ?thesis using assms by (simp add: dist_ok_def internal_init_block_distribution_def)
qed

text \<open>The arithmetic of rounding up.\<close>

lemma ceil_block:
  assumes "0 < b" "0 < n" "s = (n + b - 1) div (b :: nat)"
  shows "0 < s" "n \<le> b * s"
proof -
  have "b \<le> n + b - 1" using assms(1,2) by linarith
  then have "1 \<le> (n + b - 1) div b" using assms(1) by (simp add: div_greater_zero_iff Suc_le_eq)
  then show "0 < s" using assms(3) by simp
  have "n + b - 1 = b * s + (n + b - 1) mod b" using assms(3) by simp
  moreover have "(n + b - 1) mod b < b" using assms(1) by simp
  ultimately show "n \<le> b * s" by linarith
qed

lemma dist_nat:
  assumes "dist_ok d" "unat v < unat (num_vertices d)"
  defines "s \<equiv> unat (block_sz d)"
  shows "0 < s" "unat v div s < unat (num_blocks d)"
    "get_owner_distr v d = Inr (of_nat (unat v div s))"
    "unat (of_nat (unat v div s) :: u32) = unat v div s"
    "unat (partition_start_distr (of_nat (unat v div s)) d) = s * (unat v div s)"
proof -
  have c: "0 < s" "unat (num_vertices d) \<le> unat (num_blocks d) * s"
    using ceil_block [of "unat (num_blocks d)" "unat (num_vertices d)" s] assms by (auto simp: dist_ok_def)
  show "0 < s" by (rule c(1))
  show lt: "unat v div s < unat (num_blocks d)"
    using c assms(2) by (simp add: less_mult_imp_div_less)
  have "unat (num_blocks d) < 2 ^ 32" by (rule order_less_le_trans [OF unsigned_less]) simp
  then have small: "unat v div s < 2 ^ 32" using lt by linarith
  then show u: "unat (of_nat (unat v div s) :: u32) = unat v div s" by (simp add: unat_of_nat_lt)
  have "block_sz d \<noteq> 0" using c(1) s_def by auto
  moreover have "(ucast (v div block_sz d) :: u32) = of_nat (unat v div s)"
    unfolding s_def unat_div [symmetric] by (rule of_nat_unat [symmetric])
  ultimately show "get_owner_distr v d = Inr (of_nat (unat v div s))" by (simp add: get_owner_distr_def)
  have uc: "unat (ucast (of_nat (unat v div s) :: u32) :: u64) = unat v div s"
    using u by (simp add: unat_ucast_up)
  have "s * (unat v div s) \<le> unat v" by simp
  also have "unat v < 2 ^ 64" by (rule order_less_le_trans [OF unsigned_less]) simp
  finally show "unat (partition_start_distr (of_nat (unat v div s)) d) = s * (unat v div s)"
    using uc s_def by (simp add: partition_start_distr_def unat_mult_lt)
qed

lemma local_index_nat:
  assumes "dist_ok d" "unat v < unat (num_vertices d)"
  shows "\<exists>u. get_local_index_distr v d = Inr u \<and> unat u = unat v mod unat (block_sz d)"
proof -
  let ?s = "unat (block_sz d)" and ?p = "of_nat (unat v div unat (block_sz d)) :: u32"
  have start: "unat (partition_start_distr ?p d) = ?s * (unat v div ?s)" by (rule dist_nat(5) [OF assms])
  then have "unat (partition_start_distr ?p d) \<le> unat v" by simp
  then have "partition_start_distr ?p d \<le> v" "unat (v - partition_start_distr ?p d) = unat v - ?s * (unat v div ?s)"
    using start by (simp_all add: word_le_nat_alt unat_sub_le)
  then show ?thesis using dist_nat(3) [OF assms]
    by (simp add: get_local_index_distr_def Let_def minus_mult_div_eq_mod)
qed

lemma vertex_of_block:
  assumes "dist_ok d" "unat v < unat (num_vertices d)"
  shows "\<exists>p u. get_owner_distr v d = Inr p \<and> p < num_blocks d \<and>
    get_local_index_distr v d = Inr u \<and> u < block_sz d \<and>
    get_vertex_from_local_distr p u d = v \<and>
    partition_start_distr p d \<le> v \<and> v \<le> partition_end_distr p d"
proof -
  let ?s = "unat (block_sz d)" let ?p = "of_nat (unat v div ?s) :: u32"
  note D = dist_nat [OF assms]
  obtain u where u: "get_local_index_distr v d = Inr u" "unat u = unat v mod ?s"
    using local_index_nat [OF assms] by blast
  have v64: "unat v < 2 ^ 64" by (rule order_less_le_trans [OF unsigned_less]) simp
  have vs: "unat v = ?s * (unat v div ?s) + unat v mod ?s" by simp
  have lt: "unat u < ?s" using u(2) D(1) by simp
  have again: "get_vertex_from_local_distr ?p u d = v"
    using vs v64 u(2) D(5) by (simp add: get_vertex_from_local_distr_def word_unat_eq_iff unat_add_lt)
  have start: "partition_start_distr ?p d \<le> v" using D(5) by (simp add: word_le_nat_alt)
  have nv: "unat (num_vertices d) < 2 ^ 64" by (rule order_less_le_trans [OF unsigned_less]) simp
  have fin: "v \<le> partition_end_distr ?p d"
  proof (cases "?p = num_blocks d - 1")
    case True
    then show ?thesis using assms(2) by (simp add: partition_end_distr_def word_le_nat_alt unat_sub_le)
  next
    case False
    have "unat ?p \<noteq> unat (num_blocks d) - 1"
      using False assms(1) by (simp add: word_unat_eq_iff unat_sub_le dist_ok_def)
    then have p: "unat v div ?s + 1 < unat (num_blocks d)" using D(2,4) by linarith
    have "?s * (unat v div ?s + 1) \<le> ?s * unat (num_blocks d)"
      using p by (intro mult_le_mono2) linarith
    also have "\<dots> \<le> unat (num_vertices d) + unat (num_blocks d) - 1"
      using assms(1) by (simp add: dist_ok_def)
    also have "\<dots> < 2 ^ 64" using assms(1) unfolding dist_ok_def by linarith
    finally have fits: "?s * (unat v div ?s) + (?s - 1) < 2 ^ 64" unfolding distrib_left by linarith
    have "unat (block_sz d - 1) = ?s - 1" using D(1) by (simp add: unat_sub_le)
    then have "unat (partition_start_distr ?p d + (block_sz d - 1)) = ?s * (unat v div ?s) + (?s - 1)"
      using fits D(5) by (simp add: unat_add_lt)
    moreover have "unat v \<le> ?s * (unat v div ?s) + (?s - 1)" using vs lt u(2) by linarith
    ultimately show ?thesis using False unfolding partition_end_distr_def word_le_nat_alt by (simp only: if_False)
  qed
  have "?p < num_blocks d" "u < block_sz d" using D(2,4) lt by (simp_all add: word_less_nat_alt)
  then show ?thesis using D(3) u(1) again start fin by blast
qed

lemma block_of_vertex:
  assumes "dist_ok d" "p < num_blocks d" "u < block_sz d"
    "unat p * unat (block_sz d) + unat u < unat (num_vertices d)"
  shows "get_owner_distr (get_vertex_from_local_distr p u d) d = Inr p"
    "get_local_index_distr (get_vertex_from_local_distr p u d) d = Inr u"
proof -
  let ?s = "unat (block_sz d)" and ?v = "get_vertex_from_local_distr p u d"
  have lt: "unat u < ?s" using assms(3) by (simp add: word_less_nat_alt)
  have nv: "unat (num_vertices d) < 2 ^ 64" by (rule order_less_le_trans [OF unsigned_less]) simp
  have up: "unat (ucast p :: u64) = unat p" by (simp add: unat_ucast_up)
  have "?s * unat p < 2 ^ 64" using assms(4) nv by (simp add: mult.commute)
  then have st: "unat (partition_start_distr p d) = ?s * unat p"
    using up by (simp add: partition_start_distr_def unat_mult_lt)
  have "unat (partition_start_distr p d) + unat u < 2 ^ 64" using st assms(4) nv by (simp add: mult.commute)
  then have v: "unat ?v = ?s * unat p + unat u"
    using st by (simp add: get_vertex_from_local_distr_def unat_add_lt)
  then have vn: "unat ?v < unat (num_vertices d)" using assms(4) by (simp add: mult.commute)
  have dm: "unat ?v div ?s = unat p" "unat ?v mod ?s = unat u" using v lt by simp_all
  show "get_owner_distr ?v d = Inr p" using dist_nat(3) [OF assms(1) vn] dm(1) by simp
  show "get_local_index_distr ?v d = Inr u"
    using local_index_nat [OF assms(1) vn] dm(2) by (auto simp: word_unat_eq_iff)
qed

text \<open>
  C36. In a distribution with at least one block and one vertex, every vertex has an owner
  among the blocks, its local index is below the block size, and block and local index
  give the vertex back.  The vertex lies between the start and the end of its block.
  Conversely a block and a local index below the block size are the owner and the local
  index of the vertex they give, as long as it is a vertex.
\<close>

theorem vertex_block_roundtrip:
  assumes "0 < unat blocks" "0 < unat n" "unat n + unat blocks < 2 ^ 64"
    and d: "d = internal_init_block_distribution gs n m blocks"
  shows "(\<forall>v. unat v < unat n \<longrightarrow>
      (\<exists>p u. get_owner_distr v d = Inr p \<and> p < blocks \<and>
         get_local_index_distr v d = Inr u \<and> u < block_sz d \<and>
         get_vertex_from_local_distr p u d = v \<and>
         partition_start_distr p d \<le> v \<and> v \<le> partition_end_distr p d)) \<and>
    (\<forall>p u. p < blocks \<and> u < block_sz d \<and> unat p * unat (block_sz d) + unat u < unat n \<longrightarrow>
      get_owner_distr (get_vertex_from_local_distr p u d) d = Inr p \<and>
      get_local_index_distr (get_vertex_from_local_distr p u d) d = Inr u)"
proof -
  have ok: "dist_ok d" unfolding d by (rule init_dist_ok [OF assms(1-3)])
  have [simp]: "num_vertices d = n" "num_blocks d = blocks"
    by (simp_all add: d internal_init_block_distribution_def)
  show ?thesis using vertex_of_block [OF ok] block_of_vertex [OF ok] by auto
qed

theorem vertex_block_roundtrip_witness:
  "let d = internal_init_block_distribution [7, 8, 9] 10 20 3 in
   (\<exists>p u. get_owner_distr 9 d = Inr p \<and> p < 3 \<and> get_local_index_distr 9 d = Inr u \<and> u < block_sz d \<and>
     get_vertex_from_local_distr p u d = 9 \<and> partition_start_distr p d \<le> 9 \<and> 9 \<le> partition_end_distr p d) \<and>
   get_owner_distr (get_vertex_from_local_distr 1 2 d) d = Inr 1 \<and>
   get_local_index_distr (get_vertex_from_local_distr 1 2 d) d = Inr 2"
proof -
  let ?d = "internal_init_block_distribution [7, 8, 9] 10 20 3"
  have "block_sz ?d = 4" by (simp add: internal_init_block_distribution_def)
  then show ?thesis
    using vertex_block_roundtrip [of 3 10 ?d "[7, 8, 9]" 20] by (simp add: Let_def word_less_nat_alt)
qed

end
