(* ===== verification/Csr.thy ===== *)
theory Csr
  imports Block_Distribution "HOL-Library.Multiset"
begin

text \<open>
  Graphs in compressed sparse rows: the edge vector of
  \<^verbatim>\<open>graph/datastructures/edge_vector.c\<close> and the partitions of
  \<^verbatim>\<open>graph/datastructures/csr.c\<close>.  The body of a partition is one array of words, the row
  indices followed by the columns; every access outside it is an error value.  An entry
  of an edge vector that was allocated and not written is \<open>None\<close>, and reading it is an
  error value too.
\<close>

section \<open>Edge vectors\<close>

record edge =
  esource :: vertex_t
  etarget :: vertex_t
  eweight :: u32

record arts_edge_vector =
  edge_array :: "edge option list"
  used :: u64
  vsize :: u64

definition compare_by_source :: "edge \<Rightarrow> edge \<Rightarrow> int" where
  "compare_by_source e1 e2 =
     (if esource e1 < esource e2 then - 1 else if esource e1 = esource e2 then 0 else 1)"

definition compare_by_source_and_target :: "edge \<Rightarrow> edge \<Rightarrow> int" where
  "compare_by_source_and_target e1 e2 =
     (if esource e1 < esource e2 then - 1
      else if esource e1 = esource e2 then
        (if etarget e1 < etarget e2 then - 1 else if etarget e1 = etarget e2 then 0 else 1)
      else 1)"

definition init_edge_vector :: "u64 \<Rightarrow> arts_edge_vector" where
  "init_edge_vector initial_size =
     \<lparr>edge_array = replicate (unat initial_size) None, used = 0, vsize = initial_size\<rparr>"

definition push_back_edge :: "arts_edge_vector \<Rightarrow> vertex_t \<Rightarrow> vertex_t \<Rightarrow> u32 \<Rightarrow> arts_edge_vector res" where
  "push_back_edge v s t w =
     (let v = (if used v = vsize v then
                 let n = vsize v * 2
                 in v\<lparr>vsize := n,
                      edge_array := take (unat n) (edge_array v) @ replicate (unat n - length (edge_array v)) None\<rparr>
               else v)
      in if unat (used v) < length (edge_array v) then
           Inr (v\<lparr>edge_array := (edge_array v)[unat (used v) := Some \<lparr>esource = s, etarget = t, eweight = w\<rparr>],
                  used := used v + 1\<rparr>)
         else Inl Out_Of_Bounds)"

definition free_edge_vector :: "arts_edge_vector \<Rightarrow> arts_edge_vector" where
  "free_edge_vector v = v\<lparr>edge_array := [], used := 0, vsize := 0\<rparr>"

text \<open>
  The library's \<^verbatim>\<open>qsort\<close> is a parameter: a function of the comparison and the list.  What
  the code may rely on is that it permutes the list into the order of the comparison;
  equal elements may come in any order.
\<close>

type_synonym qsort = "(edge \<Rightarrow> edge \<Rightarrow> int) \<Rightarrow> edge list \<Rightarrow> edge list"

definition qsort_sorts :: "qsort \<Rightarrow> bool" where
  "qsort_sorts qs \<longleftrightarrow>
     (\<forall>cmp xs. mset (qs cmp xs) = mset xs \<and>
       ((\<forall>x y. cmp x y \<le> 0 \<or> cmp y x \<le> 0) \<and> (\<forall>x y z. cmp x y \<le> 0 \<and> cmp y z \<le> 0 \<longrightarrow> cmp x z \<le> 0) \<longrightarrow>
        sorted_wrt (\<lambda>x y. cmp x y \<le> 0) (qs cmp xs)))"

definition sort_used :: "qsort \<Rightarrow> (edge \<Rightarrow> edge \<Rightarrow> int) \<Rightarrow> arts_edge_vector \<Rightarrow> arts_edge_vector res" where
  "sort_used qs cmp v =
     (let n = unat (used v); xs = take n (edge_array v) in
      if length (edge_array v) < n then Inl Out_Of_Bounds
      else if None \<in> set xs then Inl Null_Deref
      else Inr (v\<lparr>edge_array := map Some (qs cmp (map the xs)) @ drop n (edge_array v)\<rparr>))"

definition sort_by_source :: "qsort \<Rightarrow> arts_edge_vector \<Rightarrow> arts_edge_vector res" where
  "sort_by_source qs v = sort_used qs compare_by_source v"

definition sort_by_source_and_target :: "qsort \<Rightarrow> arts_edge_vector \<Rightarrow> arts_edge_vector res" where
  "sort_by_source_and_target qs v = sort_used qs compare_by_source_and_target v"

section \<open>Partitions\<close>

record csr_graph =
  partGuid :: arts_guid_t
  num_local_vertices :: u64
  num_local_edges :: u64
  csr_block_sz :: u64
  csr_index :: partition_t
  csr_num_blocks :: u32
  body :: "u64 list"

definition get_row_ptr :: "csr_graph \<Rightarrow> nat" where
  "get_row_ptr csr = 0"

definition get_col_ptr :: "csr_graph \<Rightarrow> nat" where
  "get_col_ptr csr = get_row_ptr csr + unat (num_local_vertices csr) + 1"

definition load_word :: "nat \<Rightarrow> u64 list \<Rightarrow> u64 res" where
  "load_word i b = (if i < length b then Inr (b ! i) else Inl Out_Of_Bounds)"

definition store_word :: "nat \<Rightarrow> u64 \<Rightarrow> u64 list \<Rightarrow> u64 list res" where
  "store_word i x b = (if i < length b then Inr (b[i := x]) else Inl Out_Of_Bounds)"

text \<open>Give the words \<open>i .. j - 1\<close> the same value.\<close>

definition fill_words :: "nat \<Rightarrow> nat \<Rightarrow> u64 \<Rightarrow> u64 list \<Rightarrow> u64 list res" where
  "fill_words i j x b = each (\<lambda>k b. store_word k x b) [i..<j] b"

definition read_edge :: "arts_edge_vector \<Rightarrow> nat \<Rightarrow> edge res" where
  "read_edge v i =
     (if i < length (edge_array v)
      then (case edge_array v ! i of None \<Rightarrow> Inl Null_Deref | Some e \<Rightarrow> Inr e)
      else Inl Out_Of_Bounds)"

text \<open>
  The body of the loop over the edges at edge \<open>i\<close>: the columns start at \<open>cols\<close>, the state is
  the source of the edge before and the words.
\<close>

definition add_csr_edge ::
    "arts_block_dist \<Rightarrow> nat \<Rightarrow> arts_edge_vector \<Rightarrow> nat \<Rightarrow> vertex_t \<times> u64 list \<Rightarrow> (vertex_t \<times> u64 list) res" where
  "add_csr_edge d cols v i = (\<lambda>(last_src, b).
     rbind (read_edge v i) (\<lambda>e.
       let s = esource e; t = etarget e in
       rbind (get_local_index_distr s d) (\<lambda>src_ind.
         if s = last_src then
           rbind (store_word (cols + i) t b) (\<lambda>b.
             rbind (load_word (unat src_ind + 1) b) (\<lambda>x.
               rbind (store_word (unat src_ind + 1) (x + 1) b) (\<lambda>b. Inr (last_src, b))))
         else
           rbind (get_local_index_distr last_src d) (\<lambda>l.
             let last_src_ind = unat l + 1 in
             rbind (load_word last_src_ind b) (\<lambda>val.
               if last_src_ind \<le> unat src_ind then
                 rbind (fill_words (last_src_ind + 1) (unat src_ind + 1) val b) (\<lambda>b.
                   rbind (store_word (unat src_ind + 1) (of_nat i + 1) b) (\<lambda>b.
                     rbind (store_word (cols + i) t b) (\<lambda>b. Inr (s, b))))
               else Inl Assert_Failed)))))"

text \<open>
  The words of a new partition: both arrays cleared, then the edges, then the rows behind
  the last source.
\<close>

definition csr_words ::
    "arts_block_dist \<Rightarrow> nat \<Rightarrow> nat \<Rightarrow> arts_edge_vector \<Rightarrow> u64 list \<Rightarrow> u64 list res" where
  "csr_words d localv locale v b =
     (let cols = localv + 1 in
      rbind (fill_words 0 cols 0 b) (\<lambda>b.
      rbind (fill_words cols (cols + locale) 0 b) (\<lambda>b.
      rbind (read_edge v 0) (\<lambda>e.
      rbind (get_local_index_distr (esource e) d) (\<lambda>src_ind.
      rbind (store_word cols (etarget e) b) (\<lambda>b.
      rbind (store_word (unat src_ind) 0 b) (\<lambda>b.
      rbind (store_word (unat src_ind + 1) (if used v \<noteq> 0 then 1 else 0) b) (\<lambda>b.
      rbind (each (add_csr_edge d cols v) [1..<unat (used v)] (esource e, b)) (\<lambda>(last_src, b).
      rbind (get_local_index_distr last_src d) (\<lambda>l.
        let last_src_ind = unat l + 1 in
        rbind (load_word last_src_ind b) (\<lambda>val.
          if last_src_ind \<le> localv then fill_words (last_src_ind + 1) (localv + 1) val b
          else Inl Assert_Failed)))))))))))"

text \<open>
  \<^verbatim>\<open>init_csr\<close>.  The size of the data block is computed in 64 bits and cut to 32; the
  structure itself takes 40 bytes of it.  The words of the new block are zero until
  they are written, which happens before any of them is read.
\<close>

definition SIZEOF_CSR :: nat where
  "SIZEOF_CSR = 40"

definition csr_db_size :: "u64 \<Rightarrow> u64 \<Rightarrow> u32" where
  "csr_db_size localv locale = (let totsz = (localv + 1) + locale in ucast (of_nat SIZEOF_CSR + totsz * 8))"

definition init_csr ::
    "qsort \<Rightarrow> node_cfg \<Rightarrow> partition_t \<Rightarrow> u64 \<Rightarrow> u64 \<Rightarrow> arts_block_dist \<Rightarrow> arts_edge_vector \<Rightarrow> bool \<Rightarrow> arts_guid_t
      \<Rightarrow> csr_graph option res" where
  "init_csr qs nc part_index localv locale d edges sorted_by_src block_guid =
     (if arts_guid_is_local nc block_guid then
        let words = (unat (csr_db_size localv locale) - SIZEOF_CSR) div 8 in
        rbind (if sorted_by_src then Inr edges else sort_by_source qs edges) (\<lambda>edges.
          rbind (csr_words d (unat localv) (unat locale) edges (replicate words 0)) (\<lambda>b.
            Inr (Some \<lparr>partGuid = block_guid, num_local_vertices = localv, num_local_edges = locale,
                       csr_block_sz = get_block_size_for_partition 0 d, csr_index = part_index,
                       csr_num_blocks = num_blocks d, body = b\<rparr>)))
      else Inr None)"

section \<open>Queries\<close>

definition get_owner_csr :: "vertex_t \<Rightarrow> csr_graph \<Rightarrow> partition_t res" where
  "get_owner_csr v part =
     (if csr_block_sz part = 0 then Inl Div_By_Zero else Inr (ucast (v div csr_block_sz part)))"

definition index_start_csr :: "partition_t \<Rightarrow> csr_graph \<Rightarrow> vertex_t" where
  "index_start_csr index part = csr_block_sz part * ucast index"

definition index_end_csr :: "partition_t \<Rightarrow> csr_graph \<Rightarrow> vertex_t" where
  "index_end_csr index part =
     (if index = csr_num_blocks part - 1 then num_local_vertices part - 1
      else index_start_csr index part + (csr_block_sz part - 1))"

definition partition_start_csr :: "csr_graph \<Rightarrow> vertex_t" where
  "partition_start_csr part = index_start_csr (csr_index part) part"

definition partition_end_csr :: "csr_graph \<Rightarrow> vertex_t" where
  "partition_end_csr part = index_end_csr (csr_index part) part"

definition get_vertex_from_local_csr :: "local_index_t \<Rightarrow> csr_graph \<Rightarrow> vertex_t" where
  "get_vertex_from_local_csr u part = partition_start_csr part + u"

definition get_local_index_csr :: "vertex_t \<Rightarrow> csr_graph \<Rightarrow> local_index_t res" where
  "get_local_index_csr v part =
     (let base = index_start_csr (csr_index part) part
      in if base \<le> v then Inr (v - base) else Inl Assert_Failed)"

text \<open>
  \<^verbatim>\<open>get_neighbors\<close> returns a pointer into the columns and a count; the model returns the
  words the pointer and the count span.
\<close>

definition get_neighbors :: "csr_graph \<Rightarrow> vertex_t \<Rightarrow> u64 list res" where
  "get_neighbors csr v =
     rbind (get_local_index_csr v csr) (\<lambda>i.
       rbind (load_word (get_row_ptr csr + unat i) (body csr)) (\<lambda>start.
         rbind (load_word (get_row_ptr csr + unat i + 1) (body csr)) (\<lambda>stop.
           let p = get_col_ptr csr + unat start; n = unat (stop - start) in
           if p + n \<le> length (body csr) then Inr (take n (drop p (body csr))) else Inl Out_Of_Bounds)))"

section \<open>Reading files\<close>

text \<open>The functions of the C library the readers use, on strings without a terminator.\<close>

definition strtok :: "string \<Rightarrow> string \<Rightarrow> (string \<times> string) option" where
  "strtok delims s =
     (let r = dropWhile (\<lambda>c. c \<in> set delims) s in
      if r = [] then None
      else Some (takeWhile (\<lambda>c. c \<notin> set delims) r, drop 1 (dropWhile (\<lambda>c. c \<notin> set delims) r)))"

lemma strtok_shorter: "strtok delims s = Some (t, r) \<Longrightarrow> length r < length s"
proof -
  assume *: "strtok delims s = Some (t, r)"
  let ?u = "dropWhile (\<lambda>c. c \<in> set delims) s"
  have u: "?u \<noteq> []" and r: "r = drop 1 (dropWhile (\<lambda>c. c \<notin> set delims) ?u)"
    using * by (auto simp: strtok_def Let_def split: if_splits)
  have "length (dropWhile (\<lambda>c. c \<notin> set delims) ?u) \<le> length ?u" by (rule length_dropWhile_le)
  moreover have "length ?u \<le> length s" by (rule length_dropWhile_le)
  ultimately show ?thesis using u r by (cases s) auto
qed

function tokens :: "string \<Rightarrow> string \<Rightarrow> string list" where
  "tokens delims s = (case strtok delims s of None \<Rightarrow> [] | Some (t, r) \<Rightarrow> t # tokens delims r)"
  by pat_completeness auto
termination by (relation "measure (\<lambda>(d, s). length s)") (auto dest: strtok_shorter)

declare tokens.simps [simp del]

definition isspace :: "char \<Rightarrow> bool" where
  "isspace c \<longleftrightarrow> c \<in> set [CHR '' '', CHR 0x09, CHR 0x0A, CHR 0x0B, CHR 0x0C, CHR 0x0D]"

definition isdigit :: "char \<Rightarrow> bool" where
  "isdigit c \<longleftrightarrow> (48 :: nat) \<le> of_char c \<and> of_char c \<le> (57 :: nat)"

definition scan_int :: "string \<Rightarrow> bool \<times> int" where
  "scan_int s =
     (let s = dropWhile isspace s;
          neg = (s \<noteq> [] \<and> hd s = CHR ''-'');
          s = (if s \<noteq> [] \<and> (hd s = CHR ''-'' \<or> hd s = CHR ''+'') then List.tl s else s)
      in (neg, foldl (\<lambda>a c. 10 * a + (of_char c - 48)) 0 (takeWhile isdigit s)))"

definition strtoll :: "string \<Rightarrow> int" where
  "strtoll s = (case scan_int s of (neg, n) \<Rightarrow> max (- (2 ^ 63)) (min (2 ^ 63 - 1) (if neg then - n else n)))"

definition strtoull :: "string \<Rightarrow> u64" where
  "strtoull s = (case scan_int s of (neg, n) \<Rightarrow>
     if 2 ^ 64 \<le> n then - 1 else if neg then - word_of_int n else word_of_int n)"

text \<open>The values of \<^verbatim>\<open>--num-vertices\<close> and \<^verbatim>\<open>--num-edges\<close>, the last of each.\<close>

fun size_args :: "string list \<Rightarrow> u64 \<times> u64 \<Rightarrow> (u64 \<times> u64) res" where
  "size_args [] nm = Inr nm"
| "size_args (a # as) (n, m) =
     rbind (if a = ''--num-vertices'' then (case as of [] \<Rightarrow> Inl Null_Deref | x # _ \<Rightarrow> Inr (strtoull x)) else Inr n)
       (\<lambda>n. rbind (if a = ''--num-edges'' then (case as of [] \<Rightarrow> Inl Null_Deref | x # _ \<Rightarrow> Inr (strtoull x)) else Inr m)
         (\<lambda>m. size_args as (n, m)))"

definition init_block_distribution_with_cmd_line_args ::
    "node_cfg \<Rightarrow> thread_info \<Rightarrow> string list \<Rightarrow> guid_state \<Rightarrow> (guid_state \<times> arts_block_dist option) res" where
  "init_block_distribution_with_cmd_line_args nc th argv s =
     rbind (size_args argv (0, 0)) (\<lambda>(n, m).
       if n \<noteq> 0 \<and> m \<noteq> 0 then
         let blocks = arts_global_rank_count nc in
         rbind (reserve_at nc th ARTS_DB (map of_nat [0..<unat blocks]) s)
           (\<lambda>(s', gs). Inr (s', Some (internal_init_block_distribution gs n m blocks)))
       else Inr (s, None))"

text \<open>
  The partitions this rank holds, with an empty edge vector each, the first action of
  both readers.
\<close>

definition EDGE_VEC_SZ :: u64 where
  "EDGE_VEC_SZ = 10000"

definition local_parts :: "node_cfg \<Rightarrow> arts_block_dist \<Rightarrow> partition_t list res" where
  "local_parts nc d =
     each (\<lambda>i ps. rbind (get_guid_for_partition_distr d (of_nat i)) (\<lambda>g.
              Inr (if arts_guid_is_local nc g then ps @ [of_nat i] else ps)))
       [0..<unat (num_blocks d)] []"

type_synonym loaded = "(partition_t \<times> arts_edge_vector) list"

definition empty_parts :: "partition_t list \<Rightarrow> loaded" where
  "empty_parts ps = map (\<lambda>p. (p, init_edge_vector EDGE_VEC_SZ)) ps"

text \<open>Append an edge to the vector of every local partition that owns its source.\<close>

fun push_owned :: "partition_t \<Rightarrow> vertex_t \<Rightarrow> vertex_t \<Rightarrow> loaded \<Rightarrow> loaded res" where
  "push_owned owner s t [] = Inr []"
| "push_owned owner s t ((p, v) # l) =
     rbind (if owner = p then push_back_edge v s t 0 else Inr v) (\<lambda>v.
       rbind (push_owned owner s t l) (\<lambda>l. Inr ((p, v) # l)))"

definition load_edge :: "arts_block_dist \<Rightarrow> vertex_t \<Rightarrow> vertex_t \<Rightarrow> loaded \<Rightarrow> loaded res" where
  "load_edge d s t l = rbind (get_owner_distr s d) (\<lambda>owner. push_owned owner s t l)"

text \<open>
  The token loop of the edge list reader: the first and every second token after it is
  the source, the others are the target.
\<close>

fun assign_tokens :: "string list \<Rightarrow> bool \<Rightarrow> vertex_t \<times> vertex_t \<Rightarrow> vertex_t \<times> vertex_t" where
  "assign_tokens [] second st = st"
| "assign_tokens (x # xs) second (s, t) =
     (if second then assign_tokens xs False (s, word_of_int (strtoll x))
      else assign_tokens xs True (word_of_int (strtoll x), t))"

definition line_tokens :: "string \<Rightarrow> string list" where
  "line_tokens str =
     (case strtok ('' '' @ [CHR 0x09]) str of None \<Rightarrow> [] | Some (t, r) \<Rightarrow> t # tokens '' '' r)"

text \<open>
  One line of an edge list.  After a line that starts with \<^verbatim>\<open>%\<close> the next line that is not a
  comment, the size line of the matrix market format, is skipped.
\<close>

definition load_line ::
    "arts_block_dist \<Rightarrow> bool \<Rightarrow> bool \<Rightarrow> string \<Rightarrow> bool \<times> loaded \<Rightarrow> (bool \<times> loaded) res" where
  "load_line d flip ignore_self_loops str = (\<lambda>(ignore_first, l).
     if take 1 str = ''%'' then Inr (True, l)
     else if take 1 str = ''#'' then Inr (ignore_first, l)
     else if ignore_first then Inr (False, l)
     else
       (case assign_tokens (line_tokens str) False (0, 0) of
          (src, target) \<Rightarrow>
            if ignore_self_loops \<and> src = target then Inr (False, l)
            else rbind (load_edge d src target l) (\<lambda>l.
              rbind (if flip then load_edge d target src l else Inr l) (\<lambda>l. Inr (False, l)))))"

text \<open>Sort every vector and build its partition, the last action of both readers.\<close>

fun build_parts :: "qsort \<Rightarrow> node_cfg \<Rightarrow> arts_block_dist \<Rightarrow> loaded \<Rightarrow> csr_graph option list res" where
  "build_parts qs nc d [] = Inr []"
| "build_parts qs nc d ((p, v) # l) =
     rbind (sort_by_source qs v) (\<lambda>v.
       rbind (get_guid_for_partition_distr d p) (\<lambda>g.
         rbind (init_csr qs nc p (get_block_size_for_partition p d) (used v) d v True g) (\<lambda>c.
           rbind (build_parts qs nc d l) (\<lambda>cs. Inr (c # cs)))))"

text \<open>
  \<^verbatim>\<open>load_graph_no_weight\<close>: the file is the list of the lines \<^verbatim>\<open>fgets\<close> returns, or \<open>None\<close> if there
  is no path or it cannot be opened.  The result is the return code and the partitions
  that were built.
\<close>

definition load_graph_no_weight ::
    "qsort \<Rightarrow> node_cfg \<Rightarrow> string list option \<Rightarrow> arts_block_dist \<Rightarrow> bool \<Rightarrow> bool \<Rightarrow> (int \<times> csr_graph option list) res" where
  "load_graph_no_weight qs nc file d flip ignore_self_loops =
     (case file of
        None \<Rightarrow> Inr (- 1, [])
      | Some lines \<Rightarrow>
          rbind (local_parts nc d) (\<lambda>ps.
            rbind (each (load_line d flip ignore_self_loops) lines (False, empty_parts ps)) (\<lambda>(_, l).
              rbind (build_parts qs nc d l) (\<lambda>cs. Inr (0, cs)))))"

text \<open>
  One line of an adjacency file: the targets of vertex \<open>src\<close>, counted from one.  The
  delimiters are those of the source, where the backslash is doubled.
\<close>

definition ADJ_DELIMS :: string where
  "ADJ_DELIMS = '' '' @ [CHR 0x09, CHR 0x5C] @ ''v'' @ [CHR 0x0C, CHR 0x0D]"

definition load_adj_target ::
    "arts_block_dist \<Rightarrow> bool \<Rightarrow> vertex_t \<Rightarrow> string \<Rightarrow> loaded \<Rightarrow> loaded res" where
  "load_adj_target d ignore_self_loops src tok l =
     (let target = word_of_int (strtoll tok - 1) in
      if ignore_self_loops \<and> src = target then Inr l else load_edge d src target l)"

definition load_adj_line ::
    "arts_block_dist \<Rightarrow> bool \<Rightarrow> string \<Rightarrow> vertex_t \<times> loaded \<Rightarrow> (vertex_t \<times> loaded) res" where
  "load_adj_line d ignore_self_loops str = (\<lambda>(src, l).
     if take 1 str = ''%'' \<or> take 1 str = ''#'' then Inr (src, l)
     else rbind (each (load_adj_target d ignore_self_loops src) (tokens ADJ_DELIMS str) l)
            (\<lambda>l. Inr (src + 1, l)))"

text \<open>The size line of an adjacency file: two numbers, each of which must be there.\<close>

definition size_line :: "string \<Rightarrow> (u64 \<times> u64) res" where
  "size_line str =
     (case strtok '' '' str of
        None \<Rightarrow> Inl Null_Deref
      | Some (a, r) \<Rightarrow>
          (case strtok '' '' r of
             None \<Rightarrow> Inl Null_Deref
           | Some (b, _) \<Rightarrow> Inr (word_of_int (strtoll a), word_of_int (strtoll b))))"

definition load_graph_no_weight_csr ::
    "qsort \<Rightarrow> node_cfg \<Rightarrow> string list option \<Rightarrow> arts_block_dist \<Rightarrow> bool \<Rightarrow> (int \<times> csr_graph option list) res" where
  "load_graph_no_weight_csr qs nc file d ignore_self_loops =
     (case file of
        None \<Rightarrow> Inr (- 1, [])
      | Some lines \<Rightarrow>
          rbind (local_parts nc d) (\<lambda>ps.
            case lines of
              [] \<Rightarrow> Inr (- 1, [])
            | str # lines \<Rightarrow>
                rbind (size_line str) (\<lambda>(num_verts, _).
                  rbind (each (load_adj_line d ignore_self_loops) lines (0, empty_parts ps)) (\<lambda>(src, l).
                    if src = num_verts then rbind (build_parts qs nc d l) (\<lambda>cs. Inr (0, cs))
                    else Inr (0, [])))))"

text \<open>
  \<^verbatim>\<open>load_graph_using_cmd_line_args\<close>: the options, the last \<^verbatim>\<open>--file\<close> counts, and the reader
  they select.  \<open>fs\<close> gives the lines of a file.
\<close>

fun file_arg :: "string list \<Rightarrow> string option \<Rightarrow> string option" where
  "file_arg [] f = f"
| "file_arg (a # as) f =
     (if a = ''--file'' then (case as of [] \<Rightarrow> file_arg as None | x # _ \<Rightarrow> file_arg as (Some x))
      else file_arg as f)"

definition load_graph_using_cmd_line_args ::
    "qsort \<Rightarrow> node_cfg \<Rightarrow> (string \<Rightarrow> string list option) \<Rightarrow> arts_block_dist \<Rightarrow> string list
      \<Rightarrow> (int \<times> csr_graph option list) res" where
  "load_graph_using_cmd_line_args qs nc fs d argv =
     (let file = (case file_arg argv None of None \<Rightarrow> None | Some x \<Rightarrow> fs x);
           flip = (''--flip'' \<in> set argv); keep = (''--keep-self-loops'' \<in> set argv)
       in if ''--csr-format'' \<in> set argv then load_graph_no_weight_csr qs nc file d (\<not> keep)
          else load_graph_no_weight qs nc file d flip (\<not> keep))"

end
