(* ===== verification/Csr_Props.thy ===== *)
theory Csr_Props
  imports Csr
begin

text \<open>
  Properties of graph partitions: pushing edges keeps the vector a list of edges, the
  rows count the edges of smaller sources, and so the neighbours of a vertex are the
  targets of its edges, also when the graph comes from a file.
\<close>

section \<open>Words\<close>

lemma fill_words_ok:
  assumes "j \<le> length b"
  shows "\<exists>b'. fill_words i j x b = Inr b' \<and> length b' = length b \<and>
    (\<forall>k. b' ! k = (if i \<le> k \<and> k < j then x else b ! k))"
  using assms
proof (induction j)
  case 0
  then show ?case by (simp add: fill_words_def)
next
  case (Suc j)
  then obtain b' where b': "fill_words i j x b = Inr b'" "length b' = length b"
    "\<forall>k. b' ! k = (if i \<le> k \<and> k < j then x else b ! k)" by auto
  show ?case
  proof (cases "i \<le> j")
    case True
    have "fill_words i (Suc j) x b = Inr (b'[j := x])"
      using b' Suc.prems True by (simp add: fill_words_def each_append store_word_def)
    then show ?thesis using b' Suc.prems True by (auto simp: nth_list_update)
  next
    case False
    then have "fill_words i (Suc j) x b = fill_words i j x b" by (simp add: fill_words_def)
    then show ?thesis using b' False by (auto simp: less_Suc_eq)
  qed
qed

section \<open>Edge vectors\<close>

definition ev_holds :: "arts_edge_vector \<Rightarrow> edge list \<Rightarrow> bool" where
  "ev_holds v es \<longleftrightarrow>
     unat (used v) = length es \<and> length (edge_array v) = unat (vsize v) \<and> 0 < unat (vsize v) \<and>
     length es \<le> unat (vsize v) \<and> take (length es) (edge_array v) = map Some es"

text \<open>The allocated size never exceeds the initial size or twice the edges.\<close>

definition ev_small :: "u64 \<Rightarrow> arts_edge_vector \<Rightarrow> bool" where
  "ev_small sz v \<longleftrightarrow> unat (vsize v) \<le> max (unat sz) (2 * unat (used v))"

lemma init_holds: "0 < unat sz \<Longrightarrow> ev_holds (init_edge_vector sz) [] \<and> ev_small sz (init_edge_vector sz)"
  by (simp add: ev_holds_def ev_small_def init_edge_vector_def)

lemma push_holds:
  assumes v: "ev_holds v es" "ev_small sz v" and fits: "unat sz < 2 ^ 62" "length es < 2 ^ 61"
  shows "\<exists>v'. push_back_edge v s t w = Inr v' \<and>
    ev_holds v' (es @ [\<lparr>esource = s, etarget = t, eweight = w\<rparr>]) \<and> ev_small sz v'"
proof -
  let ?n = "length es" and ?e = "\<lparr>esource = s, etarget = t, eweight = w\<rparr>"
  have u: "unat (used v) = ?n" using v(1) by (simp add: ev_holds_def)
  have u1: "unat (used v + 1) = ?n + 1" using u fits(2) by (simp add: unat_add_lt)
  show ?thesis
  proof (cases "used v = vsize v")
    case True
    then have sz: "unat (vsize v) = ?n" "0 < ?n" using u v(1) by (auto simp: ev_holds_def)
    then have n2: "unat (vsize v * 2) = 2 * ?n" using fits(2) by (simp add: unat_mult_lt)
    let ?a = "edge_array v @ replicate ?n None"
    have len: "length (edge_array v) = ?n" using v(1) sz by (simp add: ev_holds_def)
    have a: "edge_array v = map Some es" using v(1) len by (simp add: ev_holds_def)
    have "push_back_edge v s t w =
      Inr (v\<lparr>vsize := vsize v * 2, edge_array := ?a[?n := Some ?e], used := used v + 1\<rparr>)"
      using True u n2 len sz by (simp add: push_back_edge_def Let_def)
    moreover have "take (Suc ?n) (?a[?n := Some ?e]) = map Some (es @ [?e])"
      using sz(2) by (cases ?n) (simp_all add: a list_update_append)
    ultimately show ?thesis using u1 n2 len sz(2) fits
      by (simp add: ev_holds_def ev_small_def Suc_le_eq le_max_iff_disj)
  next
    case False
    then have lt: "?n < unat (vsize v)" using u v(1) by (auto simp: ev_holds_def word_unat_eq_iff)
    have "push_back_edge v s t w = Inr (v\<lparr>edge_array := (edge_array v)[?n := Some ?e], used := used v + 1\<rparr>)"
      using False u lt v(1) by (simp add: push_back_edge_def Let_def ev_holds_def)
    moreover have "take (Suc ?n) ((edge_array v)[?n := Some ?e]) = map Some (es @ [?e])"
      using lt v(1) by (simp add: ev_holds_def take_Suc_conv_app_nth)
    ultimately show ?thesis using u u1 v lt by (simp add: ev_holds_def ev_small_def)
  qed
qed

lemma compare_by_source_order:
  "(\<forall>x y. compare_by_source x y \<le> 0 \<or> compare_by_source y x \<le> 0) \<and>
   (\<forall>x y z. compare_by_source x y \<le> 0 \<and> compare_by_source y z \<le> 0 \<longrightarrow> compare_by_source x z \<le> 0)"
  "compare_by_source x y \<le> 0 \<longleftrightarrow> esource x \<le> esource y"
  by (auto simp: compare_by_source_def)

lemma sort_holds:
  assumes "qsort_sorts qs" "ev_holds v es"
  shows "\<exists>v' es'. sort_by_source qs v = Inr v' \<and> ev_holds v' es' \<and> mset es' = mset es \<and>
    sorted (map esource es') \<and> used v' = used v"
proof -
  let ?es = "qs compare_by_source es"
  have m: "mset ?es = mset es" and s: "sorted_wrt (\<lambda>x y. compare_by_source x y \<le> 0) ?es"
    using assms(1) compare_by_source_order(1) unfolding qsort_sorts_def by blast+
  have len: "length ?es = length es" using m by (metis size_mset)
  have "sorted (map esource ?es)" using s by (simp add: compare_by_source_order(2) sorted_map)
  moreover have "sort_by_source qs v = Inr (v\<lparr>edge_array := map Some ?es @ drop (length es) (edge_array v)\<rparr>)"
    using assms(2) by (simp add: sort_by_source_def sort_used_def ev_holds_def Let_def comp_def)
  moreover have "ev_holds (v\<lparr>edge_array := map Some ?es @ drop (length es) (edge_array v)\<rparr>) ?es"
    using len assms(2) by (simp add: ev_holds_def)
  ultimately show ?thesis using m by auto
qed

section \<open>Rows count edges\<close>

text \<open>The number of edges whose index is below a row.\<close>

definition below :: "(edge \<Rightarrow> nat) \<Rightarrow> edge list \<Rightarrow> nat \<Rightarrow> nat" where
  "below f es r = length (filter (\<lambda>e. f e < r) es)"

lemma below_snoc: "below f (es @ [e]) r = below f es r + (if f e < r then 1 else 0)"
  by (simp add: below_def)

lemma below_all: "(\<And>e. e \<in> set es \<Longrightarrow> f e < r) \<Longrightarrow> below f es r = length es"
  by (simp add: below_def)

lemma below_le: "below f es r \<le> length es"
  by (simp add: below_def)

lemma below_Suc: "below f es (Suc r) = below f es r + length (filter (\<lambda>e. f e = r) es)"
  by (induction es) (auto simp: below_def)

lemma sorted_split:
  fixes f :: "'a \<Rightarrow> nat"
  assumes "sorted (map f es)"
  shows "es = filter (\<lambda>e. f e < r) es @ filter (\<lambda>e. f e = r) es @ filter (\<lambda>e. r < f e) es"
    (is "es = ?a es @ ?b es @ ?c es")
  using assms
proof (induction es)
  case (Cons e es)
  then have IH: "es = ?a es @ ?b es @ ?c es" by simp
  consider "f e < r" | "f e = r" | "r < f e" by linarith
  then show ?case
  proof cases
    case 1
    then show ?thesis using IH by simp
  next
    case 2
    then have "?a es = []" using Cons.prems by (auto simp: filter_empty_conv)
    then show ?thesis using IH 2 by simp
  next
    case 3
    then have "?a es = []" "?b es = []" using Cons.prems by (auto simp: filter_empty_conv)
    then show ?thesis using IH 3 by simp
  qed
qed simp

lemma sorted_slice:
  assumes "sorted (map f es)"
  shows "take (below f es (Suc r) - below f es r) (drop (below f es r) es) = filter (\<lambda>e. f e = r) es"
proof -
  let ?a = "filter (\<lambda>e. f e < r) es" and ?b = "filter (\<lambda>e. f e = r) es" and ?c = "filter (\<lambda>e. r < f e) es"
  have es: "es = ?a @ ?b @ ?c" by (rule sorted_split [OF assms])
  have "below f es (Suc r) = length ?a + length ?b" unfolding below_Suc by (simp add: below_def)
  moreover have "below f es r = length ?a" by (simp add: below_def)
  ultimately have "take (below f es (Suc r) - below f es r) (drop (below f es r) (?a @ ?b @ ?c)) = ?b" by simp
  then show ?thesis using es by simp
qed

text \<open>
  What is fixed while a partition is built: the distribution, the partition, the number
  of its vertices, the sorted edges and their vector.
\<close>

definition local_idx :: "arts_block_dist \<Rightarrow> edge \<Rightarrow> nat" where
  "local_idx d e = unat (esource e) mod unat (block_sz d)"

definition part_edges :: "arts_block_dist \<Rightarrow> nat \<Rightarrow> nat \<Rightarrow> edge list \<Rightarrow> bool" where
  "part_edges d p localv es \<longleftrightarrow>
     dist_ok d \<and>
     (\<forall>e\<in>set es. unat (esource e) < unat (num_vertices d) \<and> unat (esource e) div unat (block_sz d) = p \<and>
        local_idx d e < localv)"

definition rows_ok :: "arts_block_dist \<Rightarrow> nat \<Rightarrow> edge list \<Rightarrow> nat \<Rightarrow> u64 list \<Rightarrow> bool" where
  "rows_ok d cols es hi b \<longleftrightarrow>
     (\<forall>r\<le>hi. b ! r = of_nat (below (local_idx d) es r)) \<and> (\<forall>k<length es. b ! (cols + k) = etarget (es ! k))"

lemma local_idx_word:
  assumes "part_edges d p localv es" "e \<in> set es"
  shows "\<exists>u. get_local_index_distr (esource e) d = Inr u \<and> unat u = local_idx d e"
  using local_index_nat [of d "esource e"] assms by (auto simp: part_edges_def local_idx_def)

lemma same_source:
  assumes "part_edges d p localv es" "e \<in> set es" "e' \<in> set es"
  shows "esource e = esource e' \<longleftrightarrow> local_idx d e = local_idx d e'"
proof -
  have "unat (esource e) = unat (block_sz d) * p + local_idx d e"
    "unat (esource e') = unat (block_sz d) * p + local_idx d e'"
    using assms mult_div_mod_eq [of "unat (block_sz d)"] by (auto simp: part_edges_def local_idx_def)
  then show ?thesis by (auto simp: word_unat_eq_iff)
qed

lemma sorted_idx:
  assumes "part_edges d p localv es" "sorted (map esource es)"
  shows "sorted (map (local_idx d) es)"
proof -
  have "local_idx d x \<le> local_idx d y" if xy: "x \<in> set es" "y \<in> set es" "esource x \<le> esource y" for x y
  proof -
    have "unat (esource z) = unat (block_sz d) * p + local_idx d z" if "z \<in> set es" for z
      using assms(1) that mult_div_mod_eq [of "unat (block_sz d)"] by (auto simp: part_edges_def local_idx_def)
    then show ?thesis using xy by (simp add: word_le_nat_alt)
  qed
  then show ?thesis using assms(2) unfolding sorted_map by (rule_tac sorted_wrt_mono_rel) auto
qed

lemma read_edge_holds: "ev_holds v es \<Longrightarrow> i < length es \<Longrightarrow> read_edge v i = Inr (es ! i)"
proof -
  assume v: "ev_holds v es" and i: "i < length es"
  have "edge_array v ! i = take (length es) (edge_array v) ! i" using i by simp
  also have "\<dots> = Some (es ! i)" using v i by (simp add: ev_holds_def)
  finally show ?thesis using v i by (simp add: read_edge_def ev_holds_def)
qed

text \<open>One edge more: the rows up to its successor row count it.\<close>

lemma add_csr_edge_ok:
  assumes pe: "part_edges d p localv es" and srt: "sorted (map esource es)" and v: "ev_holds v es"
    and i: "0 < i" "i < length es" and cols: "cols = localv + 1" "length b = cols + length es"
    and rows: "rows_ok d cols (take i es) (local_idx d (es ! (i - 1)) + 1) b"
  shows "\<exists>b'. add_csr_edge d cols v i (esource (es ! (i - 1)), b) = Inr (esource (es ! i), b') \<and>
    length b' = length b \<and> rows_ok d cols (take (Suc i) es) (local_idx d (es ! i) + 1) b'"
proof -
  let ?e = "es ! i" and ?prev = "es ! (i - 1)" let ?L = "local_idx d ?prev" and ?K = "local_idx d ?e"
  have mem: "?e \<in> set es" "?prev \<in> set es" using i by auto
  obtain k where k: "get_local_index_distr (esource ?e) d = Inr k" "unat k = ?K"
    using local_idx_word [OF pe mem(1)] by blast
  obtain l where l: "get_local_index_distr (esource ?prev) d = Inr l" "unat l = ?L"
    using local_idx_word [OF pe mem(2)] by blast
  have K: "?K < localv" "?L < localv" using pe mem by (auto simp: part_edges_def)
  have ord: "local_idx d (es ! j) \<le> ?L" if "j < i" for j
    using sorted_nth_mono [OF sorted_idx [OF pe srt], of j "i - 1"] that i by simp
  have LK: "?L \<le> ?K" using sorted_nth_mono [OF sorted_idx [OF pe srt], of "i - 1" i] i by simp
  have low: "local_idx d x \<le> ?L" if "x \<in> set (take i es)" for x
    using that ord i by (auto simp: in_set_conv_nth)
  have T: "take (Suc i) es = take i es @ [?e]" by (rule take_Suc_conv_app_nth [OF i(2)])
  have col: "cols + i < length b" "\<And>r. r \<le> ?K + 1 \<Longrightarrow> r < cols" using cols i K by auto
  have re: "read_edge v i = Inr ?e" by (rule read_edge_holds [OF v i(2)])
  show ?thesis
  proof (cases "esource ?e = esource ?prev")
    case True
    then have eq: "?K = ?L" using same_source [OF pe mem] by simp
    let ?b = "b[cols + i := etarget ?e, ?K + 1 := b ! (?K + 1) + 1]"
    have K1: "?K + 1 < cols" using col(2) by simp
    then have "add_csr_edge d cols v i (esource ?prev, b) = Inr (esource ?e, ?b)"
      using True re k(1) k(2) col(1) cols(2)
      by (simp add: add_csr_edge_def store_word_def load_word_def Let_def)
    moreover have "rows_ok d cols (take (Suc i) es) (?K + 1) ?b"
    proof -
      have "?b ! r = of_nat (below (local_idx d) (take (Suc i) es) r)" if r: "r \<le> ?K + 1" for r
      proof (cases "r = ?K + 1")
        case True
        then have "?b ! r = b ! r + 1" using K1 cols(2) by simp
        then show ?thesis using True rows unfolding T rows_ok_def below_snoc eq by simp
      next
        case False
        then have "?b ! r = b ! r" using col(2) [OF r] by simp
        then show ?thesis using False r rows unfolding T rows_ok_def below_snoc eq by simp
      qed
      moreover have "?b ! (cols + j) = etarget (take (Suc i) es ! j)" if j: "j < Suc i" for j
      proof (cases "j = i")
        case True
        then show ?thesis using K1 col(1) by simp
      next
        case False
        then show ?thesis using j K1 rows i by (simp add: rows_ok_def)
      qed
      ultimately show ?thesis using i by (simp add: rows_ok_def)
    qed
    ultimately show ?thesis by auto
  next
    case False
    then have lt: "?L < ?K" using LK same_source [OF pe mem] by simp
    have full: "below (local_idx d) (take i es) r = i" if "?L < r" for r
      using below_all [of "take i es" "local_idx d" r] low that i by force
    have val: "b ! (?L + 1) = of_nat i" using rows full [of "?L + 1"] by (simp add: rows_ok_def)
    obtain b1 where b1: "fill_words (?L + 2) (?K + 1) (of_nat i) b = Inr b1" "length b1 = length b"
      "\<And>q. b1 ! q = (if ?L + 2 \<le> q \<and> q < ?K + 1 then of_nat i else b ! q)"
      using fill_words_ok [of "?K + 1" b "?L + 2" "of_nat i"] cols K by auto
    let ?b = "b1[?K + 1 := of_nat i + 1, cols + i := etarget ?e]"
    have K1: "?K + 1 < cols" "?L + 1 < cols" using col(2) lt by simp_all
    then have "add_csr_edge d cols v i (esource ?prev, b) = Inr (esource ?e, ?b)"
      using False re k l lt val b1(1,2) col(1) cols(2)
      by (simp add: add_csr_edge_def store_word_def load_word_def Let_def)
    moreover have "rows_ok d cols (take (Suc i) es) (?K + 1) ?b"
    proof -
      have "?b ! r = of_nat (below (local_idx d) (take (Suc i) es) r)" if r: "r \<le> ?K + 1" for r
      proof -
        consider "r \<le> ?L + 1" | "?L + 2 \<le> r" "r < ?K + 1" | "r = ?K + 1" using r by linarith
        then show ?thesis
        proof cases
          case 1
          then have "?b ! r = b ! r" using lt b1(3) [of r] col(2) [OF r] by simp
          then show ?thesis using 1 lt rows unfolding T rows_ok_def below_snoc by simp
        next
          case 2
          then have "?b ! r = of_nat i" using b1(3) [of r] col(2) [OF r] by simp
          then show ?thesis using 2 full [of r] unfolding T below_snoc by simp
        next
          case 3
          then have "?b ! r = of_nat i + 1" using col col(2) [OF r] cols(2) b1(2) by simp
          then show ?thesis using 3 lt full [of r] unfolding T below_snoc by simp
        qed
      qed
      moreover have "?b ! (cols + j) = etarget (take (Suc i) es ! j)" if j: "j < Suc i" for j
      proof (cases "j = i")
        case True
        then show ?thesis using col(1) b1(2) by simp
      next
        case False
        then show ?thesis using j col(2) [of "?K + 1"] b1(3) [of "cols + j"] rows i by (simp add: rows_ok_def)
      qed
      ultimately show ?thesis using i by (simp add: rows_ok_def)
    qed
    ultimately show ?thesis using b1(2) by auto
  qed
qed

lemma add_csr_edges_ok:
  assumes pe: "part_edges d p localv es" and srt: "sorted (map esource es)" and v: "ev_holds v es"
    and n: "0 < n" "n \<le> length es" and cols: "cols = localv + 1" "length b = cols + length es"
    and rows: "rows_ok d cols (take 1 es) (local_idx d (es ! 0) + 1) b"
  shows "\<exists>b'. each (add_csr_edge d cols v) [1..<n] (esource (es ! 0), b) = Inr (esource (es ! (n - 1)), b') \<and>
    length b' = length b \<and> rows_ok d cols (take n es) (local_idx d (es ! (n - 1)) + 1) b'"
  using n
proof (induction n)
  case (Suc n)
  show ?case
  proof (cases "n = 0")
    case True
    then show ?thesis using rows by simp
  next
    case False
    then obtain b1 where b1: "each (add_csr_edge d cols v) [1..<n] (esource (es ! 0), b) = Inr (esource (es ! (n - 1)), b1)"
      "length b1 = length b" "rows_ok d cols (take n es) (local_idx d (es ! (n - 1)) + 1) b1"
      using Suc by auto
    have "0 < n" "n < length es" using False Suc.prems by auto
    from add_csr_edge_ok [OF pe srt v this cols(1) _ b1(3)] obtain b2 where
      "add_csr_edge d cols v n (esource (es ! (n - 1)), b1) = Inr (esource (es ! n), b2)"
      "length b2 = length b1" "rows_ok d cols (take (Suc n) es) (local_idx d (es ! n) + 1) b2"
      using b1(2) cols(2) by auto
    then show ?thesis using b1(1,2) False by (simp add: each_append)
  qed
qed simp

text \<open>The finished rows count the edges below every row, the columns are the targets.\<close>

lemma csr_words_ok:
  assumes pe: "part_edges d p localv es" and srt: "sorted (map esource es)" and v: "ev_holds v es"
    and es: "es \<noteq> []" and len: "length b = localv + 1 + length es"
  shows "\<exists>b'. csr_words d localv (length es) v b = Inr b' \<and> length b' = length b \<and>
    rows_ok d (localv + 1) es localv b'"
proof -
  let ?c = "localv + 1" and ?n = "length es" and ?f = "es ! 0" let ?K = "local_idx d ?f"
  have n: "0 < ?n" using es by simp
  have K: "?K < localv" using pe es by (simp add: part_edges_def)
  obtain b1 where b1: "fill_words 0 ?c 0 b = Inr b1" "length b1 = length b"
    using fill_words_ok [of ?c b 0 0] len by auto
  obtain b2 where b2: "fill_words ?c (?c + ?n) 0 b1 = Inr b2" "length b2 = length b"
    "\<And>q. b2 ! q = (if ?c \<le> q \<and> q < ?c + ?n then 0 else b1 ! q)"
    using fill_words_ok [of "?c + ?n" b1 ?c 0] b1(2) len by auto
  have b1z: "b1 ! q = 0" if "q < ?c" for q
    using fill_words_ok [of ?c b 0 0] len b1(1) that by auto
  obtain k where k: "get_local_index_distr (esource ?f) d = Inr k" "unat k = ?K"
    using local_idx_word [OF pe nth_mem [OF n]] by blast
  let ?b3 = "b2[?c := etarget ?f, ?K := 0, ?K + 1 := 1]"
  have rows1: "rows_ok d ?c (take 1 es) (?K + 1) ?b3"
  proof -
    have T: "take 1 es = [] @ [?f]" using es by (cases es) auto
    have "?b3 ! r = of_nat (below (local_idx d) ([] @ [?f]) r)" if r: "r \<le> ?K + 1" for r
      unfolding below_snoc using r K b2(2) b2(3) [of r] b1z [of r] len
      by (auto simp: below_def nth_list_update)
    moreover have "?b3 ! ?c = etarget ?f" using K len b2(2) n by simp
    ultimately show ?thesis unfolding T rows_ok_def by simp
  qed
  obtain b4 where b4: "each (add_csr_edge d ?c v) [1..<?n] (esource ?f, ?b3) = Inr (esource (es ! (?n - 1)), b4)"
    "length b4 = length b" "rows_ok d ?c es (local_idx d (es ! (?n - 1)) + 1) b4"
    using add_csr_edges_ok [OF pe srt v n order_refl _ _ rows1] len b2(2) by auto
  let ?l = "es ! (?n - 1)" let ?L = "local_idx d ?l"
  have lmem: "?l \<in> set es" using n by simp
  obtain l where l: "get_local_index_distr (esource ?l) d = Inr l" "unat l = ?L"
    using local_idx_word [OF pe lmem] by blast
  have L: "?L < localv" using pe lmem by (simp add: part_edges_def)
  have low: "local_idx d x \<le> ?L" if "x \<in> set es" for x
    using that sorted_nth_mono [OF sorted_idx [OF pe srt], of _ "?n - 1"] n by (auto simp: in_set_conv_nth)
  have full: "below (local_idx d) es r = ?n" if "?L < r" for r
    by (rule below_all) (use low that in fastforce)
  have val: "b4 ! (?L + 1) = of_nat ?n" using b4(3) full [of "?L + 1"] by (simp add: rows_ok_def)
  obtain b5 where b5: "fill_words (?L + 2) ?c (of_nat ?n) b4 = Inr b5" "length b5 = length b"
    "\<And>q. b5 ! q = (if ?L + 2 \<le> q \<and> q < ?c then of_nat ?n else b4 ! q)"
    using fill_words_ok [of ?c b4 "?L + 2" "of_nat ?n"] b4(2) len by auto
  have u: "unat (used v) = ?n" using v by (simp add: ev_holds_def)
  then have u0: "used v \<noteq> 0" using n by auto
  have re: "read_edge v 0 = Inr ?f" by (rule read_edge_holds [OF v n])
  have "csr_words d localv ?n v b = Inr b5"
    using b1(1) b2(1,2) re k K u u0 b4(1,2) l L val b5(1) len n
    by (simp add: csr_words_def Let_def store_word_def load_word_def)
  moreover have "rows_ok d ?c es localv b5"
  proof -
    have "b5 ! r = of_nat (below (local_idx d) es r)" if r: "r \<le> localv" for r
    proof (cases "r \<le> ?L + 1")
      case True
      then show ?thesis using b5(3) [of r] b4(3) by (simp add: rows_ok_def)
    next
      case False
      then show ?thesis using b5(3) [of r] r full [of r] by simp
    qed
    moreover have "b5 ! (?c + j) = etarget (es ! j)" if "j < ?n" for j
      using that b5(3) [of "?c + j"] b4(3) by (simp add: rows_ok_def)
    ultimately show ?thesis by (simp add: rows_ok_def)
  qed
  ultimately show ?thesis using b5(2) by auto
qed

section \<open>Neighbours\<close>

text \<open>A vertex of a partition is one whose owner it is.\<close>

definition in_part :: "arts_block_dist \<Rightarrow> partition_t \<Rightarrow> vertex_t \<Rightarrow> bool" where
  "in_part d p x \<longleftrightarrow> unat x < unat (num_vertices d) \<and> get_owner_distr x d = Inr p"

lemma in_part_nat:
  assumes "dist_ok d" "in_part d p x"
  shows "unat x < unat (num_vertices d)" "unat x div unat (block_sz d) = unat p" "p < num_blocks d"
    "unat (partition_start_distr p d) = unat (block_sz d) * unat p"
proof -
  show x: "unat x < unat (num_vertices d)" using assms(2) by (simp add: in_part_def)
  note D = dist_nat [OF assms(1) x]
  have p: "p = of_nat (unat x div unat (block_sz d))" using D(3) assms(2) by (simp add: in_part_def)
  show q: "unat x div unat (block_sz d) = unat p" using D(4) unfolding p [symmetric] by (rule sym)
  show "p < num_blocks d" using D(2) unfolding q word_less_nat_alt .
  show "unat (partition_start_distr p d) = unat (block_sz d) * unat p"
    using D(5) unfolding q by simp
qed

lemma in_part_size:
  assumes "dist_ok d" "in_part d p x"
  shows "unat x mod unat (block_sz d) < unat (get_block_size_for_partition p d)"
proof (cases "p = num_blocks d - 1")
  case True
  note N = in_part_nat [OF assms]
  let ?s = "unat (block_sz d)"
  have x: "unat x = ?s * unat p + unat x mod ?s" using mult_div_mod_eq [of ?s "unat x"] N(2) by simp
  have "unat (ucast p * block_sz d) = ?s * unat p" using N(4) by (simp add: partition_start_distr_def mult.commute)
  then have "unat (num_vertices d - ucast p * block_sz d) = unat (num_vertices d) - ?s * unat p"
    using x N(1) by (simp add: unat_sub_le)
  then show ?thesis using True x N(1) by (simp add: get_block_size_for_partition_def)
next
  case False
  then show ?thesis using dist_nat(1) [OF assms(1) in_part_nat(1) [OF assms]]
    by (simp add: get_block_size_for_partition_def)
qed

lemma first_block_size:
  assumes "dist_ok d"
  shows "get_block_size_for_partition 0 d = block_sz d"
proof (cases "num_blocks d = 1")
  case True
  then have "unat (block_sz d) = unat (num_vertices d)" using assms by (simp add: dist_ok_def)
  then have "block_sz d = num_vertices d" by (simp only: word_unat_eq_iff)
  then show ?thesis using True by (simp add: get_block_size_for_partition_def)
next
  case False
  then have "0 \<noteq> num_blocks d - 1" by auto
  then show ?thesis by (simp add: get_block_size_for_partition_def)
qed

lemma get_neighbors_ok:
  assumes pe: "part_edges d (unat p) localv es" and srt: "sorted (map esource es)"
    and rows: "rows_ok d (localv + 1) es localv (body csr)" "length (body csr) = localv + 1 + length es"
    and csr: "unat (num_local_vertices csr) = localv" "csr_block_sz csr = block_sz d" "csr_index csr = p"
    and x: "in_part d p x" "unat x mod unat (block_sz d) < localv" and small: "length es < 2 ^ 64"
  shows "get_neighbors csr x = Inr (map etarget (filter (\<lambda>e. esource e = x) es))"
proof -
  let ?f = "local_idx d" and ?s = "unat (block_sz d)" let ?r = "unat x mod ?s"
  have ok: "dist_ok d" using pe by (simp add: part_edges_def)
  note N = in_part_nat [OF ok x(1)]
  have xv: "unat x = ?s * unat p + ?r" using mult_div_mod_eq [of ?s "unat x"] N(2) by simp
  have st: "index_start_csr p csr = partition_start_distr p d"
    by (simp add: index_start_csr_def partition_start_distr_def csr(2))
  have "partition_start_distr p d \<le> x" using xv N(4) by (simp add: word_le_nat_alt)
  then have idx: "get_local_index_csr x csr = Inr (x - partition_start_distr p d)"
    "unat (x - partition_start_distr p d) = ?r"
    using xv N(4) st csr(3) by (simp_all add: get_local_index_csr_def unat_sub_le word_le_nat_alt)
  have row: "body csr ! q = of_nat (below ?f es q)" "unat (of_nat (below ?f es q) :: u64) = below ?f es q"
    if "q \<le> localv" for q
    using that rows(1) below_le [of ?f es q] small by (simp_all add: rows_ok_def unat_of_nat_lt)
  let ?a = "below ?f es ?r" and ?z = "below ?f es (Suc ?r)"
  have az: "?a \<le> ?z" "?z \<le> length es" unfolding below_Suc [symmetric] by (simp add: below_Suc) (rule below_le)
  have diff: "unat (of_nat ?z - of_nat ?a :: u64) = ?z - ?a"
    using row(2) [of ?r] row(2) [of "Suc ?r"] x(2) az by (simp add: unat_sub_le)
  have cols: "take (?z - ?a) (drop (localv + 1 + ?a) (body csr)) = map etarget (take (?z - ?a) (drop ?a es))"
    using rows az by (intro nth_equalityI) (auto simp: rows_ok_def add.assoc)
  have "filter (\<lambda>e. ?f e = ?r) es = filter (\<lambda>e. esource e = x) es"
  proof (rule filter_cong [OF refl])
    fix e assume "e \<in> set es"
    then have "unat (esource e) = ?s * unat p + ?f e"
      using pe mult_div_mod_eq [of ?s "unat (esource e)"] by (auto simp: part_edges_def local_idx_def)
    then show "(?f e = ?r) = (esource e = x)" using xv by (auto simp: word_unat_eq_iff)
  qed
  then have "take (?z - ?a) (drop ?a es) = filter (\<lambda>e. esource e = x) es"
    using sorted_slice [OF sorted_idx [OF pe srt], of ?r] by simp
  then show ?thesis
    using idx row [of ?r] row [of "Suc ?r"] x(2) diff cols az rows(2) csr(1)
    by (simp add: get_neighbors_def load_word_def get_row_ptr_def get_col_ptr_def Let_def)
qed

section \<open>Loading an edge list\<close>

text \<open>
  The reference: the edges a file denotes, in order, with the reverse of each when the
  graph is read as an undirected one.
\<close>

definition mk_edge :: "vertex_t \<Rightarrow> vertex_t \<Rightarrow> edge" where
  "mk_edge s t = \<lparr>esource = s, etarget = t, eweight = 0\<rparr>"

fun file_edges :: "bool \<Rightarrow> bool \<Rightarrow> bool \<Rightarrow> string list \<Rightarrow> edge list" where
  "file_edges flip ign skip [] = []"
| "file_edges flip ign skip (str # ls) =
     (if take 1 str = ''%'' then file_edges flip ign True ls
      else if take 1 str = ''#'' then file_edges flip ign skip ls
      else if skip then file_edges flip ign False ls
      else
        (case assign_tokens (line_tokens str) False (0, 0) of
           (s, t) \<Rightarrow>
             (if ign \<and> s = t then [] else mk_edge s t # (if flip then [mk_edge t s] else [])))
        @ file_edges flip ign False ls)"

text \<open>The vector of a partition holds the edges so far whose source it owns.\<close>

definition owned :: "arts_block_dist \<Rightarrow> partition_t \<Rightarrow> edge list \<Rightarrow> edge list" where
  "owned d p es = filter (\<lambda>e. get_owner_distr (esource e) d = Inr p) es"

definition loaded_ok :: "arts_block_dist \<Rightarrow> edge list \<Rightarrow> loaded \<Rightarrow> bool" where
  "loaded_ok d es l \<longleftrightarrow>
     (\<forall>(p, v)\<in>set l. ev_holds v (owned d p es) \<and> ev_small EDGE_VEC_SZ v)"

lemma owned_snoc:
  "owned d p (es @ [e]) = owned d p es @ (if get_owner_distr (esource e) d = Inr p then [e] else [])"
  by (simp add: owned_def)

lemma owned_le: "length (owned d p es) \<le> length es"
  by (simp add: owned_def)

lemma empty_parts_ok: "loaded_ok d [] (empty_parts ps)" "map fst (empty_parts ps) = ps"
  using init_holds [of EDGE_VEC_SZ]
  by (auto simp: loaded_ok_def empty_parts_def owned_def EDGE_VEC_SZ_def comp_def)

lemma push_owned_ok:
  assumes "loaded_ok d es l" "length es < 2 ^ 61" "get_owner_distr s d = Inr ow"
  shows "\<exists>l'. push_owned ow s t l = Inr l' \<and> loaded_ok d (es @ [mk_edge s t]) l' \<and> map fst l' = map fst l"
  using assms(1)
proof (induction l)
  case Nil
  then show ?case by (simp add: loaded_ok_def)
next
  case (Cons x l)
  obtain p v where x: "x = (p, v)" by (cases x)
  have v: "ev_holds v (owned d p es)" "ev_small EDGE_VEC_SZ v" using Cons.prems by (auto simp: loaded_ok_def x)
  obtain l' where l': "push_owned ow s t l = Inr l'" "loaded_ok d (es @ [mk_edge s t]) l'" "map fst l' = map fst l"
    using Cons by (auto simp: loaded_ok_def)
  have "\<exists>v'. (if ow = p then push_back_edge v s t 0 else Inr v) = Inr v' \<and>
    ev_holds v' (owned d p (es @ [mk_edge s t])) \<and> ev_small EDGE_VEC_SZ v'"
  proof (cases "ow = p")
    case True
    have "length (owned d p es) < 2 ^ 61" using owned_le assms(2) by (rule order_le_less_trans)
    moreover have "unat EDGE_VEC_SZ < 2 ^ 62" by (simp add: EDGE_VEC_SZ_def)
    ultimately show ?thesis using push_holds [OF v, of s t 0] True assms(3)
      by (simp add: owned_snoc mk_edge_def)
  next
    case False
    then show ?thesis using v assms(3) by (simp add: owned_snoc mk_edge_def)
  qed
  then show ?case using l' by (auto simp: x loaded_ok_def)
qed

lemma load_edge_ok:
  assumes "loaded_ok d es l" "length es < 2 ^ 61" "block_sz d \<noteq> 0"
  shows "\<exists>l'. load_edge d s t l = Inr l' \<and> loaded_ok d (es @ [mk_edge s t]) l' \<and> map fst l' = map fst l"
  using push_owned_ok [OF assms(1,2), of s "ucast (s div block_sz d)" t] assms(3)
  by (simp add: load_edge_def get_owner_distr_def)

lemma load_lines_ok:
  assumes "loaded_ok d es l" "length (es @ file_edges flip ign skip ls) < 2 ^ 61" "block_sz d \<noteq> 0"
  shows "\<exists>sk l'. each (load_line d flip ign) ls (skip, l) = Inr (sk, l') \<and>
    loaded_ok d (es @ file_edges flip ign skip ls) l' \<and> map fst l' = map fst l"
  using assms
proof (induction ls arbitrary: skip es l)
  case (Cons str ls)
  obtain s t where st: "assign_tokens (line_tokens str) False (0, 0) = (s, t)" by fastforce
  have quiet: ?case
    if "load_line d flip ign str (skip, l) = Inr (k, l)"
      "file_edges flip ign skip (str # ls) = file_edges flip ign k ls" for k
    using Cons.IH [of es l k] Cons.prems that by simp
  consider "take 1 str = ''%''" | "take 1 str \<noteq> ''%''" "take 1 str = ''#''"
    | "take 1 str \<noteq> ''%''" "take 1 str \<noteq> ''#''" "skip \<or> ign \<and> s = t"
    | "take 1 str \<noteq> ''%''" "take 1 str \<noteq> ''#''" "\<not> skip" "\<not> (ign \<and> s = t)" by blast
  then show ?case
  proof cases
    case 1
    show ?thesis by (rule quiet [of True]) (use 1 in \<open>simp_all add: load_line_def\<close>)
  next
    case 2
    show ?thesis by (rule quiet [of skip]) (use 2 in \<open>simp_all add: load_line_def\<close>)
  next
    case 3
    show ?thesis by (rule quiet [of False]) (use 3 in \<open>auto simp: load_line_def st\<close>)
  next
    case 4
    let ?n = "if flip then [mk_edge t s] else []"
    have fe: "file_edges flip ign skip (str # ls) = mk_edge s t # ?n @ file_edges flip ign False ls"
      using 4 st by simp
    have len: "length es < 2 ^ 61" "flip \<Longrightarrow> length (es @ [mk_edge s t]) < 2 ^ 61"
      using Cons.prems(2) unfolding fe by auto
    obtain l1 where l1: "load_edge d s t l = Inr l1" "loaded_ok d (es @ [mk_edge s t]) l1" "map fst l1 = map fst l"
      using load_edge_ok [OF Cons.prems(1) len(1) Cons.prems(3)] by blast
    obtain l2 where l2: "(if flip then load_edge d t s l1 else Inr l1) = Inr l2"
      "loaded_ok d (es @ [mk_edge s t] @ ?n) l2" "map fst l2 = map fst l1"
      using load_edge_ok [OF l1(2) len(2) Cons.prems(3), of t s] l1(2) by (cases flip) auto
    have "load_line d flip ign str (skip, l) = Inr (False, l2)"
      using 4 st l1(1) l2(1) by (cases flip) (auto simp: load_line_def)
    moreover have "length ((es @ [mk_edge s t] @ ?n) @ file_edges flip ign False ls) < 2 ^ 61"
      using Cons.prems(2) unfolding fe by simp
    ultimately show ?thesis
      using Cons.IH [OF l2(2) _ Cons.prems(3), of False] l1(3) l2(3) unfolding fe by simp
  qed
qed simp

text \<open>The partitions of this rank, and what it means that one holds the edges of its vertices.\<close>

definition my_parts :: "node_cfg \<Rightarrow> arts_block_dist \<Rightarrow> partition_t list" where
  "my_parts nc d =
     filter (\<lambda>p. arts_guid_is_local nc (graphGuid d ! unat p)) (map of_nat [0..<unat (num_blocks d)])"

definition part_right :: "arts_block_dist \<Rightarrow> edge list \<Rightarrow> csr_graph \<Rightarrow> bool" where
  "part_right d es c \<longleftrightarrow>
     (\<forall>x. in_part d (csr_index c) x \<longrightarrow>
        (\<exists>ns. get_neighbors c x = Inr ns \<and> mset ns = mset (map etarget (filter (\<lambda>e. esource e = x) es))))"

lemma unat_lt_blocks:
  assumes "i < unat (num_blocks d)"
  shows "unat (of_nat i :: u32) = i"
proof -
  have "unat (num_blocks d) < 2 ^ 32" by (rule order_less_le_trans [OF unsigned_less]) simp
  then show ?thesis using assms by (simp add: unat_of_nat_lt)
qed

lemma local_parts_ok:
  assumes "length (graphGuid d) = unat (num_blocks d)"
  shows "local_parts nc d = Inr (my_parts nc d)"
proof -
  have "each (\<lambda>i ps. rbind (get_guid_for_partition_distr d (of_nat i)) (\<lambda>g.
            Inr (if arts_guid_is_local nc g then ps @ [of_nat i] else ps))) [0..<n] [] =
    Inr (filter (\<lambda>p :: u32. arts_guid_is_local nc (graphGuid d ! unat p)) (map of_nat [0..<n]))"
    if "n \<le> unat (num_blocks d)" for n
    using that
  proof (induction n)
    case (Suc n)
    then have "unat (of_nat n :: u32) = n" using unat_lt_blocks [of n d] by simp
    then show ?case using Suc assms by (simp add: each_append get_guid_for_partition_distr_def)
  qed simp
  then show ?thesis by (simp add: local_parts_def my_parts_def)
qed

lemma part_size_le:
  assumes "dist_ok d" "in_part d p x"
  shows "unat (get_block_size_for_partition p d) \<le> unat (block_sz d)"
proof (cases "p = num_blocks d - 1")
  case True
  note N = in_part_nat [OF assms]
  let ?s = "unat (block_sz d)"
  have b: "0 < unat (num_blocks d)" "0 < unat (num_vertices d)" using assms(1) by (simp_all add: dist_ok_def)
  have up: "unat p = unat (num_blocks d) - 1" using True b by (simp add: unat_sub_le)
  have n: "unat (num_vertices d) \<le> unat (num_blocks d) * ?s"
    using ceil_block(2) [OF b] assms(1) by (simp add: dist_ok_def)
  have split: "unat (num_blocks d) = unat p + 1" using up b by linarith
  have "?s * unat p \<le> unat x" unfolding N(2) [symmetric] by simp
  then have le: "?s * unat p \<le> unat (num_vertices d)" using N(1) by linarith
  have "unat (ucast p * block_sz d) = ?s * unat p" using N(4) by (simp add: partition_start_distr_def mult.commute)
  then have "unat (num_vertices d - ucast p * block_sz d) = unat (num_vertices d) - ?s * unat p"
    using le by (simp add: unat_sub_le)
  moreover have "unat (num_vertices d) - ?s * unat p \<le> ?s"
    using n unfolding split by (simp add: mult.commute)
  ultimately show ?thesis using True by (simp add: get_block_size_for_partition_def)
next
  case False
  then show ?thesis by (simp add: get_block_size_for_partition_def)
qed

text \<open>The words the data block of a partition has room for.\<close>

lemma csr_db_words:
  assumes "SIZEOF_CSR + (unat lv + 1 + unat le) * 8 < 2 ^ 32"
  shows "(unat (csr_db_size lv le) - SIZEOF_CSR) div 8 = unat lv + 1 + unat le"
proof -
  let ?n = "unat lv + 1 + unat le"
  have b: "40 + ?n * 8 < 4294967296" using assms by (simp add: SIZEOF_CSR_def)
  have "unat (lv + 1) = unat lv + 1" using b by (simp add: unat_add_lt)
  then have "unat (lv + 1 + le) = ?n" using b by (simp add: unat_add_lt)
  then obtain w where w: "w = lv + 1 + le" "unat w = ?n" by blast
  have "unat (w * 8) = ?n * 8" using b w(2) unat_mult_lt [of w 8] by simp
  then have "unat (40 + w * 8) = 40 + ?n * 8" using b unat_add_lt [of 40 "w * 8"] by simp
  then have "unat (ucast (40 + w * 8) :: u32) = 40 + ?n * 8"
    using b by (simp add: unsigned_ucast_eq take_bit_nat_eq_self)
  then have "unat (csr_db_size lv le) = 40 + ?n * 8"
    unfolding csr_db_size_def Let_def SIZEOF_CSR_def w(1) by simp
  then show ?thesis by (simp add: SIZEOF_CSR_def)
qed

lemma build_part_ok:
  assumes qs: "qsort_sorts qs" and ok: "dist_ok d" and v: "ev_holds v (owned d p es)" and ne: "owned d p es \<noteq> []"
    and src: "\<forall>e\<in>set es. unat (esource e) < unat (num_vertices d)" and loc: "arts_guid_is_local nc g"
    and fits: "SIZEOF_CSR + (unat (block_sz d) + 1 + length es) * 8 < 2 ^ 32"
  shows "\<exists>v' c. sort_by_source qs v = Inr v' \<and>
    init_csr qs nc p (get_block_size_for_partition p d) (used v') d v' True g = Inr (Some c) \<and>
    csr_index c = p \<and> part_right d es c"
proof -
  let ?lv = "get_block_size_for_partition p d"
  obtain v' ps where v': "sort_by_source qs v = Inr v'" "ev_holds v' ps" "mset ps = mset (owned d p es)"
    "sorted (map esource ps)" using sort_holds [OF qs v] by blast
  have set: "set ps = set (owned d p es)" and len: "length ps = length (owned d p es)"
    using v'(3) mset_eq_setD mset_eq_length by blast+
  have inp: "in_part d p (esource e)" if "e \<in> set ps" for e
    using that src set by (auto simp: in_part_def owned_def)
  have pe: "part_edges d (unat p) (unat ?lv) ps"
    using ok inp in_part_nat(1,2) [OF ok] in_part_size [OF ok] by (auto simp: part_edges_def local_idx_def)
  have ps: "ps \<noteq> []" using ne set by auto
  have u: "unat (used v') = length ps" using v'(2) by (simp add: ev_holds_def)
  have "unat ?lv \<le> unat (block_sz d)" using part_size_le [OF ok inp [OF hd_in_set [OF ps]]] .
  then have "unat ?lv + 1 + unat (used v') \<le> unat (block_sz d) + 1 + length es"
    unfolding u len using owned_le [of d p es] by (intro add_mono) simp_all
  then have sz: "SIZEOF_CSR + (unat ?lv + 1 + unat (used v')) * 8 < 2 ^ 32"
    by (intro order_le_less_trans [OF add_left_mono [OF mult_le_mono1] fits])
  let ?w = "(unat (csr_db_size ?lv (used v')) - SIZEOF_CSR) div 8"
  have w: "?w = unat ?lv + 1 + length ps" using csr_db_words [OF sz] u by simp
  obtain b where b: "csr_words d (unat ?lv) (length ps) v' (replicate ?w 0) = Inr b"
    "length b = ?w" "rows_ok d (unat ?lv + 1) ps (unat ?lv) b"
    using csr_words_ok [OF pe v'(4,2) ps, of "replicate ?w 0"] w by auto
  let ?c = "\<lparr>partGuid = g, num_local_vertices = ?lv, num_local_edges = used v',
    csr_block_sz = get_block_size_for_partition 0 d, csr_index = p, csr_num_blocks = num_blocks d, body = b\<rparr>"
  have "init_csr qs nc p ?lv (used v') d v' True g = Inr (Some ?c)"
    using loc b(1) u by (simp add: init_csr_def Let_def)
  moreover have "part_right d es ?c"
    unfolding part_right_def
  proof (intro allI impI)
    fix x assume "in_part d (csr_index ?c) x"
    then have x: "in_part d p x" by simp
    have small: "length ps < 2 ^ 64" using sz u by (simp add: SIZEOF_CSR_def)
    have "get_neighbors ?c x = Inr (map etarget (filter (\<lambda>e. esource e = x) ps))"
      by (rule get_neighbors_ok [OF pe v'(4) _ _ _ _ _ x in_part_size [OF ok x] small])
        (use b w first_block_size [OF ok] in simp_all)
    moreover have "filter_mset (\<lambda>e. esource e = x) (mset (owned d p es)) = filter_mset (\<lambda>e. esource e = x) (mset es)"
      using x by (simp add: owned_def in_part_def filter_filter_mset conj_commute cong: filter_mset_cong flip: mset_filter)
        (metis (mono_tags, lifting))
    ultimately show "\<exists>ns. get_neighbors ?c x = Inr ns \<and>
      mset ns = mset (map etarget (filter (\<lambda>e. esource e = x) es))"
      using v'(3) by simp
  qed
  ultimately show ?thesis using v'(1) by auto
qed

lemma build_parts_ok:
  assumes "qsort_sorts qs" "dist_ok d" "loaded_ok d es l"
    and "\<forall>e\<in>set es. unat (esource e) < unat (num_vertices d)"
    and "\<forall>p\<in>set (map fst l). owned d p es \<noteq> [] \<and>
      (\<exists>g. get_guid_for_partition_distr d p = Inr g \<and> arts_guid_is_local nc g)"
    and "SIZEOF_CSR + (unat (block_sz d) + 1 + length es) * 8 < 2 ^ 32"
  shows "\<exists>cs. build_parts qs nc d l = Inr (map Some cs) \<and> map csr_index cs = map fst l \<and> list_all (part_right d es) cs"
  using assms(3,5)
proof (induction l)
  case (Cons x l)
  obtain p v where x: "x = (p, v)" by (cases x)
  obtain cs where cs: "build_parts qs nc d l = Inr (map Some cs)" "map csr_index cs = map fst l"
    "list_all (part_right d es) cs" using Cons by (auto simp: loaded_ok_def)
  obtain g where g: "get_guid_for_partition_distr d p = Inr g" "arts_guid_is_local nc g"
    using Cons.prems(2) by (auto simp: x)
  have "ev_holds v (owned d p es)" "owned d p es \<noteq> []" using Cons.prems by (auto simp: loaded_ok_def x)
  from build_part_ok [OF assms(1,2) this assms(4) g(2) assms(6)] obtain v' c where
    "sort_by_source qs v = Inr v'"
    "init_csr qs nc p (get_block_size_for_partition p d) (used v') d v' True g = Inr (Some c)"
    "csr_index c = p" "part_right d es c" by blast
  then have "build_parts qs nc d (x # l) = Inr (map Some (c # cs))" "map csr_index (c # cs) = map fst (x # l)"
    "list_all (part_right d es) (c # cs)" using g(1) cs by (simp_all add: x)
  then show ?case by blast
qed simp


text \<open>A sort that fits the parameter, and a graph of two vertices on one rank.\<close>

fun ins_by :: "(edge \<Rightarrow> edge \<Rightarrow> int) \<Rightarrow> edge \<Rightarrow> edge list \<Rightarrow> edge list" where
  "ins_by cmp x [] = [x]"
| "ins_by cmp x (y # ys) = (if cmp x y \<le> 0 then x # y # ys else y # ins_by cmp x ys)"

definition insertion_qsort :: qsort where
  "insertion_qsort cmp xs = foldr (ins_by cmp) xs []"

lemma mset_ins_by [simp]: "mset (ins_by cmp x xs) = add_mset x (mset xs)"
  by (induction xs) auto

lemma set_ins_by [simp]: "set (ins_by cmp x xs) = insert x (set xs)"
  by (induction xs) auto

lemma sorted_ins_by:
  assumes "\<forall>x y. cmp x y \<le> 0 \<or> cmp y x \<le> 0" "\<forall>x y z. cmp x y \<le> 0 \<and> cmp y z \<le> 0 \<longrightarrow> cmp x z \<le> 0"
  shows "sorted_wrt (\<lambda>x y. cmp x y \<le> 0) xs \<Longrightarrow> sorted_wrt (\<lambda>x y. cmp x y \<le> (0 :: int)) (ins_by cmp x xs)"
proof (induction xs)
  case (Cons y ys)
  show ?case
  proof (cases "cmp x y \<le> 0")
    case True
    then have "\<forall>z\<in>set ys. cmp x z \<le> 0" using Cons.prems assms(2) by (meson sorted_wrt.simps(2))
    then show ?thesis using True Cons.prems by simp
  next
    case False
    then have "cmp y x \<le> 0" using assms(1) by blast
    then show ?thesis using False Cons by simp
  qed
qed simp

lemma insertion_qsort_sorts: "qsort_sorts insertion_qsort"
proof -
  have "mset (insertion_qsort cmp xs) = mset xs" for cmp xs
    by (induction xs) (simp_all add: insertion_qsort_def)
  moreover have "sorted_wrt (\<lambda>x y. cmp x y \<le> 0) (insertion_qsort cmp xs)"
    if "\<forall>x y. cmp x y \<le> 0 \<or> cmp y x \<le> 0" "\<forall>x y z. cmp x y \<le> 0 \<and> cmp y z \<le> 0 \<longrightarrow> cmp x z \<le> 0" for cmp xs
    using sorted_ins_by [OF that] by (induction xs) (simp_all add: insertion_qsort_def)
  ultimately show ?thesis unfolding qsort_sorts_def by blast
qed

definition demo_dist :: arts_block_dist where
  "demo_dist = internal_init_block_distribution [7] 2 2 1"

definition demo_rank :: node_cfg where
  "demo_rank = \<lparr>worker_thread_count = 1, arts_global_rank_count = 1, arts_global_rank_id = 0, gpu = 0\<rparr>"

definition demo_file :: "string list" where
  "demo_file = [''# two vertices'', ''1 0'', ''0 1'', ''1 1'']"

lemma demo_file_edges: "file_edges False True False demo_file = [mk_edge 1 0, mk_edge 0 1]"
  by code_simp

lemma demo_parts: "my_parts demo_rank demo_dist = [0]"
  by code_simp


end
