(* ===== verification/Edt_Pool.thy ===== *)
theory Edt_Pool
  imports Atomics
begin

text \<open>
  The thread-local pools of task memory of \<^verbatim>\<open>compute/edt.c\<close>.  A freed task goes to a free
  list of the freeing thread, one list for each of four sizes, and serves a later request
  of that size on that thread; larger tasks and those beyond the depth of the list go back
  to the allocator.  Memory blocks are numbers; the pools hold what the code keeps in them.
\<close>

section \<open>Pools\<close>

abbreviation EDT_POOL_NUM_BUCKETS :: nat where "EDT_POOL_NUM_BUCKETS \<equiv> 4"
abbreviation EDT_POOL_MAX_PER_BUCKET :: u32 where "EDT_POOL_MAX_PER_BUCKET \<equiv> 64"

text \<open>A free list: the blocks with the size stored in them, the head first.\<close>

record edt_pool_bucket =
  entries :: "(nat \<times> u32) list"
  bcount :: u32

record edt_pool =
  buckets :: "nat \<Rightarrow> edt_pool_bucket"
  edt_pool_initialized :: bool

definition empty_bucket :: edt_pool_bucket where
  "empty_bucket = \<lparr>entries = [], bcount = 0\<rparr>"

definition edt_pool_bucket_sizes :: "nat \<Rightarrow> u32" where
  "edt_pool_bucket_sizes i = [128, 256, 512, 1024] ! i"

definition edt_pool_bucket_index :: "u32 \<Rightarrow> nat option" where
  "edt_pool_bucket_index sz =
     (if sz \<le> 128 then Some 0
      else if sz \<le> 256 then Some 1
      else if sz \<le> 512 then Some 2
      else if sz \<le> 1024 then Some 3
      else None)"

definition edt_pool_ensure_init :: "edt_pool \<Rightarrow> edt_pool" where
  "edt_pool_ensure_init p =
     (if edt_pool_initialized p then p
      else p\<lparr>buckets := (\<lambda>i. if i < EDT_POOL_NUM_BUCKETS then empty_bucket else buckets p i),
             edt_pool_initialized := True\<rparr>)"

definition edt_pool_alloc :: "u32 \<Rightarrow> edt_pool \<Rightarrow> edt_pool \<times> nat option" where
  "edt_pool_alloc sz p =
     (let p = edt_pool_ensure_init p in
      case edt_pool_bucket_index sz of
        None \<Rightarrow> (p, None)
      | Some idx \<Rightarrow>
          let b = buckets p idx in
          (case entries b of
             [] \<Rightarrow> (p, None)
           | (a, _) # es \<Rightarrow>
               (p\<lparr>buckets := (buckets p)(idx := b\<lparr>entries := es, bcount := bcount b - 1\<rparr>)\<rparr>, Some a)))"

text \<open>The second component: whether the block goes back to the allocator.\<close>

definition edt_pool_free :: "nat \<Rightarrow> u32 \<Rightarrow> edt_pool \<Rightarrow> edt_pool \<times> bool" where
  "edt_pool_free ptr sz p =
     (let p = edt_pool_ensure_init p in
      case edt_pool_bucket_index sz of
        None \<Rightarrow> (p, True)
      | Some idx \<Rightarrow>
          let b = buckets p idx in
          if EDT_POOL_MAX_PER_BUCKET \<le> bcount b then (p, True)
          else (p\<lparr>buckets := (buckets p)(idx :=
                    b\<lparr>entries := (ptr, edt_pool_bucket_sizes idx) # entries b, bcount := bcount b + 1\<rparr>)\<rparr>, False))"

text \<open>Draining: the blocks that go back to the allocator, in order.\<close>

definition arts_cleanup_edt_pool :: "edt_pool \<Rightarrow> edt_pool \<times> nat list" where
  "arts_cleanup_edt_pool p =
     (if edt_pool_initialized p then
        (p\<lparr>buckets := (\<lambda>i. if i < EDT_POOL_NUM_BUCKETS then empty_bucket else buckets p i),
           edt_pool_initialized := False\<rparr>,
         concat (map (\<lambda>i. map fst (entries (buckets p i))) [0..<EDT_POOL_NUM_BUCKETS]))
      else (p, []))"

section \<open>Threads that create and free tasks\<close>

text \<open>
  The pools of the threads, the bytes behind each block, the tasks that are alive with the
  size in their header, the next block the allocator gives out, and the blocks it got back.
\<close>

record pool_sys =
  tpool :: "nat \<Rightarrow> edt_pool"
  capacity :: "nat \<Rightarrow> nat"
  alive :: "nat \<Rightarrow> u32 option"
  fresh :: nat
  released :: "nat set"

definition pool_start :: pool_sys where
  "pool_start = \<lparr>tpool = (\<lambda>_. \<lparr>buckets = (\<lambda>_. empty_bucket), edt_pool_initialized = False\<rparr>),
     capacity = (\<lambda>_. 0), alive = (\<lambda>_. None), fresh = 0, released = {}\<rparr>"

text \<open>
  The allocation in \<^verbatim>\<open>arts_edt_create_internal\<close>: from the pool of the thread or, rounded up to the
  size of the list, from the allocator; the rounded size goes to the header.
\<close>

definition create_edt_memory :: "nat \<Rightarrow> u32 \<Rightarrow> pool_sys \<Rightarrow> pool_sys \<times> nat" where
  "create_edt_memory t edt_space s =
     (let alloc_size = (case edt_pool_bucket_index edt_space of Some i \<Rightarrow> edt_pool_bucket_sizes i | None \<Rightarrow> edt_space);
          (p, r) = edt_pool_alloc edt_space (tpool s t);
          s = s\<lparr>tpool := (tpool s)(t := p)\<rparr>
      in case r of
           Some a \<Rightarrow> (s\<lparr>alive := (alive s)(a \<mapsto> alloc_size)\<rparr>, a)
         | None \<Rightarrow>
             (s\<lparr>alive := (alive s)(fresh s \<mapsto> alloc_size), capacity := (capacity s)(fresh s := unat alloc_size),
                fresh := Suc (fresh s)\<rparr>, fresh s))"

definition free_edt_memory :: "nat \<Rightarrow> nat \<Rightarrow> pool_sys \<Rightarrow> pool_sys" where
  "free_edt_memory t a s =
     (case alive s a of
        None \<Rightarrow> s
      | Some sz \<Rightarrow>
          (case edt_pool_free a sz (tpool s t) of
             (p, back) \<Rightarrow>
               s\<lparr>tpool := (tpool s)(t := p), alive := (alive s)(a := None),
                 released := (if back then insert a (released s) else released s)\<rparr>))"

definition cleanup_thread :: "nat \<Rightarrow> pool_sys \<Rightarrow> pool_sys" where
  "cleanup_thread t s =
     (case arts_cleanup_edt_pool (tpool s t) of
        (p, as) \<Rightarrow> s\<lparr>tpool := (tpool s)(t := p), released := released s \<union> set as\<rparr>)"

text \<open>Any thread creates tasks, frees tasks that are alive, whoever created them, and shuts down.\<close>

inductive pool_step :: "pool_sys \<Rightarrow> pool_sys \<Rightarrow> bool" where
  create: "pool_step s (fst (create_edt_memory t sz s))"
| free: "alive s a \<noteq> None \<Longrightarrow> pool_step s (free_edt_memory t a s)"
| cleanup: "pool_step s (cleanup_thread t s)"

section \<open>The blocks are well sized\<close>

definition pooled :: "pool_sys \<Rightarrow> nat \<Rightarrow> nat \<Rightarrow> nat list" where
  "pooled s t i = map fst (entries (buckets (tpool s t) i))"

text \<open>What holds of a block in the list \<open>i\<close> of some thread, and of a task that is alive.\<close>

definition block_ok :: "pool_sys \<Rightarrow> nat \<Rightarrow> nat \<Rightarrow> bool" where
  "block_ok s i a \<longleftrightarrow> unat (edt_pool_bucket_sizes i) \<le> capacity s a \<and> a < fresh s \<and> alive s a = None \<and> a \<notin> released s"

definition task_ok :: "pool_sys \<Rightarrow> nat \<Rightarrow> u32 \<Rightarrow> bool" where
  "task_ok s a sz \<longleftrightarrow> unat sz \<le> capacity s a \<and> a < fresh s \<and> a \<notin> released s \<and>
     (\<forall>i. edt_pool_bucket_index sz = Some i \<longrightarrow> sz = edt_pool_bucket_sizes i)"

definition pool_inv :: "pool_sys \<Rightarrow> bool" where
  "pool_inv s \<longleftrightarrow>
     (\<forall>t i. distinct (pooled s t i) \<and> unat (bcount (buckets (tpool s t) i)) = length (pooled s t i) \<and>
        length (pooled s t i) \<le> 64 \<and> (EDT_POOL_NUM_BUCKETS \<le> i \<longrightarrow> pooled s t i = []) \<and>
        (\<not> edt_pool_initialized (tpool s t) \<longrightarrow> pooled s t i = [])) \<and>
     (\<forall>t i. \<forall>a\<in>set (pooled s t i). block_ok s i a) \<and>
     (\<forall>t i t' i'. set (pooled s t i) \<inter> set (pooled s t' i') \<noteq> {} \<longrightarrow> t = t' \<and> i = i') \<and>
     (\<forall>a sz. alive s a = Some sz \<longrightarrow> task_ok s a sz) \<and> (\<forall>a\<in>released s. a < fresh s)"

lemma poolD:
  assumes "pool_inv s"
  shows "distinct (pooled s t i)" "unat (bcount (buckets (tpool s t) i)) = length (pooled s t i)"
    "length (pooled s t i) \<le> 64" "EDT_POOL_NUM_BUCKETS \<le> i \<Longrightarrow> pooled s t i = []"
    "\<not> edt_pool_initialized (tpool s t) \<Longrightarrow> pooled s t i = []"
    "a \<in> set (pooled s t i) \<Longrightarrow> block_ok s i a"
    "a \<in> set (pooled s t i) \<Longrightarrow> a \<in> set (pooled s t' i') \<Longrightarrow> t = t' \<and> i = i'"
    "alive s a = Some sz \<Longrightarrow> task_ok s a sz" "a \<in> released s \<Longrightarrow> a < fresh s"
proof -
  show "a \<in> set (pooled s t i) \<Longrightarrow> a \<in> set (pooled s t' i') \<Longrightarrow> t = t' \<and> i = i'"
    using assms unfolding pool_inv_def by blast
qed (use assms in \<open>simp_all add: pool_inv_def\<close>)

text \<open>The lists of a state in which one list of one thread is replaced.\<close>

lemma pool_inv_replace:
  assumes inv: "pool_inv s"
    and lists: "\<And>t' i'. pooled s' t' i' = (if t' = t \<and> i' = i then xs else pooled s t' i')"
    and counts: "\<And>t' i'. unat (bcount (buckets (tpool s' t') i')) = length (pooled s' t' i')"
    and init: "\<And>t' i'. \<not> edt_pool_initialized (tpool s' t') \<Longrightarrow> pooled s' t' i' = []"
    and xs: "distinct xs" "length xs \<le> 64" "i < EDT_POOL_NUM_BUCKETS"
    and fresh: "\<And>t' i' a. a \<in> set xs \<Longrightarrow> a \<in> set (pooled s t' i') \<Longrightarrow> t' = t \<and> i' = i"
    and blocks: "\<And>t' i' a. a \<in> set (pooled s' t' i') \<Longrightarrow> block_ok s' i' a"
    and tasks: "\<And>a sz. alive s' a = Some sz \<Longrightarrow> task_ok s' a sz" "\<And>a. a \<in> released s' \<Longrightarrow> a < fresh s'"
  shows "pool_inv s'"
proof -
  have lists_ok: "distinct (pooled s' t' i') \<and> length (pooled s' t' i') \<le> 64 \<and> (EDT_POOL_NUM_BUCKETS \<le> i' \<longrightarrow> pooled s' t' i' = [])"
    for t' i'
  proof (cases "t' = t \<and> i' = i")
    case True
    then show ?thesis using xs unfolding lists by simp
  next
    case False
    then have "pooled s' t' i' = pooled s t' i'" unfolding lists by (rule if_not_P)
    then show ?thesis using poolD(1,3,4) [OF inv] by simp
  qed
  have apart: "t1 = t2 \<and> i1 = i2" if meet: "set (pooled s' t1 i1) \<inter> set (pooled s' t2 i2) \<noteq> {}" for t1 i1 t2 i2
  proof -
    obtain a where a: "a \<in> set (pooled s' t1 i1)" "a \<in> set (pooled s' t2 i2)" using meet by blast
    have old: "t1 = t2 \<and> i1 = i2" if "a \<in> set (pooled s t1 i1)" "a \<in> set (pooled s t2 i2)"
      using poolD(7) [OF inv that] .
    have or: "a \<in> set xs \<and> t' = t \<and> i' = i \<or> a \<in> set (pooled s t' i')" if "a \<in> set (pooled s' t' i')" for t' i'
      using that unfolding lists by (simp split: if_splits)
    show ?thesis using or [OF a(1)] or [OF a(2)] old fresh by blast
  qed
  show ?thesis
    unfolding pool_inv_def
    using lists_ok counts init apart blocks tasks by simp
qed

lemma init_entries:
  assumes "\<And>i. \<not> edt_pool_initialized p \<Longrightarrow> entries (buckets p i) = []"
  shows "entries (buckets (edt_pool_ensure_init p) i) = entries (buckets p i)"
  using assms by (simp add: edt_pool_ensure_init_def empty_bucket_def)

lemma init_done [simp]: "edt_pool_initialized (edt_pool_ensure_init p)"
  by (simp add: edt_pool_ensure_init_def)

lemma init_count:
  assumes "unat (bcount (buckets p i)) = length (entries (buckets p i))" "\<not> edt_pool_initialized p \<Longrightarrow> entries (buckets p i) = []"
  shows "bcount (buckets (edt_pool_ensure_init p) i) = bcount (buckets p i)"
  using assms by (auto simp: edt_pool_ensure_init_def empty_bucket_def) (simp add: word_unat_eq_iff)

lemma inv_init:
  assumes "pool_inv s"
  shows "entries (buckets (edt_pool_ensure_init (tpool s t)) i) = entries (buckets (tpool s t) i)"
    "bcount (buckets (edt_pool_ensure_init (tpool s t)) i) = bcount (buckets (tpool s t) i)"
proof -
  have e: "\<not> edt_pool_initialized (tpool s t) \<Longrightarrow> entries (buckets (tpool s t) j) = []" for j
    using assms by (simp add: pool_inv_def pooled_def)
  show "entries (buckets (edt_pool_ensure_init (tpool s t)) i) = entries (buckets (tpool s t) i)"
    by (rule init_entries [OF e])
  show "bcount (buckets (edt_pool_ensure_init (tpool s t)) i) = bcount (buckets (tpool s t) i)"
    by (rule init_count [OF _ e]) (use assms in \<open>simp add: pool_inv_def pooled_def\<close>)
qed

lemma bucket_index_size:
  assumes "edt_pool_bucket_index sz = Some i"
  shows "i < EDT_POOL_NUM_BUCKETS" "sz \<le> edt_pool_bucket_sizes i" "edt_pool_bucket_index (edt_pool_bucket_sizes i) = Some i"
  using assms by (auto simp: edt_pool_bucket_index_def edt_pool_bucket_sizes_def split: if_splits)

text \<open>The size that goes to the header.\<close>

definition header_size :: "u32 \<Rightarrow> u32" where
  "header_size sz = (case edt_pool_bucket_index sz of Some i \<Rightarrow> edt_pool_bucket_sizes i | None \<Rightarrow> sz)"

lemma header_size_ok:
  "sz \<le> header_size sz" "edt_pool_bucket_index (header_size sz) = Some i \<Longrightarrow> header_size sz = edt_pool_bucket_sizes i"
  using bucket_index_size [of sz] by (auto simp: header_size_def split: option.splits)

text \<open>A request that the pool of the thread cannot serve takes a new block.\<close>

lemma create_fresh:
  assumes inv: "pool_inv s" and none: "snd (edt_pool_alloc sz (tpool s t)) = None"
  shows "create_edt_memory t sz s =
    (s\<lparr>tpool := (tpool s)(t := edt_pool_ensure_init (tpool s t)), alive := (alive s)(fresh s \<mapsto> header_size sz),
       capacity := (capacity s)(fresh s := unat (header_size sz)), fresh := Suc (fresh s)\<rparr>, fresh s)"
  using none
  by (auto simp: create_edt_memory_def edt_pool_alloc_def header_size_def Let_def split: option.splits list.splits)

lemma create_pooled:
  assumes inv: "pool_inv s" and some: "edt_pool_alloc sz (tpool s t) = (p, Some a)"
  obtains i es z where "edt_pool_bucket_index sz = Some i" "entries (buckets (tpool s t) i) = (a, z) # es"
    "create_edt_memory t sz s = (s\<lparr>tpool := (tpool s)(t := p), alive := (alive s)(a \<mapsto> header_size sz)\<rparr>, a)"
    "edt_pool_initialized p"
    "\<And>j. entries (buckets p j) = (if j = i then es else entries (buckets (tpool s t) j))"
    "\<And>j. bcount (buckets p j) = (if j = i then bcount (buckets (tpool s t) j) - 1 else bcount (buckets (tpool s t) j))"
proof -
  obtain i where i: "edt_pool_bucket_index sz = Some i"
    using some by (auto simp: edt_pool_alloc_def Let_def split: option.splits)
  obtain z es where e: "entries (buckets (tpool s t) i) = (a, z) # es"
    using some i by (auto simp: edt_pool_alloc_def Let_def inv_init [OF inv] split: list.splits)
  have p: "p = (edt_pool_ensure_init (tpool s t))\<lparr>buckets := (buckets (edt_pool_ensure_init (tpool s t)))(i :=
      (buckets (edt_pool_ensure_init (tpool s t)) i)\<lparr>entries := es, bcount := bcount (buckets (tpool s t) i) - 1\<rparr>)\<rparr>"
    using some i e by (simp add: edt_pool_alloc_def Let_def inv_init [OF inv])
  show thesis
    by (rule that [OF i e]) (use i some in \<open>simp_all add: p inv_init [OF inv] create_edt_memory_def header_size_def\<close>)
qed

lemma pool_inv_same:
  assumes inv: "pool_inv s" and lists: "\<And>t' i'. pooled s' t' i' = pooled s t' i'"
    and counts: "\<And>t' i'. bcount (buckets (tpool s' t') i') = bcount (buckets (tpool s t') i')"
    and init: "\<And>t'. edt_pool_initialized (tpool s t') \<Longrightarrow> edt_pool_initialized (tpool s' t')"
    and blocks: "\<And>t' i' a. a \<in> set (pooled s t' i') \<Longrightarrow> block_ok s' i' a"
    and tasks: "\<And>a sz. alive s' a = Some sz \<Longrightarrow> task_ok s' a sz" "\<And>a. a \<in> released s' \<Longrightarrow> a < fresh s'"
  shows "pool_inv s'"
proof (rule pool_inv_replace [OF inv, where t = 0 and i = 0 and xs = "pooled s 0 0"])
  show "pooled s' t' i' = []" if "\<not> edt_pool_initialized (tpool s' t')" for t' i'
    using that init poolD(5) [OF inv] lists by metis
qed (use lists counts poolD(1,2,3) [OF inv] poolD(7) [OF inv, of _ 0 0] blocks tasks in auto)

lemma create_fresh_ok:
  assumes inv: "pool_inv s" and none: "snd (edt_pool_alloc sz (tpool s t)) = None"
    and c: "create_edt_memory t sz s = (s', a)"
  shows "pool_inv s'" "alive s a = None" "a \<notin> released s" "\<And>t i. a \<notin> set (pooled s' t i)"
    "unat sz \<le> capacity s' a" "alive s' = (alive s)(a \<mapsto> header_size sz)"
proof -
  have s': "a = fresh s" "s' = s\<lparr>tpool := (tpool s)(t := edt_pool_ensure_init (tpool s t)),
      alive := (alive s)(fresh s \<mapsto> header_size sz),
      capacity := (capacity s)(fresh s := unat (header_size sz)), fresh := Suc (fresh s)\<rparr>"
    using trans [OF c [symmetric] create_fresh [OF inv none]] by simp_all
  have lists: "pooled s' t' i' = pooled s t' i'" for t' i'
    by (simp add: s'(2) pooled_def inv_init [OF inv])
  have old: "b < fresh s" if "b \<in> set (pooled s t' i')" for b t' i'
    using poolD(6) [OF inv that] by (simp add: block_ok_def)
  have old_tasks: "b < fresh s" if "alive s b = Some z" for b z
    using poolD(8) [OF inv that] by (simp add: task_ok_def)
  show "alive s a = None" using old_tasks [of a] s'(1) by (cases "alive s a") auto
  show "a \<notin> released s" using poolD(9) [OF inv, of a] s'(1) by auto
  show "a \<notin> set (pooled s' t' i')" for t' i' using old [of a t' i'] s'(1) lists by auto
  show "alive s' = (alive s)(a \<mapsto> header_size sz)" by (simp add: s')
  show "unat sz \<le> capacity s' a" using header_size_ok(1) [of sz] by (simp add: s' word_le_nat_alt)
  show "pool_inv s'"
  proof (rule pool_inv_same [OF inv lists])
    show "block_ok s' i' b" if "b \<in> set (pooled s t' i')" for t' i' b
      using poolD(6) [OF inv that] by (simp add: block_ok_def s'(2))
    show "task_ok s' b z" if "alive s' b = Some z" for b z
    proof (cases "b = fresh s")
      case True
      then have z: "z = header_size sz" using that by (simp add: s'(2))
      have "fresh s \<notin> released s" using poolD(9) [OF inv, of "fresh s"] by auto
      then show ?thesis using True z header_size_ok(2) [of sz] by (simp add: task_ok_def s'(2))
    next
      case False
      then have "alive s b = Some z" using that by (simp add: s'(2))
      from poolD(8) [OF inv this] show ?thesis using False by (simp add: task_ok_def s'(2))
    qed
    show "b < fresh s'" if "b \<in> released s'" for b
      using poolD(9) [OF inv, of b] that by (simp add: s'(2))
  qed (simp_all add: s'(2) inv_init [OF inv])
qed

lemma create_pooled_ok:
  assumes inv: "pool_inv s" and some: "edt_pool_alloc sz (tpool s t) = (p, Some x)"
    and c: "create_edt_memory t sz s = (s', a)"
  shows "pool_inv s'" "alive s a = None" "a \<notin> released s" "\<And>t i. a \<notin> set (pooled s' t i)"
    "unat sz \<le> capacity s' a" "alive s' = (alive s)(a \<mapsto> header_size sz)"
proof -
  obtain i z es where i: "edt_pool_bucket_index sz = Some i" "entries (buckets (tpool s t) i) = (x, z) # es"
    "create_edt_memory t sz s = (s\<lparr>tpool := (tpool s)(t := p), alive := (alive s)(x \<mapsto> header_size sz)\<rparr>, x)"
    "edt_pool_initialized p"
    "\<And>j. entries (buckets p j) = (if j = i then es else entries (buckets (tpool s t) j))"
    "\<And>j. bcount (buckets p j) = (if j = i then bcount (buckets (tpool s t) j) - 1 else bcount (buckets (tpool s t) j))"
    by (rule create_pooled [OF inv some]) (rule that)
  have s': "a = x" "s' = s\<lparr>tpool := (tpool s)(t := p), alive := (alive s)(x \<mapsto> header_size sz)\<rparr>"
    using trans [OF c [symmetric] i(3)] by simp_all
  let ?xs = "map fst es"
  have mine: "pooled s t i = x # ?xs" by (simp add: pooled_def i(2))
  have lists: "pooled s' t' i' = (if t' = t \<and> i' = i then ?xs else pooled s t' i')" for t' i'
    by (simp add: s'(2) pooled_def i(5))
  have dist: "distinct (x # ?xs)" using poolD(1) [OF inv, of t i] mine by simp
  have bx: "block_ok s i x" using poolD(6) [OF inv, of x t i] mine by simp
  have hs: "header_size sz = edt_pool_bucket_sizes i" using i(1) by (simp add: header_size_def)
  have gone: "x \<notin> set (pooled s' t' i')" for t' i'
  proof
    assume "x \<in> set (pooled s' t' i')"
    then show False using poolD(7) [OF inv, of x t i t' i'] mine dist lists [of t' i'] by (auto split: if_splits)
  qed
  show "alive s a = None" "a \<notin> released s" using bx s'(1) by (simp_all add: block_ok_def)
  show "a \<notin> set (pooled s' t' i')" for t' i' using gone s'(1) by simp
  show "alive s' = (alive s)(a \<mapsto> header_size sz)" by (simp add: s')
  show "unat sz \<le> capacity s' a"
    using bx bucket_index_size(2) [OF i(1)] by (simp add: s' block_ok_def word_le_nat_alt)
  show "pool_inv s'"
  proof (rule pool_inv_replace [OF inv lists])
    show "distinct ?xs" "length ?xs \<le> 64" using dist poolD(3) [OF inv, of t i] mine by simp_all
    show "i < EDT_POOL_NUM_BUCKETS" by (rule bucket_index_size(1) [OF i(1)])
    show "t' = t \<and> i' = i" if "b \<in> set ?xs" "b \<in> set (pooled s t' i')" for b t' i'
      using poolD(7) [OF inv, of b t i t' i'] that mine by auto
    show "unat (bcount (buckets (tpool s' t') i')) = length (pooled s' t' i')" for t' i'
    proof (cases "t' = t \<and> i' = i")
      case True
      have "unat (bcount (buckets (tpool s t) i)) = Suc (length ?xs)" using poolD(2) [OF inv, of t i] mine by simp
      then have "unat (bcount (buckets (tpool s t) i) - 1) = length ?xs" by (simp add: unat_sub_le)
      then show ?thesis using True lists by (simp add: s'(2) i(6))
    next
      case False
      then show ?thesis using poolD(2) [OF inv, of t' i'] lists [of t' i'] by (auto simp: s'(2) i(6))
    qed
    show "pooled s' t' i' = []" if "\<not> edt_pool_initialized (tpool s' t')" for t' i'
      using that poolD(5) [OF inv, of t' i'] lists [of t' i'] i(4) by (auto simp: s'(2) split: if_splits)
    show "block_ok s' i' b" if b: "b \<in> set (pooled s' t' i')" for t' i' b
    proof -
      have "b \<noteq> x" using gone b by auto
      moreover have "b \<in> set (pooled s t' i')" using b lists [of t' i'] mine by (auto split: if_splits)
      ultimately show ?thesis using poolD(6) [OF inv] by (simp add: block_ok_def s'(2))
    qed
    show "task_ok s' b z" if "alive s' b = Some z" for b z
    proof (cases "b = x")
      case True
      then have "z = header_size sz" using that by (simp add: s'(2))
      then show ?thesis using True bx hs header_size_ok(2) [of sz] by (simp add: task_ok_def block_ok_def s'(2))
    next
      case False
      then have "alive s b = Some z" using that by (simp add: s'(2))
      from poolD(8) [OF inv this] show ?thesis by (simp add: task_ok_def s'(2))
    qed
    show "b < fresh s'" if "b \<in> released s'" for b using poolD(9) [OF inv, of b] that by (simp add: s'(2))
  qed
qed

lemma alive_not_pooled:
  assumes "pool_inv s" "alive s a = Some sz"
  shows "a \<notin> set (pooled s t i)"
  using poolD(6) [OF assms(1), of a t i] assms(2) by (auto simp: block_ok_def)

lemma free_ok:
  assumes inv: "pool_inv s" and a: "alive s a = Some sz"
  shows "pool_inv (free_edt_memory t a s)"
proof -
  let ?p = "edt_pool_ensure_init (tpool s t)"
  have ta: "task_ok s a sz" by (rule poolD(8) [OF inv a])
  note np = alive_not_pooled [OF inv a]
  have keep: "task_ok s' b z" if "alive s' b = Some z" "alive s' = (alive s)(a := None)"
    "capacity s' = capacity s" "fresh s' = fresh s" "released s' \<subseteq> insert a (released s)" for s' b z
  proof -
    have "alive s b = Some z" "b \<noteq> a" using that(1,2) by (auto split: if_splits)
    then show ?thesis using poolD(8) [OF inv] that by (auto simp: task_ok_def)
  qed
  show ?thesis
  proof (cases "snd (edt_pool_free a sz (tpool s t))")
    case True
    let ?s = "s\<lparr>tpool := (tpool s)(t := ?p), alive := (alive s)(a := None), released := insert a (released s)\<rparr>"
    have "free_edt_memory t a s = ?s"
      using True a by (auto simp: free_edt_memory_def edt_pool_free_def Let_def split: option.splits if_splits)
    moreover have "pool_inv ?s"
    proof (rule pool_inv_same [OF inv])
      show "block_ok ?s i' b" if "b \<in> set (pooled s t' i')" for t' i' b
        using poolD(6) [OF inv that] np [of t' i'] that by (auto simp: block_ok_def)
      show "task_ok ?s b z" if "alive ?s b = Some z" for b z using keep [OF that] by auto
      show "b < fresh ?s" if "b \<in> released ?s" for b using that poolD(9) [OF inv] ta by (auto simp: task_ok_def)
    qed (simp_all add: pooled_def inv_init [OF inv])
    ultimately show ?thesis by simp
  next
    case False
    then obtain i where i: "edt_pool_bucket_index sz = Some i" "\<not> 64 \<le> bcount (buckets (tpool s t) i)"
      by (auto simp: edt_pool_free_def Let_def inv_init [OF inv] split: option.splits if_splits)
    let ?b = "(buckets ?p i)\<lparr>entries := (a, edt_pool_bucket_sizes i) # entries (buckets ?p i), bcount := bcount (buckets ?p i) + 1\<rparr>"
    let ?s = "s\<lparr>tpool := (tpool s)(t := ?p\<lparr>buckets := (buckets ?p)(i := ?b)\<rparr>), alive := (alive s)(a := None)\<rparr>"
    have s: "free_edt_memory t a s = ?s"
      using False a i by (simp add: free_edt_memory_def edt_pool_free_def Let_def inv_init [OF inv])
    let ?xs = "a # pooled s t i"
    have lists: "pooled ?s t' i' = (if t' = t \<and> i' = i then ?xs else pooled s t' i')" for t' i'
      by (simp add: pooled_def inv_init [OF inv])
    have cnt: "unat (bcount (buckets (tpool s t) i)) = length (pooled s t i)" by (rule poolD(2) [OF inv])
    have lt: "length (pooled s t i) < 64" using i(2) cnt by (simp add: word_le_nat_alt)
    have "pool_inv ?s"
    proof (rule pool_inv_replace [OF inv lists])
      show "distinct ?xs" using np [of t i] poolD(1) [OF inv, of t i] by simp
      show "length ?xs \<le> 64" using lt by simp
      show "i < EDT_POOL_NUM_BUCKETS" by (rule bucket_index_size(1) [OF i(1)])
      show "t' = t \<and> i' = i" if "b \<in> set ?xs" "b \<in> set (pooled s t' i')" for b t' i'
        using poolD(7) [OF inv, of b t i t' i'] that np [of t' i'] by auto
      have "unat (bcount (buckets (tpool s t) i) + 1) = Suc (length (pooled s t i))"
        using cnt lt unat_add_lt [of "bcount (buckets (tpool s t) i)" 1] by simp
      then show "unat (bcount (buckets (tpool ?s t') i')) = length (pooled ?s t' i')" for t' i'
        using poolD(2) [OF inv, of t' i'] poolD(2) [OF inv, of t i'] unfolding lists by (simp add: inv_init [OF inv])
      show "pooled ?s t' i' = []" if "\<not> edt_pool_initialized (tpool ?s t')" for t' i'
        using that poolD(5) [OF inv, of t' i'] unfolding lists by (auto split: if_splits)
      have sz: "sz = edt_pool_bucket_sizes i" using ta i(1) by (simp add: task_ok_def)
      show "block_ok ?s i' b" if b: "b \<in> set (pooled ?s t' i')" for t' i' b
      proof (cases "b = a")
        case True
        then have "i' = i" using b np [of t' i'] unfolding lists by (auto split: if_splits)
        then show ?thesis using True ta sz by (simp add: block_ok_def task_ok_def)
      next
        case False
        then have "b \<in> set (pooled s t' i')" using b unfolding lists by (auto split: if_splits)
        then show ?thesis using poolD(6) [OF inv] False by (simp add: block_ok_def)
      qed
      show "task_ok ?s b z" if "alive ?s b = Some z" for b z using keep [OF that] by auto
      show "b < fresh ?s" if "b \<in> released ?s" for b using that poolD(9) [OF inv] by simp
    qed
    then show ?thesis using s by simp
  qed
qed

lemma cleanup_ok:
  assumes inv: "pool_inv s"
  shows "pool_inv (cleanup_thread t s)"
proof (cases "edt_pool_initialized (tpool s t)")
  case True
  let ?s = "cleanup_thread t s"
  let ?as = "\<Union>i<EDT_POOL_NUM_BUCKETS. set (pooled s t i)"
  have rel: "released ?s = released s \<union> ?as" "alive ?s = alive s" "capacity ?s = capacity s" "fresh ?s = fresh s"
    using True by (auto simp: cleanup_thread_def arts_cleanup_edt_pool_def pooled_def)
  have b: "tpool ?s t' = (if t' = t then (tpool s t)\<lparr>buckets := (\<lambda>i. if i < 4 then empty_bucket else buckets (tpool s t) i),
      edt_pool_initialized := False\<rparr> else tpool s t')" for t'
    using True by (simp add: cleanup_thread_def arts_cleanup_edt_pool_def)
  have lists: "pooled ?s t' i' = (if t' = t then [] else pooled s t' i')" for t' i'
    using poolD(4) [OF inv, of i' t] by (auto simp: pooled_def b empty_bucket_def not_less)
  have "unat (bcount (buckets (tpool ?s t') i')) = length (pooled ?s t' i')" for t' i'
    using poolD(2) [OF inv, of t' i'] poolD(2,4) [OF inv, where t = t and i = i'] unfolding lists
    by (auto simp: b empty_bucket_def not_less)
  moreover have "block_ok ?s i' a" if a: "a \<in> set (pooled ?s t' i')" for t' i' a
  proof -
    have t': "t' \<noteq> t" "a \<in> set (pooled s t' i')" using a unfolding lists by (auto split: if_splits)
    then have "a \<notin> ?as" using poolD(7) [OF inv t'(2)] by blast
    then show ?thesis using poolD(6) [OF inv t'(2)] by (simp add: block_ok_def rel)
  qed
  moreover have "task_ok ?s a z" if "alive ?s a = Some z" for a z
    using that poolD(8) [OF inv, of a z] alive_not_pooled [OF inv, of a z] by (auto simp: task_ok_def rel)
  moreover have "a < fresh ?s" if "a \<in> released ?s" for a
    using that poolD(9) [OF inv, of a] poolD(6) [OF inv, of a] by (auto simp: rel block_ok_def)
  moreover have "t1 = t2 \<and> i1 = i2" if "set (pooled ?s t1 i1) \<inter> set (pooled ?s t2 i2) \<noteq> {}" for t1 i1 t2 i2
    using that poolD(7) [OF inv, of _ t1 i1 t2 i2] unfolding lists by (auto split: if_splits)
  moreover have "\<not> edt_pool_initialized (tpool ?s t') \<Longrightarrow> pooled ?s t' i' = []" for t' i'
    using poolD(5) [OF inv, of t' i'] unfolding lists by (auto simp: b)
  moreover have "distinct (pooled ?s t' i') \<and> length (pooled ?s t' i') \<le> 64 \<and>
      (EDT_POOL_NUM_BUCKETS \<le> i' \<longrightarrow> pooled ?s t' i' = [])" for t' i'
    using poolD(1,3) [OF inv, of t' i'] poolD(4) [OF inv, of i' t'] unfolding lists by simp
  ultimately show ?thesis unfolding pool_inv_def by simp
next
  case False
  then show ?thesis using inv by (simp add: cleanup_thread_def arts_cleanup_edt_pool_def)
qed

lemma pool_start_inv: "pool_inv pool_start"
  by (simp add: pool_inv_def pool_start_def pooled_def empty_bucket_def)

lemma create_memory_ok:
  assumes inv: "pool_inv s" and c: "create_edt_memory t sz s = (s', a)"
  shows "pool_inv s' \<and> alive s a = None \<and> a \<notin> released s \<and> (\<forall>t i. a \<notin> set (pooled s' t i)) \<and>
    unat sz \<le> capacity s' a \<and> alive s' a = Some (header_size sz)"
proof (cases "snd (edt_pool_alloc sz (tpool s t))")
  case None
  from create_fresh_ok [OF inv this c] show ?thesis by simp
next
  case (Some x)
  then have "edt_pool_alloc sz (tpool s t) = (fst (edt_pool_alloc sz (tpool s t)), Some x)" by (simp add: prod_eq_iff)
  from create_pooled_ok [OF inv this c] show ?thesis by simp
qed

lemma pool_steps_inv: "pool_step\<^sup>*\<^sup>* pool_start s \<Longrightarrow> pool_inv s"
proof (induction rule: rtranclp_induct)
  case base
  show ?case by (rule pool_start_inv)
next
  case (step y z)
  from step.hyps(2) step.IH show ?case
    by cases (auto intro: create_memory_ok [OF _ prod.collapse [symmetric], THEN conjunct1] free_ok cleanup_ok)
qed


definition demo_pool :: pool_sys where
  "demo_pool = free_edt_memory 1 0 (fst (create_edt_memory 0 200 pool_start))"


end
