(* ===== verification/Edt_Start.thy ===== *)
theory Edt_Start
  imports Oo_List
begin

text \<open>
  The start of a task with a reserved GUID, from \<^verbatim>\<open>compute/edt.c\<close>, \<^verbatim>\<open>gas/out_of_order.c\<close> and
  \<^verbatim>\<open>gas/out_of_order_list.c\<close>.  One thread creates the task while others already signal its
  dependency slots.  A signal that finds the task writes its slot and counts down; a
  signal that does not is parked on the out-of-order list of the GUID.  The creator counts
  one more than there are slots, inserts the task, replays the parked signals and takes
  the extra count back.  Whoever counts to zero starts the task.  Every access to memory
  that another thread may see is a step of its own, and the steps of the threads
  interleave in any way.
\<close>

section \<open>Threads and memory\<close>

abbreviation MAX_RETRIES :: nat where "MAX_RETRIES \<equiv> 1000"

text \<open>
  Where a thread is that runs \<^verbatim>\<open>internal_signal_edt_ex\<close> for one slot: at the look-up of the
  task, the write of the slot, the count down, the start of the task, the check of the
  state of the reserved item, or inside \<^verbatim>\<open>arts_out_of_order_list_add_item\<close>; the flag of
  \<open>A_Unlock\<close> tells whether the signal was parked.
\<close>

datatype sig_pc =
    S_Start | S_Write | S_Sub | S_Ready | S_Park
  | A_Try | A_Inc | A_Check | A_Dec | A_Fired | A_Put | A_Unlock bool
  | S_Done

text \<open>
  Where the creator is: before it sets the count, before it inserts the task, at attempt \<open>k\<close>
  to take the writer lock of the list, at the look at the readers, at the head of the
  replay loop, inside the replay of one signal, at the removal of the extra count, at the
  start of the task.
\<close>

datatype mk_pc =
    C_Fill | C_Insert | F_Cas nat | F_Readers nat | F_Loop
  | R_Signal nat | R_Sub nat | R_Ready
  | C_Sub | C_Ready | C_Done

text \<open>
  The memory: the count, the slots, whether the look-up finds the task, the locks, the flag
  and the contents of the out-of-order list; how often the task was started and whether it
  has run and was deleted.  The readers of the list are kept as a set, of which the reader
  lock holds the size.  \<open>counted\<close>, \<open>winner\<close> and \<open>gave_up\<close> record history: the signals that have
  counted down, who counted to zero, and whether the attempts were used up.
\<close>

record start_sys =
  needed :: u32
  slots :: "nat \<Rightarrow> arts_guid_t option"
  visible :: bool
  writer :: bool
  readers :: "nat set"
  isfired :: bool
  parked :: "nat list"
  maker :: mk_pc
  sig :: "nat \<Rightarrow> sig_pc"
  started :: nat
  deleted :: bool
  counted :: "nat set"
  winner :: "nat option"
  gave_up :: bool

definition start_init :: start_sys where
  "start_init = \<lparr>needed = 0, slots = (\<lambda>_. None), visible = False, writer = False, readers = {}, isfired = False,
     parked = [], maker = C_Fill, sig = (\<lambda>_. S_Start), started = 0, deleted = False,
     counted = {}, winner = None, gave_up = False\<rparr>"

definition go :: "nat \<Rightarrow> sig_pc \<Rightarrow> start_sys \<Rightarrow> start_sys" where
  "go i c s = s\<lparr>sig := (sig s)(i := c)\<rparr>"

text \<open>The atomic decrement, by the thread \<open>w\<close>; it tells whether the count is zero now.\<close>

definition count_down :: "nat \<Rightarrow> start_sys \<Rightarrow> start_sys \<times> bool" where
  "count_down w s =
     (case arts_atomic_sub (needed s) 1 of
        (m, r) \<Rightarrow> (s\<lparr>needed := m, winner := (if r = 0 then Some w else winner s)\<rparr>, r = 0))"

section \<open>Steps\<close>

text \<open>The creator of a task with \<open>n\<close> slots; \<open>dat\<close> is what the signal of each slot carries.\<close>

inductive maker_step :: "nat \<Rightarrow> (nat \<Rightarrow> arts_guid_t) \<Rightarrow> start_sys \<Rightarrow> start_sys \<Rightarrow> bool" for n dat where
  fill: "maker s = C_Fill \<Longrightarrow> maker_step n dat s (s\<lparr>needed := of_nat n + 1, maker := C_Insert\<rparr>)"
| insert: "maker s = C_Insert \<Longrightarrow> maker_step n dat s (s\<lparr>visible := True, maker := F_Cas 0\<rparr>)"
| lock: "maker s = F_Cas k \<Longrightarrow> k < MAX_RETRIES \<Longrightarrow> \<not> writer s \<Longrightarrow>
    maker_step n dat s (s\<lparr>writer := True, maker := F_Readers k\<rparr>)"
| lock_taken: "maker s = F_Cas k \<Longrightarrow> k < MAX_RETRIES \<Longrightarrow> writer s \<Longrightarrow>
    maker_step n dat s (s\<lparr>maker := F_Cas (Suc k)\<rparr>)"
| give_up: "maker s = F_Cas k \<Longrightarrow> MAX_RETRIES \<le> k \<Longrightarrow> maker_step n dat s (s\<lparr>gave_up := True, maker := C_Sub\<rparr>)"
| readers_in: "maker s = F_Readers k \<Longrightarrow> readers s \<noteq> {} \<Longrightarrow>
    maker_step n dat s (s\<lparr>writer := False, maker := F_Cas (Suc k)\<rparr>)"
| fire: "maker s = F_Readers k \<Longrightarrow> readers s = {} \<Longrightarrow>
    maker_step n dat s (s\<lparr>isfired := True, maker := F_Loop\<rparr>)"
| replay: "maker s = F_Loop \<Longrightarrow> parked s = i # is \<Longrightarrow>
    maker_step n dat s (s\<lparr>parked := is, maker := R_Signal i\<rparr>)"
| replay_slot: "maker s = R_Signal i \<Longrightarrow> visible s \<Longrightarrow>
    maker_step n dat s (s\<lparr>slots := (slots s)(i := Some (dat i)), maker := R_Sub i\<rparr>)"
| replay_count: "maker s = R_Sub i \<Longrightarrow> count_down i s = (s', z) \<Longrightarrow>
    maker_step n dat s (s'\<lparr>counted := insert i (counted s'), maker := (if z then R_Ready else F_Loop)\<rparr>)"
| replay_ready: "maker s = R_Ready \<Longrightarrow> maker_step n dat s (s\<lparr>started := Suc (started s), maker := F_Loop\<rparr>)"
| unlock: "maker s = F_Loop \<Longrightarrow> parked s = [] \<Longrightarrow> maker_step n dat s (s\<lparr>writer := False, maker := C_Sub\<rparr>)"
| sentinel: "maker s = C_Sub \<Longrightarrow> count_down n s = (s', z) \<Longrightarrow>
    maker_step n dat s (s'\<lparr>maker := (if z then C_Ready else C_Done)\<rparr>)"
| maker_ready: "maker s = C_Ready \<Longrightarrow> maker_step n dat s (s\<lparr>started := Suc (started s), maker := C_Done\<rparr>)"

text \<open>The thread that signals slot \<open>i\<close>.\<close>

inductive signal_step :: "(nat \<Rightarrow> arts_guid_t) \<Rightarrow> nat \<Rightarrow> start_sys \<Rightarrow> start_sys \<Rightarrow> bool" for dat i where
  found: "sig s i = S_Start \<Longrightarrow> visible s \<Longrightarrow> signal_step dat i s (go i S_Write s)"
| missing: "sig s i = S_Start \<Longrightarrow> \<not> visible s \<Longrightarrow> signal_step dat i s (go i S_Park s)"
| slot: "sig s i = S_Write \<Longrightarrow> signal_step dat i s (go i S_Sub (s\<lparr>slots := (slots s)(i := Some (dat i))\<rparr>))"
| count: "sig s i = S_Sub \<Longrightarrow> count_down i s = (s', z) \<Longrightarrow>
    signal_step dat i s (go i (if z then S_Ready else S_Done) (s'\<lparr>counted := insert i (counted s')\<rparr>))"
| ready: "sig s i = S_Ready \<Longrightarrow> signal_step dat i s (go i S_Done (s\<lparr>started := Suc (started s)\<rparr>))"
| available: "sig s i = S_Park \<Longrightarrow> visible s \<Longrightarrow> signal_step dat i s (go i S_Start s)"
| reserved: "sig s i = S_Park \<Longrightarrow> \<not> visible s \<Longrightarrow> signal_step dat i s (go i A_Try s)"
| firing: "sig s i = A_Try \<Longrightarrow> writer s \<Longrightarrow> signal_step dat i s (go i S_Start s)"
| free: "sig s i = A_Try \<Longrightarrow> \<not> writer s \<Longrightarrow> signal_step dat i s (go i A_Inc s)"
| enter: "sig s i = A_Inc \<Longrightarrow> signal_step dat i s (go i A_Check (s\<lparr>readers := insert i (readers s)\<rparr>))"
| inside: "sig s i = A_Check \<Longrightarrow> \<not> writer s \<Longrightarrow> signal_step dat i s (go i A_Fired s)"
| back_out: "sig s i = A_Check \<Longrightarrow> writer s \<Longrightarrow> signal_step dat i s (go i A_Dec s)"
| again: "sig s i = A_Dec \<Longrightarrow> signal_step dat i s (go i A_Try (s\<lparr>readers := readers s - {i}\<rparr>))"
| too_late: "sig s i = A_Fired \<Longrightarrow> isfired s \<Longrightarrow> signal_step dat i s (go i (A_Unlock False) s)"
| in_time: "sig s i = A_Fired \<Longrightarrow> \<not> isfired s \<Longrightarrow> signal_step dat i s (go i A_Put s)"
| park: "sig s i = A_Put \<Longrightarrow> signal_step dat i s (go i (A_Unlock True) (s\<lparr>parked := parked s @ [i]\<rparr>))"
| leave: "sig s i = A_Unlock b \<Longrightarrow>
    signal_step dat i s (go i (if b then S_Done else S_Start) (s\<lparr>readers := readers s - {i}\<rparr>))"

text \<open>The whole: the creator, one thread for each slot, and the task that runs and is deleted.\<close>

inductive start_step :: "nat \<Rightarrow> (nat \<Rightarrow> arts_guid_t) \<Rightarrow> start_sys \<Rightarrow> start_sys \<Rightarrow> bool" for n dat where
  by_maker: "maker_step n dat s s' \<Longrightarrow> start_step n dat s s'"
| by_signal: "i < n \<Longrightarrow> signal_step dat i s s' \<Longrightarrow> start_step n dat s s'"
| finish: "started s \<noteq> 0 \<Longrightarrow> \<not> deleted s \<Longrightarrow> start_step n dat s (s\<lparr>visible := False, deleted := True\<rparr>)"

section \<open>Invariant\<close>

text \<open>The extra count is taken back; the task is inserted; the writer lock is held.\<close>

fun sent :: "mk_pc \<Rightarrow> bool" where
  "sent C_Ready = True" | "sent C_Done = True" | "sent _ = False"

fun inserted :: "mk_pc \<Rightarrow> bool" where
  "inserted C_Fill = False" | "inserted C_Insert = False" | "inserted _ = True"

fun locked :: "mk_pc \<Rightarrow> bool" where
  "locked (F_Readers k) = True" | "locked F_Loop = True" | "locked (R_Signal i) = True"
| "locked (R_Sub i) = True" | "locked R_Ready = True" | "locked _ = False"

fun replaying :: "mk_pc \<Rightarrow> bool" where
  "replaying F_Loop = True" | "replaying (R_Signal i) = True" | "replaying (R_Sub i) = True"
| "replaying R_Ready = True" | "replaying _ = False"

text \<open>The signals that are parked or being replayed.\<close>

fun in_hand :: "mk_pc \<Rightarrow> nat list" where
  "in_hand (R_Signal i) = [i]" | "in_hand (R_Sub i) = [i]" | "in_hand _ = []"

definition waiting :: "start_sys \<Rightarrow> nat list" where
  "waiting s = in_hand (maker s) @ parked s"

text \<open>The thread still has to deliver its signal; it is inside the list.\<close>

fun holds :: "sig_pc \<Rightarrow> bool" where
  "holds S_Ready = False" | "holds S_Done = False" | "holds (A_Unlock b) = (\<not> b)" | "holds _ = True"

fun reading :: "sig_pc \<Rightarrow> bool" where
  "reading A_Check = True" | "reading A_Dec = True" | "reading A_Fired = True" | "reading A_Put = True"
| "reading (A_Unlock b) = True" | "reading _ = False"

definition touches :: "sig_pc \<Rightarrow> bool" where
  "touches c \<longleftrightarrow> c = S_Write \<or> c = S_Sub"

text \<open>Control: what the place of the creator says about the flags.\<close>

definition control_ok :: "nat \<Rightarrow> start_sys \<Rightarrow> bool" where
  "control_ok n s \<longleftrightarrow>
     (visible s \<longleftrightarrow> inserted (maker s) \<and> \<not> deleted s) \<and> (writer s \<longleftrightarrow> locked (maker s)) \<and>
     (\<forall>i<n. i \<in> readers s \<longleftrightarrow> reading (sig s i)) \<and> readers s \<subseteq> {..<n} \<and>
     (\<forall>i<n. touches (sig s i) \<longrightarrow> inserted (maker s)) \<and>
     (isfired s \<longrightarrow> inserted (maker s) \<and> (\<forall>i<n. sig s i \<noteq> A_Put)) \<and>
     (replaying (maker s) \<longrightarrow> isfired s) \<and>
     (maker s = C_Sub \<or> sent (maker s) \<longrightarrow> gave_up s \<or> isfired s \<and> parked s = [])"

text \<open>Signals: each is with its thread, waiting, or counted, and in one of these places only.\<close>

definition signals_ok :: "nat \<Rightarrow> start_sys \<Rightarrow> bool" where
  "signals_ok n s \<longleftrightarrow>
     distinct (waiting s) \<and> set (waiting s) \<subseteq> {..<n} \<and> counted s \<subseteq> {..<n} \<and> set (waiting s) \<inter> counted s = {} \<and>
     (\<forall>i<n. holds (sig s i) \<longleftrightarrow> i \<notin> counted s \<and> i \<notin> set (waiting s)) \<and>
     (\<forall>i<n. sig s i = S_Ready \<longrightarrow> i \<in> counted s)"

text \<open>Counting: what is missing from the full count has been counted down.\<close>

definition count_ok :: "nat \<Rightarrow> start_sys \<Rightarrow> bool" where
  "count_ok n s \<longleftrightarrow>
     (maker s \<noteq> C_Fill \<longrightarrow> unat (needed s) + card (counted s) + (if sent (maker s) then 1 else 0) = n + 1) \<and>
     (maker s = C_Fill \<longrightarrow> counted s = {})"

definition slots_ok :: "nat \<Rightarrow> (nat \<Rightarrow> arts_guid_t) \<Rightarrow> start_sys \<Rightarrow> bool" where
  "slots_ok n dat s \<longleftrightarrow>
     (\<forall>i\<in>counted s. slots s i = Some (dat i)) \<and> (\<forall>i<n. sig s i = S_Sub \<longrightarrow> slots s i = Some (dat i)) \<and>
     (\<forall>i. maker s = R_Sub i \<longrightarrow> slots s i = Some (dat i))"

text \<open>Starting: the one who counted to zero starts the task, once.\<close>

definition winner_ok :: "nat \<Rightarrow> start_sys \<Rightarrow> bool" where
  "winner_ok n s \<longleftrightarrow>
     (winner s = None \<longleftrightarrow> maker s = C_Fill \<or> needed s \<noteq> 0) \<and> started s \<le> 1 \<and> (winner s = None \<longrightarrow> started s = 0) \<and>
     (\<forall>i<n. sig s i = S_Ready \<longrightarrow> winner s = Some i \<and> started s = 0) \<and>
     (maker s = C_Ready \<longrightarrow> winner s = Some n \<and> started s = 0) \<and> maker s \<noteq> R_Ready \<and>
     (\<forall>i. winner s = Some i \<and> started s = 0 \<longrightarrow> i < n \<and> sig s i = S_Ready \<or> i = n \<and> maker s = C_Ready) \<and>
     (deleted s \<longrightarrow> started s \<noteq> 0)"

definition start_inv :: "nat \<Rightarrow> (nat \<Rightarrow> arts_guid_t) \<Rightarrow> start_sys \<Rightarrow> bool" where
  "start_inv n dat s \<longleftrightarrow>
     control_ok n s \<and> signals_ok n s \<and> count_ok n s \<and> slots_ok n dat s \<and> winner_ok n s"

lemma start_init_inv: "start_inv n dat start_init"
  by (simp add: start_inv_def control_ok_def signals_ok_def count_ok_def slots_ok_def winner_ok_def
      start_init_def waiting_def touches_def)

text \<open>When the count is zero every signal has been counted and the extra count is gone.\<close>

lemma zero_all:
  assumes "start_inv n dat s" "needed s = 0" "maker s \<noteq> C_Fill"
  shows "counted s = {..<n}" "sent (maker s)"
proof -
  have c: "card (counted s) + (if sent (maker s) then 1 else 0) = n + 1" and sub: "counted s \<subseteq> {..<n}"
    using assms by (auto simp: start_inv_def count_ok_def signals_ok_def)
  have le: "card (counted s) \<le> n" using card_mono [OF _ sub] by simp
  show t: "sent (maker s)" using c le by (auto split: if_splits)
  then have "card (counted s) = n" using c by simp
  then show "counted s = {..<n}" using card_subset_eq [OF _ sub] by simp
qed

lemma not_zero:
  assumes "start_inv n dat s" "i < n" "i \<notin> counted s"
  shows "maker s = C_Fill \<or> needed s \<noteq> 0" "winner s = None" "started s = 0" "\<not> deleted s"
proof -
  show z: "maker s = C_Fill \<or> needed s \<noteq> 0" using zero_all [OF assms(1)] assms(2,3) by auto
  then show w: "winner s = None" using assms(1) by (simp add: start_inv_def winner_ok_def)
  then show st: "started s = 0" using assms(1) by (simp add: start_inv_def winner_ok_def)
  then show "\<not> deleted s" using assms(1) by (simp add: start_inv_def winner_ok_def)
qed

lemma not_sent:
  assumes "start_inv n dat s" "\<not> sent (maker s)"
  shows "maker s = C_Fill \<or> needed s \<noteq> 0" "winner s = None" "started s = 0" "\<not> deleted s"
proof -
  show z: "maker s = C_Fill \<or> needed s \<noteq> 0" using zero_all(2) [OF assms(1)] assms(2) by auto
  then show w: "winner s = None" using assms(1) by (simp add: start_inv_def winner_ok_def)
  then show st: "started s = 0" using assms(1) by (simp add: start_inv_def winner_ok_def)
  then show "\<not> deleted s" using assms(1) by (simp add: start_inv_def winner_ok_def)
qed

section \<open>Every step keeps the invariant\<close>

lemma count_down_eq:
  "count_down w s = (s\<lparr>needed := needed s - 1, winner := (if needed s - 1 = 0 then Some w else winner s)\<rparr>, needed s - 1 = 0)"
  by (simp add: count_down_def arts_atomic_sub_def)

lemma startD:
  assumes "start_inv n dat s"
  shows "control_ok n s" "signals_ok n s" "count_ok n s" "slots_ok n dat s" "winner_ok n s"
  using assms by (simp_all add: start_inv_def)

lemma maker_control:
  assumes inv: "start_inv n dat s" and st: "maker_step n dat s s'"
  shows "control_ok n s'"
  using st
proof cases
  case insert
  then have "\<not> deleted s" using not_sent(4) [OF inv] by simp
  then show ?thesis using insert startD(1) [OF inv] by (auto simp: control_ok_def)
next
  case fire
  then have "\<forall>i<n. sig s i \<noteq> A_Put" using startD(1) [OF inv] by (fastforce simp: control_ok_def)
  then show ?thesis using fire startD(1) [OF inv] by (auto simp: control_ok_def)
qed (use startD(1) [OF inv] in \<open>auto simp: control_ok_def count_down_eq\<close>)

lemma maker_signals:
  assumes inv: "start_inv n dat s" and st: "maker_step n dat s s'"
  shows "signals_ok n s'"
  using st
proof cases
  case (replay_count i s1 z)
  then show ?thesis using startD(2) [OF inv] by (auto simp: signals_ok_def waiting_def count_down_eq)
qed (use startD(2) [OF inv] in \<open>auto simp: signals_ok_def waiting_def count_down_eq\<close>)

text \<open>A decrement of a count that is not zero takes one off.\<close>

lemma dec_unat:
  assumes "(w :: u32) \<noteq> 0"
  shows "unat (w - 1) + 1 = unat w"
proof -
  have "unat w \<noteq> 0" using assms by (simp add: unat_eq_zero)
  then show ?thesis by (simp add: unat_sub_le)
qed

lemma maker_count:
  assumes inv: "start_inv n dat s" and st: "maker_step n dat s s'" and n: "n + 1 < 2 ^ 32"
  shows "count_ok n s'"
  using st
proof cases
  case fill
  have "unat (of_nat n :: u32) = n" using n by (simp add: unat_of_nat_lt)
  then have "unat (of_nat n + 1 :: u32) = n + 1" using n by (simp add: unat_add_lt)
  then show ?thesis using fill startD(3) [OF inv] by (simp add: count_ok_def)
next
  case (replay_count i s1 z)
  then have nz: "needed s \<noteq> 0" using not_sent(1) [OF inv] by auto
  have "i \<notin> counted s" "counted s \<subseteq> {..<n}"
    using startD(2) [OF inv] replay_count(2) by (auto simp: signals_ok_def waiting_def)
  then have "card (insert i (counted s)) = Suc (card (counted s))" by (simp add: finite_subset)
  then show ?thesis using replay_count startD(3) [OF inv] dec_unat [OF nz] by (auto simp: count_ok_def count_down_eq)
next
  case (sentinel s1 z)
  then have nz: "needed s \<noteq> 0" using not_sent(1) [OF inv] by auto
  show ?thesis using sentinel startD(3) [OF inv] dec_unat [OF nz] by (auto simp: count_ok_def count_down_eq)
qed (use startD(3) [OF inv] in \<open>auto simp: count_ok_def\<close>)

lemma maker_slots:
  assumes inv: "start_inv n dat s" and st: "maker_step n dat s s'"
  shows "slots_ok n dat s'"
  using st by cases (use startD(4) [OF inv] in \<open>auto simp: slots_ok_def count_down_eq\<close>)

text \<open>While the extra count stands the count is not zero.\<close>

lemma count_pos:
  assumes "count_ok n s" "signals_ok n s" "\<not> sent (maker s)" "maker s \<noteq> C_Fill"
  shows "needed s \<noteq> 0"
proof -
  have "card (counted s) \<le> n" using card_mono [of "{..<n}" "counted s"] assms(2) by (simp add: signals_ok_def)
  then have "unat (needed s) \<noteq> 0" using assms by (simp add: count_ok_def)
  then show ?thesis by auto
qed

lemma winner_keep:
  assumes "winner_ok n s" "needed s' = needed s" "winner s' = winner s" "started s' = started s"
    "deleted s' = deleted s" "sig s' = sig s" "maker s \<noteq> C_Fill" "maker s' \<noteq> C_Fill"
    "maker s \<noteq> C_Ready" "maker s' \<noteq> C_Ready" "maker s' \<noteq> R_Ready"
  shows "winner_ok n s'"
  unfolding winner_ok_def assms(2-6) using assms(1) [unfolded winner_ok_def] assms(7-11) by blast

lemma winner_none:
  assumes "winner s = None" "needed s \<noteq> 0 \<or> maker s = C_Fill" "started s = 0" "\<not> deleted s"
    "\<forall>i<n. sig s i \<noteq> S_Ready" "maker s \<noteq> C_Ready" "maker s \<noteq> R_Ready"
  shows "winner_ok n s"
  using assms unfolding winner_ok_def by auto

lemma none_ready:
  assumes "winner_ok n s" "winner s = None"
  shows "\<forall>i<n. sig s i \<noteq> S_Ready" "maker s \<noteq> C_Ready"
  using assms unfolding winner_ok_def by auto

lemma maker_winner:
  assumes inv: "start_inv n dat s" and st: "maker_step n dat s s'"
    and new: "count_ok n s'" "signals_ok n s'"
  shows "winner_ok n s'"
  using st
proof cases
  case fill
  have old: "winner s = None" "started s = 0" "\<not> deleted s" using not_sent(2-4) [OF inv] fill(2) by simp_all
  show ?thesis
    by (rule winner_none) (use fill old none_ready [OF startD(5) [OF inv]] count_pos [OF new] in auto)
next
  case (replay_count i s1 z)
  have old: "winner s = None" "started s = 0" "\<not> deleted s" using not_sent(2-4) [OF inv] replay_count(2) by simp_all
  have nz: "needed s - 1 \<noteq> 0"
    using count_pos [OF new] replay_count by (auto simp: count_down_eq split: if_splits)
  show ?thesis
    by (rule winner_none) (use replay_count old nz none_ready(1) [OF startD(5) [OF inv]] in \<open>auto simp: count_down_eq\<close>)
next
  case (sentinel s1 z)
  have old: "winner s = None" "started s = 0" "\<not> deleted s" using not_sent(2-4) [OF inv] sentinel(2) by simp_all
  have nr: "\<forall>i<n. sig s i \<noteq> S_Ready" by (rule none_ready(1) [OF startD(5) [OF inv] old(1)])
  show ?thesis
  proof (cases "needed s - 1 = 0")
    case True
    then show ?thesis using sentinel old nr by (auto simp: winner_ok_def count_down_eq)
  next
    case False
    show ?thesis by (rule winner_none) (use False sentinel old nr in \<open>auto simp: count_down_eq\<close>)
  qed
next
  case maker_ready
  have w: "winner s = Some n" "started s = 0" "needed s = 0" "\<not> deleted s"
    using startD(5) [OF inv] maker_ready(2) by (auto simp: winner_ok_def)
  have "\<forall>i<n. sig s i \<noteq> S_Ready" using startD(5) [OF inv] w(1) by (auto simp: winner_ok_def)
  then show ?thesis using w maker_ready by (simp add: winner_ok_def)
next
  case replay_ready
  then show ?thesis using startD(5) [OF inv] by (simp add: winner_ok_def)
qed (rule winner_keep [OF startD(5) [OF inv]]; simp)+

lemma controlD:
  assumes "control_ok n s"
  shows "visible s \<longleftrightarrow> inserted (maker s) \<and> \<not> deleted s" "writer s \<longleftrightarrow> locked (maker s)"
    "j < n \<Longrightarrow> j \<in> readers s \<longleftrightarrow> reading (sig s j)" "readers s \<subseteq> {..<n}"
    "j < n \<Longrightarrow> touches (sig s j) \<Longrightarrow> inserted (maker s)" "isfired s \<Longrightarrow> inserted (maker s)"
    "isfired s \<Longrightarrow> j < n \<Longrightarrow> sig s j \<noteq> A_Put" "replaying (maker s) \<Longrightarrow> isfired s"
    "maker s = C_Sub \<or> sent (maker s) \<Longrightarrow> gave_up s \<or> isfired s \<and> parked s = []"
  using assms unfolding control_ok_def by blast+

lemma winnerD:
  assumes "winner_ok n s"
  shows "winner s = None \<longleftrightarrow> maker s = C_Fill \<or> needed s \<noteq> 0" "started s \<le> 1" "winner s = None \<Longrightarrow> started s = 0"
    "j < n \<Longrightarrow> sig s j = S_Ready \<Longrightarrow> winner s = Some j \<and> started s = 0"
    "maker s = C_Ready \<Longrightarrow> winner s = Some n \<and> started s = 0" "maker s \<noteq> R_Ready"
    "winner s = Some j \<Longrightarrow> started s = 0 \<Longrightarrow> j < n \<and> sig s j = S_Ready \<or> j = n \<and> maker s = C_Ready"
    "deleted s \<Longrightarrow> started s \<noteq> 0"
  using assms unfolding winner_ok_def by blast+

lemma winner_someI:
  assumes "winner s = Some w" "needed s = 0" "maker s \<noteq> C_Fill" "maker s \<noteq> R_Ready" "started s \<le> 1"
    "deleted s \<Longrightarrow> started s \<noteq> 0" "started s = 0 \<Longrightarrow> w < n \<and> sig s w = S_Ready \<or> w = n \<and> maker s = C_Ready"
    "\<And>j. j < n \<Longrightarrow> sig s j = S_Ready \<Longrightarrow> j = w \<and> started s = 0" "maker s = C_Ready \<Longrightarrow> w = n \<and> started s = 0"
  shows "winner_ok n s"
  unfolding winner_ok_def using assms by (intro conjI allI impI) auto

lemma control_keep:
  assumes c: "control_ok n s" and i: "i < n"
    and same: "visible s' = visible s" "writer s' = writer s" "isfired s' = isfired s" "maker s' = maker s"
      "deleted s' = deleted s" "gave_up s' = gave_up s" "readers s' - {i} = readers s - {i}"
      "\<And>j. j \<noteq> i \<Longrightarrow> sig s' j = sig s j"
    and mine: "i \<in> readers s' \<longleftrightarrow> reading (sig s' i)" "touches (sig s' i) \<Longrightarrow> inserted (maker s)"
      "isfired s \<Longrightarrow> sig s' i \<noteq> A_Put" "parked s' = parked s \<or> \<not> isfired s"
  shows "control_ok n s'"
proof -
  note C = controlD [OF c]
  have r: "j \<in> readers s' \<longleftrightarrow> j \<in> readers s" if "j \<noteq> i" for j using same(7) that by blast
  have "j \<in> readers s' \<longleftrightarrow> reading (sig s' j)" if "j < n" for j
    using C(3) [OF that] mine(1) r [of j] same(8) [of j] by (cases "j = i") auto
  moreover have "readers s' \<subseteq> {..<n}"
  proof
    fix j assume "j \<in> readers s'"
    then show "j \<in> {..<n}" using C(4) i r [of j] by (cases "j = i") auto
  qed
  moreover have "inserted (maker s)" if "j < n" "touches (sig s' j)" for j
    using C(5) [OF that(1)] that(2) mine(2) same(8) [of j] by (cases "j = i") auto
  moreover have "sig s' j \<noteq> A_Put" if "isfired s" "j < n" for j
    using C(7) [OF that] mine(3) [OF that(1)] same(8) [of j] by (cases "j = i") auto
  moreover have "maker s = C_Sub \<or> sent (maker s) \<longrightarrow> gave_up s \<or> isfired s \<and> parked s' = []"
    using C(9) mine(4) by auto
  ultimately show ?thesis
    unfolding control_ok_def same(1-6) using C(1,2,6,8) by (intro conjI allI impI) blast+
qed

lemma signal_control:
  assumes inv: "start_inv n dat s" and i: "i < n" and st: "signal_step dat i s s'"
  shows "control_ok n s'"
proof -
  have c: "control_ok n s" by (rule startD(1) [OF inv])
  have r: "i \<in> readers s \<longleftrightarrow> reading (sig s i)" "touches (sig s i) \<Longrightarrow> inserted (maker s)"
    "isfired s \<Longrightarrow> sig s i \<noteq> A_Put" "visible s \<Longrightarrow> inserted (maker s)"
    using c i by (auto simp: control_ok_def)
  show ?thesis
    using st
    by cases (rule control_keep [OF c i]; use r in \<open>auto simp: go_def touches_def count_down_eq split: if_splits\<close>)+
qed

lemma holding:
  assumes "start_inv n dat s" "i < n" "holds (sig s i)"
  shows "i \<notin> counted s" "i \<notin> set (waiting s)"
  using startD(2) [OF assms(1)] assms(2,3) by (auto simp: signals_ok_def)

text \<open>Steps that change neither the place of a signal nor the count.\<close>

lemma signals_keep:
  assumes "signals_ok n s" "waiting s' = waiting s" "counted s' = counted s"
    "\<And>j. j < n \<Longrightarrow> holds (sig s' j) = holds (sig s j)" "\<And>j. j < n \<Longrightarrow> sig s' j = S_Ready \<Longrightarrow> sig s j = S_Ready"
  shows "signals_ok n s'"
  using assms(1) unfolding signals_ok_def assms(2,3) by (auto simp: assms(4) dest: assms(5))

lemma signal_signals:
  assumes inv: "start_inv n dat s" and i: "i < n" and st: "signal_step dat i s s'"
  shows "signals_ok n s'"
  using st
proof cases
  case (count s1 z)
  have "i \<notin> counted s" "i \<notin> set (waiting s)" using holding [OF inv i] count(2) by simp_all
  then show ?thesis using count i startD(2) [OF inv] by (auto simp: signals_ok_def go_def waiting_def count_down_eq)
next
  case park
  have "i \<notin> counted s" "i \<notin> set (waiting s)" using holding [OF inv i] park(2) by simp_all
  then show ?thesis using park i startD(2) [OF inv] by (auto simp: signals_ok_def go_def waiting_def)
next
  case ready
  then show ?thesis using startD(2) [OF inv] by (auto simp: signals_ok_def go_def waiting_def)
qed (rule signals_keep [OF startD(2) [OF inv]]; auto simp: go_def waiting_def split: if_splits)+

lemma signal_count:
  assumes inv: "start_inv n dat s" and i: "i < n" and st: "signal_step dat i s s'"
  shows "count_ok n s'"
  using st
proof cases
  case (count s1 z)
  have new: "i \<notin> counted s" using holding [OF inv i] count(2) by simp
  have "maker s \<noteq> C_Fill" using startD(1) [OF inv] i count(2) by (auto simp: control_ok_def touches_def)
  moreover have "needed s \<noteq> 0" using not_zero(1) [OF inv i new] calculation by simp
  moreover have "finite (counted s)" using startD(2) [OF inv] by (auto simp: signals_ok_def intro: finite_subset)
  ultimately show ?thesis using count new startD(3) [OF inv] dec_unat [of "needed s"]
    by (auto simp: count_ok_def go_def count_down_eq)
qed (use startD(3) [OF inv] in \<open>auto simp: count_ok_def go_def\<close>)

lemma signal_slots:
  assumes inv: "start_inv n dat s" and i: "i < n" and st: "signal_step dat i s s'"
  shows "slots_ok n dat s'"
  using st by cases (use startD(4) [OF inv] i in \<open>auto simp: slots_ok_def go_def count_down_eq\<close>)

lemma winner_keep_sig:
  assumes "winner_ok n s" "needed s' = needed s" "winner s' = winner s" "started s' = started s"
    "deleted s' = deleted s" "maker s' = maker s" "\<And>j. j < n \<Longrightarrow> sig s' j = S_Ready \<longleftrightarrow> sig s j = S_Ready"
  shows "winner_ok n s'"
  unfolding winner_ok_def assms(2-6) using assms(1) [unfolded winner_ok_def] assms(7) by blast

lemma signal_winner:
  assumes inv: "start_inv n dat s" and i: "i < n" and st: "signal_step dat i s s'"
  shows "winner_ok n s'"
  using st
proof cases
  case (count s1 z)
  note W = winnerD [OF startD(5) [OF inv]]
  have new: "i \<notin> counted s" using holding [OF inv i] count(2) by simp
  have old: "winner s = None" "started s = 0" "\<not> deleted s" by (rule not_zero(2-4) [OF inv i new])+
  have nr: "\<forall>j<n. sig s j \<noteq> S_Ready" "maker s \<noteq> C_Ready" by (rule none_ready [OF startD(5) [OF inv] old(1)])+
  have mk: "maker s \<noteq> C_Fill"
    using controlD(5) [OF startD(1) [OF inv] i] count(2) by (auto simp: touches_def)
  show ?thesis
  proof (cases "needed s - 1 = 0")
    case True
    then have new': "winner s' = Some i" "needed s' = 0" "started s' = 0" "maker s' = maker s" "deleted s' = deleted s"
      "\<forall>j<n. sig s' j = S_Ready \<longleftrightarrow> j = i"
      using count old nr by (auto simp: go_def count_down_eq)
    show ?thesis by (rule winner_someI [of _ i]) (use new' old nr mk W(6) i in auto)
  next
    case False
    show ?thesis by (rule winner_none) (use False count old nr mk W(6) in \<open>auto simp: go_def count_down_eq\<close>)
  qed
next
  case ready
  note W = winnerD [OF startD(5) [OF inv]]
  have w: "winner s = Some i" "started s = 0" using W(4) [OF i ready(2)] by simp_all
  have others: "\<forall>j<n. j \<noteq> i \<longrightarrow> sig s j \<noteq> S_Ready" "maker s \<noteq> C_Ready" using W(4,5) w i by auto
  have rest: "needed s = 0" "maker s \<noteq> C_Fill" "\<not> deleted s" using W(1,8) w by auto
  have new': "winner s' = Some i" "needed s' = 0" "started s' = 1" "maker s' = maker s" "deleted s' = deleted s"
    "\<forall>j<n. sig s' j \<noteq> S_Ready"
    using ready w others rest by (auto simp: go_def)
  show ?thesis by (rule winner_someI [of _ i]) (use new' rest others W(6) in auto)
qed (rule winner_keep_sig [OF startD(5) [OF inv]]; auto simp: go_def split: if_splits)+

lemma finish_inv:
  assumes inv: "start_inv n dat s" and st: "started s \<noteq> 0"
  shows "start_inv n dat (s\<lparr>visible := False, deleted := True\<rparr>)"
proof -
  let ?s = "s\<lparr>visible := False, deleted := True\<rparr>"
  have "control_ok n ?s" using startD(1) [OF inv] unfolding control_ok_def by simp
  moreover have "signals_ok n ?s" using startD(2) [OF inv] unfolding signals_ok_def by (simp add: waiting_def)
  moreover have "count_ok n ?s" using startD(3) [OF inv] unfolding count_ok_def by simp
  moreover have "slots_ok n dat ?s" using startD(4) [OF inv] unfolding slots_ok_def by simp
  moreover have "winner_ok n ?s" using startD(5) [OF inv] st unfolding winner_ok_def by auto
  ultimately show ?thesis by (simp add: start_inv_def)
qed

lemma start_step_inv:
  assumes inv: "start_inv n dat s" and st: "start_step n dat s s'" and n: "n + 1 < 2 ^ 32"
  shows "start_inv n dat s'"
  using st
proof cases
  case by_maker
  have "control_ok n s'" "signals_ok n s'" "count_ok n s'" "slots_ok n dat s'"
    by (rule maker_control [OF inv by_maker] maker_signals [OF inv by_maker] maker_count [OF inv by_maker n]
        maker_slots [OF inv by_maker])+
  then show ?thesis using maker_winner [OF inv by_maker] by (simp add: start_inv_def)
next
  case (by_signal i)
  show ?thesis
    unfolding start_inv_def
    by (intro conjI signal_control [OF inv by_signal] signal_signals [OF inv by_signal]
        signal_count [OF inv by_signal] signal_slots [OF inv by_signal] signal_winner [OF inv by_signal])
next
  case finish
  then show ?thesis using finish_inv [OF inv] by simp
qed

lemma start_steps_inv:
  assumes "(start_step n dat)\<^sup>*\<^sup>* start_init s" "n + 1 < 2 ^ 32"
  shows "start_inv n dat s"
  using assms(1)
proof (induction rule: rtranclp_induct)
  case base
  show ?case by (rule start_init_inv)
next
  case (step y z)
  then show ?case using start_step_inv assms(2) by blast
qed

section \<open>Progress\<close>

text \<open>
  The steps the creator has left, apart from those for parked signals, and the steps a
  signalling thread has left while the visibility of the task and the writer lock stay
  as they are.
\<close>

fun maker_left :: "mk_pc \<Rightarrow> nat" where
  "maker_left C_Fill = 2007" | "maker_left C_Insert = 2006"
| "maker_left (F_Cas k) = 5 + 2 * (MAX_RETRIES - k)" | "maker_left (F_Readers k) = 4 + 2 * (MAX_RETRIES - k)"
| "maker_left (R_Signal i) = 6" | "maker_left (R_Sub i) = 5" | "maker_left R_Ready = 4" | "maker_left F_Loop = 3"
| "maker_left C_Sub = 2" | "maker_left C_Ready = 1" | "maker_left C_Done = 0"

fun sig_left :: "bool \<Rightarrow> bool \<Rightarrow> sig_pc \<Rightarrow> nat" where
  "sig_left v w S_Start = (if v then 4 else 11)" | "sig_left v w S_Write = 3" | "sig_left v w S_Sub = 2"
| "sig_left v w S_Ready = 1" | "sig_left v w S_Park = (if v then 5 else 10)"
| "sig_left v w A_Try = (if w then 5 else 9)" | "sig_left v w A_Inc = 8" | "sig_left v w A_Check = 7"
| "sig_left v w A_Dec = (if w then 6 else 10)" | "sig_left v w A_Fired = 6" | "sig_left v w A_Put = 2"
| "sig_left v w (A_Unlock b) = (if b then 1 else if v then 5 else 12)" | "sig_left v w S_Done = 0"

definition weight :: "nat \<Rightarrow> nat" where
  "weight n = 12 * n + 1"

definition thread_left :: "nat \<Rightarrow> start_sys \<Rightarrow> nat \<Rightarrow> nat" where
  "thread_left n s i = sig_left (visible s) (writer s) (sig s i) + (if holds (sig s i) then 4 * weight n else 0)"

definition steps_left :: "nat \<Rightarrow> start_sys \<Rightarrow> nat" where
  "steps_left n s =
     weight n * (maker_left (maker s) + 4 * length (parked s) + (if deleted s then 0 else 1)) +
     (\<Sum>i<n. thread_left n s i)"

lemma sig_left_le: "sig_left v w c \<le> 12"
  by (cases "(v, w, c)" rule: sig_left.cases) auto

lemma sum_holds_le:
  "(\<Sum>i<n. thread_left n s i) \<le> 12 * n + (\<Sum>i<n. if holds (sig s i) then 4 * weight n else 0)"
proof -
  have "(\<Sum>i<n. thread_left n s i) \<le> (\<Sum>i<n. 12 + (if holds (sig s i) then 4 * weight n else 0))"
    by (rule sum_mono) (simp add: thread_left_def sig_left_le)
  then show ?thesis by (simp add: sum.distrib)
qed

text \<open>A step of the creator or of the task outweighs what it changes for the threads.\<close>

lemma outer_step_left:
  assumes "sig s' = sig s"
    and "maker_left (maker s') + 4 * length (parked s') + (if deleted s' then 0 else 1)
       < maker_left (maker s) + 4 * length (parked s) + (if deleted s then 0 else (1 :: nat))"
  shows "steps_left n s' < steps_left n s"
proof -
  let ?h = "\<Sum>i<n. if holds (sig s i) then 4 * weight n else (0 :: nat)"
  let ?a = "\<lambda>s. maker_left (maker s) + 4 * length (parked s) + (if deleted s then 0 else 1)"
  have "weight n * (?a s' + 1) \<le> weight n * ?a s" using assms(2) by (intro mult_le_mono2) simp
  then have "weight n * ?a s' + weight n \<le> weight n * ?a s" by (simp add: distrib_left)
  moreover have "(\<Sum>i<n. thread_left n s' i) \<le> 12 * n + ?h" using sum_holds_le [of n s'] assms(1) by simp
  moreover have "?h \<le> (\<Sum>i<n. thread_left n s i)" by (rule sum_mono) (simp add: thread_left_def)
  moreover have "12 * n < weight n" by (simp add: weight_def)
  ultimately show ?thesis unfolding steps_left_def by linarith
qed

lemma inner_step_left:
  assumes "i < n" "\<And>j. j \<noteq> i \<Longrightarrow> sig s' j = sig s j" "visible s' = visible s" "writer s' = writer s"
    "maker s' = maker s" "deleted s' = deleted s"
    and dec: "thread_left n s' i + weight n * (4 * length (parked s')) < thread_left n s i + weight n * (4 * length (parked s))"
  shows "steps_left n s' < steps_left n s"
proof -
  have rest: "(\<Sum>j\<in>{..<n} - {i}. thread_left n s' j) = (\<Sum>j\<in>{..<n} - {i}. thread_left n s j)"
    by (rule sum.cong) (simp_all add: thread_left_def assms(2-4))
  have "(\<Sum>j<n. thread_left n s' j) = thread_left n s' i + (\<Sum>j\<in>{..<n} - {i}. thread_left n s j)"
    "(\<Sum>j<n. thread_left n s j) = thread_left n s i + (\<Sum>j\<in>{..<n} - {i}. thread_left n s j)"
    using assms(1) rest by (simp_all add: sum.remove [of "{..<n}" i])
  then show ?thesis using dec unfolding steps_left_def assms(5,6) by (simp add: distrib_left)
qed

text \<open>The attempts stay within their bound.\<close>

lemma attempts_bound:
  assumes "(start_step n dat)\<^sup>*\<^sup>* start_init s"
  shows "maker s = F_Readers k \<Longrightarrow> k < MAX_RETRIES"
  using assms
proof (induction arbitrary: k rule: rtranclp_induct)
  case base
  then show ?case by (simp add: start_init_def)
next
  case (step y z)
  from step.hyps(2) step.IH step.prems show ?case
    by cases (auto elim!: maker_step.cases signal_step.cases simp: go_def count_down_eq split: if_splits)
qed

lemma maker_step_left:
  assumes "maker_step n dat s s'" "\<And>k. maker s = F_Readers k \<Longrightarrow> k < MAX_RETRIES"
  shows "steps_left n s' < steps_left n s"
proof -
  have "sig s' = sig s \<and> maker_left (maker s') + 4 * length (parked s') + (if deleted s' then 0 else 1)
       < maker_left (maker s) + 4 * length (parked s) + (if deleted s then 0 else (1 :: nat))"
    using assms(1) by cases (auto simp: count_down_eq dest: assms(2))
  then show ?thesis by (intro outer_step_left) simp_all
qed

lemma signal_step_left:
  assumes inv: "start_inv n dat s" and i: "i < n" and st: "signal_step dat i s s'"
  shows "steps_left n s' < steps_left n s"
proof -
  note C = controlD [OF startD(1) [OF inv]]
  have vis: "visible s" if "writer s \<or> isfired s" "holds (sig s i)"
  proof -
    have "inserted (maker s)" using that(1) C(2,6) by (cases "maker s") auto
    moreover have "\<not> deleted s" by (rule not_zero(4) [OF inv i holding(1) [OF inv i that(2)]])
    ultimately show ?thesis using C(1) by simp
  qed
  have same: "visible s' = visible s \<and> writer s' = writer s \<and> maker s' = maker s \<and> deleted s' = deleted s \<and>
    (\<forall>j. j \<noteq> i \<longrightarrow> sig s' j = sig s j)"
    using st by cases (auto simp: go_def count_down_eq)
  have "thread_left n s' i + weight n * (4 * length (parked s')) < thread_left n s i + weight n * (4 * length (parked s))"
    using st by cases (use vis in \<open>auto simp: thread_left_def go_def count_down_eq algebra_simps\<close>)
  then show ?thesis using same i by (intro inner_step_left [of i]) simp_all
qed

lemma start_step_left:
  assumes "(start_step n dat)\<^sup>*\<^sup>* start_init s" "start_step n dat s s'" "n + 1 < 2 ^ 32"
  shows "steps_left n s' < steps_left n s"
  using assms(2)
proof cases
  case by_maker
  then show ?thesis by (rule maker_step_left) (rule attempts_bound [OF assms(1)])
next
  case (by_signal i)
  then show ?thesis by (rule signal_step_left [OF start_steps_inv [OF assms(1,3)]])
next
  case finish
  then show ?thesis by (intro outer_step_left) simp_all
qed

lemma run_length:
  assumes "(start_step n dat ^^ k) start_init s" "n + 1 < 2 ^ 32"
  shows "k + steps_left n s \<le> steps_left n start_init"
  using assms(1)
proof (induction k arbitrary: s)
  case (Suc k)
  then obtain y where y: "(start_step n dat ^^ k) start_init y" "start_step n dat y s" by auto
  have "(start_step n dat)\<^sup>*\<^sup>* start_init y" using y(1) by (rule relpowp_imp_rtranclp)
  from start_step_left [OF this y(2) assms(2)] Suc.IH [OF y(1)] show ?case by simp
qed simp

lemma steps_left_init: "steps_left n start_init = weight n * 2008 + n * (11 + 4 * weight n)"
  by (simp add: steps_left_def thread_left_def start_init_def)

text \<open>A step is possible until every thread is done and a started task has run.\<close>

lemma maker_can_step:
  assumes inv: "start_inv n dat s" and c: "maker s \<noteq> C_Done"
  shows "\<exists>s'. maker_step n dat s s'"
proof (cases "maker s")
  case (F_Cas k)
  then show ?thesis
    using maker_step.lock [OF F_Cas] maker_step.lock_taken [OF F_Cas] maker_step.give_up [OF F_Cas] not_le by blast
next
  case (F_Readers k)
  then show ?thesis using maker_step.readers_in [OF F_Readers] maker_step.fire [OF F_Readers] by blast
next
  case F_Loop
  then show ?thesis using maker_step.replay [OF F_Loop] maker_step.unlock [OF F_Loop] by (cases "parked s") blast+
next
  case (R_Signal i)
  then have "visible s" using not_sent(4) [OF inv] controlD(1) [OF startD(1) [OF inv]] by simp
  then show ?thesis using maker_step.replay_slot [OF R_Signal] by blast
next
  case (R_Sub i)
  then show ?thesis using maker_step.replay_count [OF R_Sub] by (metis surj_pair)
next
  case C_Sub
  then show ?thesis using maker_step.sentinel [OF C_Sub] by (metis surj_pair)
next
  case R_Ready
  then show ?thesis by (intro exI) (rule maker_step.replay_ready)
next
  case C_Ready
  then show ?thesis by (intro exI) (rule maker_step.maker_ready)
next
  case C_Fill
  then show ?thesis by (intro exI) (rule maker_step.fill)
next
  case C_Insert
  then show ?thesis by (intro exI) (rule maker_step.insert)
qed (use c in simp)

lemma signal_can_step:
  assumes "sig s i \<noteq> S_Done"
  shows "\<exists>s'. signal_step dat i s s'"
proof (cases "sig s i")
  case S_Start
  then show ?thesis using signal_step.found [OF S_Start] signal_step.missing [OF S_Start] by (cases "visible s") blast+
next
  case S_Park
  then show ?thesis using signal_step.available [OF S_Park] signal_step.reserved [OF S_Park] by (cases "visible s") blast+
next
  case A_Try
  then show ?thesis using signal_step.firing [OF A_Try] signal_step.free [OF A_Try] by (cases "writer s") blast+
next
  case A_Check
  then show ?thesis using signal_step.back_out [OF A_Check] signal_step.inside [OF A_Check] by (cases "writer s") blast+
next
  case A_Fired
  then show ?thesis using signal_step.too_late [OF A_Fired] signal_step.in_time [OF A_Fired] by (cases "isfired s") blast+
next
  case S_Write
  show ?thesis by (rule exI) (rule signal_step.slot [OF S_Write])
next
  case S_Ready
  show ?thesis by (rule exI) (rule signal_step.ready [OF S_Ready])
next
  case A_Inc
  show ?thesis by (rule exI) (rule signal_step.enter [OF A_Inc])
next
  case A_Dec
  show ?thesis by (rule exI) (rule signal_step.again [OF A_Dec])
next
  case A_Put
  show ?thesis by (rule exI) (rule signal_step.park [OF A_Put])
next
  case (A_Unlock b)
  show ?thesis by (rule exI) (rule signal_step.leave [OF A_Unlock])
next
  case S_Sub
  then show ?thesis using signal_step.count [OF S_Sub] by (metis surj_pair)
qed (use assms in simp)

lemma stuck_done:
  assumes inv: "start_inv n dat s" and stuck: "\<nexists>s'. start_step n dat s s'"
  shows "maker s = C_Done" "i < n \<Longrightarrow> sig s i = S_Done" "started s \<noteq> 0 \<Longrightarrow> deleted s"
  using stuck maker_can_step [OF inv] signal_can_step start_step.intros by metis+

lemma stuck_started:
  assumes inv: "start_inv n dat s" and stuck: "\<nexists>s'. start_step n dat s s'" and "\<not> gave_up s"
  shows "started s = 1" "deleted s"
proof -
  note D = stuck_done [OF inv stuck] and W = winnerD [OF startD(5) [OF inv]]
  have "parked s = []" using controlD(9) [OF startD(1) [OF inv]] D(1) assms(3) by simp
  then have "waiting s = []" using D(1) by (simp add: waiting_def)
  then have "counted s = {..<n}" using startD(2) [OF inv] D(2) by (fastforce simp: signals_ok_def)
  then have "unat (needed s) = 0" using startD(3) [OF inv] D(1) by (simp add: count_ok_def)
  then have "needed s = 0" by (simp add: unat_eq_zero)
  then obtain j where "winner s = Some j" using W(1) D(1) by auto
  then have "started s = 0 \<Longrightarrow> j < n \<and> sig s j = S_Ready" using W(7) [of j] D(1) by simp
  then have "started s \<noteq> 0" using D(2) [of j] by (cases "started s = 0") auto
  then show "started s = 1" "deleted s" using W(2) D(3) by simp_all
qed

text \<open>The creator cannot take the lock while a reader stays inside: it uses up its attempts.\<close>

definition reader_inside :: "nat \<Rightarrow> start_sys" where
  "reader_inside k = start_init\<lparr>needed := 2, visible := True, readers := {0}, maker := F_Cas k,
     sig := (\<lambda>_. S_Start)(0 := A_Put)\<rparr>"

lemma reach_reader_inside: "(start_step 1 dat)\<^sup>*\<^sup>* start_init (reader_inside 0)"
proof -
  let ?g = "\<lambda>c. go 0 c start_init"
  let ?r = "\<lambda>c. go 0 c (start_init\<lparr>readers := {0}\<rparr>)"
  have go_sig [simp]: "sig (go i c s) i = c" for i c s by (simp add: go_def)
  have st: "signal_step dat 0 s s' \<Longrightarrow> start_step 1 dat s s'" for s s' by (rule by_signal) simp_all
  have "start_step 1 dat start_init (?g S_Park)" by (rule st [OF missing]) (simp_all add: start_init_def)
  moreover have "start_step 1 dat (?g S_Park) (?g A_Try)"
    using st [OF reserved [of "?g S_Park" 0 dat]] by (simp add: start_init_def go_def)
  moreover have "start_step 1 dat (?g A_Try) (?g A_Inc)"
    using st [OF free [of "?g A_Try" 0 dat]] by (simp add: start_init_def go_def)
  moreover have "start_step 1 dat (?g A_Inc) (?r A_Check)"
    using st [OF enter [of "?g A_Inc" 0 dat]] by (simp add: start_init_def go_def)
  moreover have "start_step 1 dat (?r A_Check) (?r A_Fired)"
    using st [OF inside [of "?r A_Check" 0 dat]] by (simp add: start_init_def go_def)
  moreover have "start_step 1 dat (?r A_Fired) (?r A_Put)"
    using st [OF in_time [of "?r A_Fired" 0 dat]] by (simp add: start_init_def go_def)
  moreover have "start_step 1 dat (?r A_Put) ((?r A_Put)\<lparr>needed := 2, maker := C_Insert\<rparr>)"
    using by_maker [OF fill [of "?r A_Put" 1 dat]] by (simp add: start_init_def go_def)
  moreover have "start_step 1 dat ((?r A_Put)\<lparr>needed := 2, maker := C_Insert\<rparr>) (reader_inside 0)"
    using by_maker [OF maker_step.insert [of "(?r A_Put)\<lparr>needed := 2, maker := C_Insert\<rparr>" 1 dat]]
    by (simp add: start_init_def go_def reader_inside_def)
  ultimately show ?thesis by (meson rtranclp.intros)
qed

lemma attempts_fail:
  assumes "k \<le> MAX_RETRIES"
  shows "(start_step 1 dat)\<^sup>*\<^sup>* (reader_inside 0) (reader_inside k)"
  using assms
proof (induction k)
  case (Suc k)
  let ?l = "(reader_inside k)\<lparr>writer := True, maker := F_Readers k\<rparr>"
  have "start_step 1 dat (reader_inside k) ?l"
    using Suc.prems by (intro by_maker lock) (simp_all add: reader_inside_def start_init_def)
  moreover have "start_step 1 dat ?l (reader_inside (Suc k))"
    using by_maker [OF readers_in [of ?l k 1 dat]] by (simp add: reader_inside_def start_init_def)
  ultimately show ?case using Suc by (meson Suc_leD rtranclp.rtrancl_into_rtrancl)
qed simp

definition left_behind :: start_sys where
  "left_behind = (reader_inside MAX_RETRIES)\<lparr>needed := 1, readers := {}, parked := [0], maker := C_Done,
     sig := (\<lambda>_. S_Start)(0 := S_Done), gave_up := True\<rparr>"

lemma signal_left_behind:
  assumes s: "s = reader_inside MAX_RETRIES"
  shows "(start_step 1 dat)\<^sup>*\<^sup>* s left_behind"
proof -
  let ?a = "s\<lparr>gave_up := True, maker := C_Sub\<rparr>"
  let ?b = "s\<lparr>needed := 1, gave_up := True, maker := C_Done\<rparr>"
  let ?c = "?b\<lparr>parked := [0], sig := (\<lambda>_. S_Start)(0 := A_Unlock True)\<rparr>"
  have st: "signal_step dat 0 s s' \<Longrightarrow> start_step 1 dat s s'" for s s' by (rule by_signal) simp_all
  have "start_step 1 dat s ?a" by (rule by_maker [OF give_up [of s MAX_RETRIES]]) (simp_all add: s reader_inside_def)
  moreover have "start_step 1 dat ?a ?b"
    using by_maker [OF sentinel [OF _ count_down_eq, where s = ?a and n = 1 and dat = dat]] by (simp add: s reader_inside_def start_init_def count_down_eq)
  moreover have "start_step 1 dat ?b ?c"
    using st [OF park [of ?b 0 dat]] by (simp add: s reader_inside_def start_init_def go_def)
  moreover have "start_step 1 dat ?c left_behind"
    using st [OF leave [of ?c 0 True dat]] by (simp add: s left_behind_def reader_inside_def start_init_def go_def)
  ultimately show ?thesis by (meson rtranclp.intros)
qed

text \<open>A run with one slot: the task is created first, then signalled, started and deleted.\<close>

definition created_task :: start_sys where
  "created_task = start_init\<lparr>needed := 1, visible := True, isfired := True, maker := C_Done\<rparr>"

definition finished_task :: "arts_guid_t \<Rightarrow> start_sys" where
  "finished_task g = created_task\<lparr>needed := 0, slots := (\<lambda>_. None)(0 := Some g), visible := False,
     sig := (\<lambda>_. S_Start)(0 := S_Done), started := 1, deleted := True, counted := {0}, winner := Some 0\<rparr>"

lemma reach_created: "(start_step 1 dat)\<^sup>*\<^sup>* start_init created_task"
proof -
  let ?a = "start_init\<lparr>needed := 2, maker := C_Insert\<rparr>"
  let ?b = "?a\<lparr>visible := True, maker := F_Cas 0\<rparr>"
  let ?c = "?b\<lparr>writer := True, maker := F_Readers 0\<rparr>"
  let ?d = "?c\<lparr>isfired := True, maker := F_Loop\<rparr>"
  let ?e = "?d\<lparr>writer := False, maker := C_Sub\<rparr>"
  have "start_step 1 dat start_init ?a" using by_maker [OF fill [of start_init 1 dat]] by (simp add: start_init_def)
  moreover have "start_step 1 dat ?a ?b" by (intro by_maker maker_step.insert) simp
  moreover have "start_step 1 dat ?b ?c" by (intro by_maker lock) (simp_all add: start_init_def)
  moreover have "start_step 1 dat ?c ?d" by (intro by_maker fire) (simp_all add: start_init_def)
  moreover have "start_step 1 dat ?d ?e" by (intro by_maker unlock) (simp_all add: start_init_def)
  moreover have "start_step 1 dat ?e created_task"
    using by_maker [OF sentinel [OF _ count_down_eq, where s = ?e and n = 1 and dat = dat]] by (simp add: start_init_def count_down_eq created_task_def)
  ultimately show ?thesis by (meson rtranclp.intros)
qed

lemma reach_finished: "(start_step 1 dat)\<^sup>*\<^sup>* created_task (finished_task (dat 0))"
proof -
  let ?a = "go 0 S_Write created_task"
  let ?b = "go 0 S_Sub (created_task\<lparr>slots := (\<lambda>_. None)(0 := Some (dat 0))\<rparr>)"
  let ?c = "go 0 S_Ready (?b\<lparr>needed := 0, counted := {0}, winner := Some 0\<rparr>)"
  let ?d = "go 0 S_Done (?c\<lparr>started := 1\<rparr>)"
  note defs = created_task_def start_init_def go_def count_down_eq
  have st: "signal_step dat 0 s s' \<Longrightarrow> start_step 1 dat s s'" for s s' by (rule by_signal) simp_all
  have "start_step 1 dat created_task ?a" by (rule st [OF found]) (simp_all add: defs)
  moreover have "start_step 1 dat ?a ?b" using st [OF slot [of ?a 0 dat]] by (simp add: defs)
  moreover have "start_step 1 dat ?b ?c" using st [OF count [of ?b 0 _ _ dat]] by (simp add: defs)
  moreover have "start_step 1 dat ?c ?d" using st [OF ready [of ?c 0 dat]] by (simp add: defs)
  moreover have "start_step 1 dat ?d (finished_task (dat 0))"
    using finish [of ?d 1 dat] by (simp add: defs finished_task_def)
  ultimately show ?thesis by (meson rtranclp.intros)
qed

lemma finished_stuck: "\<nexists>s'. start_step 1 dat (finished_task g) s'"
  by (auto simp: finished_task_def created_task_def elim!: start_step.cases maker_step.cases signal_step.cases)

section \<open>Properties\<close>



text \<open>
  C4.  The start of a task comes to an end: every run of the creator and the signalling
  threads is finite, with a bound that depends on the number of slots only, and a run that
  cannot go on has started, run and deleted the task, unless the creator used up its
  attempts to take the lock of the out-of-order list.
\<close>

theorem edt_start_completes:
  assumes run: "(start_step n dat ^^ k) start_init s" and n: "n + 1 < 2 ^ 32"
  shows "k \<le> weight n * 2008 + n * (11 + 4 * weight n) \<and>
    ((\<nexists>s'. start_step n dat s s') \<and> \<not> gave_up s \<longrightarrow> started s = 1 \<and> deleted s)"
proof -
  have inv: "start_inv n dat s" by (rule start_steps_inv [OF relpowp_imp_rtranclp [OF run] n])
  show ?thesis using run_length [OF run n] stuck_started [OF inv] by (simp add: steps_left_init)
qed

theorem edt_start_completes_witness:
  "\<exists>k. (start_step 1 (\<lambda>_. 7) ^^ k) start_init (finished_task 7) \<and>
     k \<le> weight 1 * 2008 + 1 * (11 + 4 * weight 1) \<and> started (finished_task 7) = 1 \<and> deleted (finished_task 7)"
proof -
  have "(start_step 1 (\<lambda>_. 7))\<^sup>*\<^sup>* start_init (finished_task 7)"
    using reach_created reach_finished [of "\<lambda>_. 7"] by (rule rtranclp_trans)
  then obtain k where k: "(start_step 1 (\<lambda>_. 7) ^^ k) start_init (finished_task 7)"
    using rtranclp_imp_relpowp by metis
  have "\<not> gave_up (finished_task 7)" by (simp add: finished_task_def created_task_def start_init_def)
  then show ?thesis using k edt_start_completes [OF k] finished_stuck by auto
qed

text \<open>
  C39.  A creator that uses up its attempts loses a signal: a run exists in which the only
  signal of a task is parked while the creator gives up, after which all threads are done
  and the task stays in the route table and is never started.
\<close>

theorem fire_gives_up_loses_signal:
  "\<exists>s. (start_step 1 dat)\<^sup>*\<^sup>* start_init s \<and> (\<nexists>s'. start_step 1 dat s s') \<and>
     visible s \<and> started s = 0 \<and> parked s = [0] \<and> slots s 0 = None"
proof -
  have "(start_step 1 dat)\<^sup>*\<^sup>* start_init left_behind"
    using reach_reader_inside attempts_fail [of MAX_RETRIES] signal_left_behind [OF refl] by (meson order_refl rtranclp_trans)
  moreover have "\<nexists>s'. start_step 1 dat left_behind s'"
    by (auto simp: left_behind_def reader_inside_def start_init_def elim!: start_step.cases maker_step.cases signal_step.cases)
  moreover have "visible left_behind \<and> started left_behind = 0 \<and> parked left_behind = [0] \<and> slots left_behind 0 = None"
    by (simp add: left_behind_def reader_inside_def start_init_def)
  ultimately show ?thesis by blast
qed

end
