(* ===== verification/Transport.thy ===== *)
theory Transport
  imports Prelude
begin

text \<open>
  Messages between ranks as streams of bytes: the outbound queues of
  \<^verbatim>\<open>transport/protocol.c\<close>, and the send and receive calls of \<^verbatim>\<open>transport/socket.c\<close> in the
  build for TCP.  A message is queued, sent in as many pieces as the socket takes, and put
  together again at the receiver by the size in its header.  What the socket does at each
  call is an arbitrary script.
\<close>

section \<open>Packets\<close>

text \<open>The packed header: type, size, rank and two time stamps, in 32 bytes, least byte first.\<close>

abbreviation HEADER_SIZE :: nat where "HEADER_SIZE \<equiv> 32"

fun le_bytes :: "nat \<Rightarrow> nat \<Rightarrow> u8 list" where
  "le_bytes 0 v = []"
| "le_bytes (Suc n) v = of_nat (v mod 256) # le_bytes n (v div 256)"

fun le_value :: "u8 list \<Rightarrow> nat" where
  "le_value [] = 0"
| "le_value (b # bs) = unat b + 256 * le_value bs"

definition packet_size :: "u8 list \<Rightarrow> nat" where
  "packet_size p = le_value (take 8 (drop 4 p))"

definition arts_fill_packet_header :: "u32 \<Rightarrow> u8 list \<Rightarrow> u64 \<Rightarrow> u32 \<Rightarrow> u8 list" where
  "arts_fill_packet_header arts_global_rank_id p sz message_type =
     le_bytes 4 (unat message_type) @ le_bytes 8 (unat sz) @ le_bytes 4 (unat arts_global_rank_id) @ drop 16 p"

section \<open>Sockets\<close>

text \<open>
  What one send or receive does: it moves up to so many bytes, would block, or fails; a
  receive may also find the connection closed.  A call moves at most \<open>MAX_RW\<close> bytes.  A script
  that is used up blocks.  The connection holds the bytes that were sent and not received.
\<close>

datatype send_result = Sent nat | S_Block | S_Error
datatype recv_result = Got nat | R_Block | R_Eof | R_Error

abbreviation MAX_RW :: nat where "MAX_RW \<equiv> 2147479552"

record connection =
  wire :: "u8 list"
  send_script :: "send_result list"
  connects :: "bool list"
  recv_script :: "recv_result list"
  stopped :: bool

definition RSEND :: "u8 list \<Rightarrow> connection \<Rightarrow> connection \<times> send_result" where
  "RSEND bytes c =
     (case send_script c of
        [] \<Rightarrow> (c, S_Block)
      | Sent k # ss \<Rightarrow>
          let n = min k (min MAX_RW (length bytes))
          in (c\<lparr>wire := wire c @ take n bytes, send_script := ss\<rparr>, Sent n)
      | r # ss \<Rightarrow> (c\<lparr>send_script := ss\<rparr>, r))"

text \<open>A receive into so much space; a receive that moves bytes moves at least one.\<close>

definition RRECV :: "nat \<Rightarrow> connection \<Rightarrow> connection \<times> recv_result \<times> u8 list" where
  "RRECV space c =
     (case recv_script c of
        [] \<Rightarrow> (c, R_Block, [])
      | Got k # rs \<Rightarrow>
          if wire c = [] then (c\<lparr>recv_script := rs\<rparr>, R_Block, [])
          else let n = min (max 1 k) (min MAX_RW (min space (length (wire c))))
               in (c\<lparr>wire := drop n (wire c), recv_script := rs\<rparr>, (if n = 0 then R_Eof else Got n), take n (wire c))
      | r # rs \<Rightarrow> (c\<lparr>recv_script := rs\<rparr>, r, []))"

section \<open>Sending\<close>

text \<open>
  The loop of \<^verbatim>\<open>arts_actual_send\<close>.  The result is what is left to send, or -1 with the runtime
  told to stop.
\<close>

function send_loop :: "u64 \<Rightarrow> u32 \<Rightarrow> u8 list \<Rightarrow> u64 \<Rightarrow> u64 \<Rightarrow> nat \<Rightarrow> connection \<Rightarrow> (connection \<times> u64) res" where
  "send_loop max_bytes max_iters message tot len iterations c =
     (if len = 0 then Inr (c, 0)
      else if length message < unat tot + unat len then Inl Out_Of_Bounds
      else case RSEND (take (unat len) (drop (unat tot) message)) c of
             (c, Sent n) \<Rightarrow>
               if n = 0 then Inr (c\<lparr>stopped := True\<rparr>, -1)
               else let tot = tot + of_nat n; len = len - of_nat n; iterations = Suc iterations in
                    if len \<noteq> 0 \<and> max_bytes \<noteq> 0 \<and> max_bytes \<le> tot then Inr (c, len)
                    else if len \<noteq> 0 \<and> max_iters \<noteq> 0 \<and> unat max_iters \<le> iterations then Inr (c, len)
                    else if 1000000 < iterations then Inr (c, len)
                    else send_loop max_bytes max_iters message tot len iterations c
           | (c, S_Block) \<Rightarrow> Inr (c, len)
           | (c, S_Error) \<Rightarrow> Inr (c\<lparr>stopped := True\<rparr>, -1))"
  by pat_completeness auto

lemma RSEND_Sent:
  assumes "RSEND bytes c = (c', Sent n)"
  shows "n \<le> length bytes" "wire c' = wire c @ take n bytes" "stopped c' = stopped c" "n < 2 ^ 31"
  using assms by (auto simp: RSEND_def Let_def split: list.splits send_result.splits)

lemma sent_less:
  assumes "0 < n" "n \<le> unat (len :: u64)"
  shows "unat (len - of_nat n) = unat len - n"
proof -
  have "unat (of_nat n :: u64) = n"
    using assms(2) by (intro unat_of_nat_lt order_le_less_trans [OF assms(2)] order_less_le_trans [OF unsigned_less]) simp
  then show ?thesis using assms by (simp add: unat_sub_le)
qed

lemma sent_shrinks:
  assumes "(c', Sent n) = RSEND (take (unat len) bs) c" "0 < n" "(len :: u64) \<noteq> 0"
  shows "unat (len - of_nat n) < unat len"
proof -
  have "n \<le> unat len" using RSEND_Sent(1) [OF assms(1) [symmetric]] by simp
  then show ?thesis using assms(2) by (simp add: sent_less)
qed

termination send_loop
  by (relation "measure (\<lambda>(_, _, _, _, len, _, _). unat len)") (simp_all add: sent_shrinks)

declare send_loop.simps [simp del]

definition arts_actual_send :: "u64 \<Rightarrow> u32 \<Rightarrow> u8 list \<Rightarrow> u64 \<Rightarrow> connection \<Rightarrow> (connection \<times> u64) res" where
  "arts_actual_send max_bytes max_iters message len c = send_loop max_bytes max_iters message 0 len 0 c"

text \<open>Whether a connection is up before a send: the next entry of its script.\<close>

definition connected :: "connection \<Rightarrow> connection \<times> bool" where
  "connected c = (case connects c of [] \<Rightarrow> (c, True) | b # bs \<Rightarrow> (c\<lparr>connects := bs\<rparr>, b))"

record send_limits =
  max_bytes :: u64
  max_iters :: u32

definition arts_remote_send_request :: "send_limits \<Rightarrow> u8 list \<Rightarrow> u64 \<Rightarrow> connection \<Rightarrow> (connection \<times> u64) res" where
  "arts_remote_send_request m message len c =
     (case connected c of
        (c, up) \<Rightarrow> if up then arts_actual_send (max_bytes m) (max_iters m) message len c else Inr (c, len))"

definition arts_remote_send_payload_request ::
  "send_limits \<Rightarrow> u8 list \<Rightarrow> u32 \<Rightarrow> u8 list \<Rightarrow> u64 \<Rightarrow> connection \<Rightarrow> (connection \<times> u64) res" where
  "arts_remote_send_payload_request m message len payload len2 c =
     (case connected c of
        (c, up) \<Rightarrow>
          if up then
            rbind (arts_actual_send (max_bytes m) (max_iters m) message (ucast len) c) (\<lambda>(c, temp_length).
              if temp_length \<noteq> 0 then Inr (c, temp_length + len2)
              else arts_actual_send (max_bytes m) (max_iters m) payload len2 c)
          else Inr (c, ucast len + len2))"

section \<open>Outbound queues\<close>

text \<open>
  A queued message: its own copy of the bytes, and for a payload the address and the bytes
  behind it.  \<open>frees\<close> tells whether there is a function to free the payload.
\<close>

record out_list =
  offset :: u32
  len :: u32
  message :: "u8 list"
  payload :: "(nat \<times> u8 list) option"
  payloadSize :: u64
  offsetPayload :: u32
  frees :: bool

definition out_pending_length :: "out_list \<Rightarrow> u64" where
  "out_pending_length out = ucast (len out) + (if payload out \<noteq> None then payloadSize out else 0)"

definition partial_send_store :: "out_list \<Rightarrow> u64 \<Rightarrow> out_list" where
  "partial_send_store out length_remaining =
     (if payload out = None then
        out\<lparr>offset := ucast (ucast (offset out) + (ucast (len out) - length_remaining)),
            len := ucast length_remaining\<rparr>
      else let sent = ucast (len out) + payloadSize out - length_remaining in
        if ucast (len out) \<le> sent then
          out\<lparr>len := 0,
              offsetPayload := ucast (ucast (offsetPayload out) + (payloadSize out - length_remaining)),
              payloadSize := length_remaining\<rparr>
        else
          out\<lparr>offset := ucast (ucast (offset out) + (ucast (len out) - (length_remaining - payloadSize out))),
              len := ucast (length_remaining - payloadSize out)\<rparr>)"

text \<open>
  One queue and the connection it feeds: the messages that wait, the one that was sent in
  part, and the payloads that were freed.
\<close>

record out_queue =
  waiting :: "out_list list"
  out_resend :: "out_list option"
  freed :: "nat list"
  conn :: connection

definition out_pop_node :: "out_queue \<Rightarrow> out_queue \<times> out_list option" where
  "out_pop_node q = (case waiting q of [] \<Rightarrow> (q, None) | out # outs \<Rightarrow> (q\<lparr>waiting := outs\<rparr>, Some out))"

definition free_payload :: "out_list \<Rightarrow> out_queue \<Rightarrow> out_queue" where
  "free_payload out q =
     (case payload out of
        Some (a, _) \<Rightarrow> if frees out then q\<lparr>freed := freed q @ [a]\<rparr> else q
      | None \<Rightarrow> q)"

text \<open>The body of the loop of \<^verbatim>\<open>arts_remote_async_send\<close> for one queue: go on, made progress, or give up.\<close>

datatype send_status = Idle | Progress | Abort

definition send_message :: "send_limits \<Rightarrow> out_list \<Rightarrow> connection \<Rightarrow> (connection \<times> u64) res" where
  "send_message m out c =
     (let from = drop (unat (offset out)) (message out) in
      case payload out of
        None \<Rightarrow> arts_remote_send_request m from (ucast (len out)) c
      | Some (_, bytes) \<Rightarrow>
          arts_remote_send_payload_request m from (len out) (drop (unat (offsetPayload out)) bytes) (payloadSize out) c)"

definition send_queue :: "send_limits \<Rightarrow> out_queue \<Rightarrow> (out_queue \<times> send_status) res" where
  "send_queue m q =
     (let (q, picked) = (case out_resend q of Some out \<Rightarrow> (q, Some out) | None \<Rightarrow> out_pop_node q) in
      case picked of
        None \<Rightarrow> Inr (q, Idle)
      | Some out \<Rightarrow>
          rbind (send_message m out (conn q)) (\<lambda>(c, length_remaining).
            let pending_before = out_pending_length out;
                q = q\<lparr>conn := c\<rparr>;
                q = (if length_remaining = 0 then free_payload out q else q)
            in if length_remaining = -1 then Inr ((free_payload out q)\<lparr>out_resend := None\<rparr>, Abort)
               else
                 let q = q\<lparr>out_resend := (if length_remaining \<noteq> 0 then Some (partial_send_store out length_remaining) else None)\<rparr>
                 in Inr (q, if length_remaining < pending_before then Progress else Idle)))"

text \<open>The queues of a rank; \<open>group_pos\<close> is that of the thread that queues a message.\<close>

record tx_node =
  arts_global_rank_id :: u32
  arts_global_rank_count :: u32
  ports :: u32
  queues :: "nat \<Rightarrow> out_queue"

definition new_queue :: out_queue where
  "new_queue = \<lparr>waiting = [], out_resend = None, freed = [],
     conn = \<lparr>wire = [], send_script = [], connects = [], recv_script = [], stopped = False\<rparr>\<rparr>"

definition out_init :: "u32 \<Rightarrow> u32 \<Rightarrow> u32 \<Rightarrow> tx_node" where
  "out_init rank rank_count port_count =
     \<lparr>arts_global_rank_id = rank, arts_global_rank_count = rank_count, ports = port_count, queues = (\<lambda>_. new_queue)\<rparr>"

definition out_queue_id_for_rank :: "u32 \<Rightarrow> u32 \<Rightarrow> tx_node \<Rightarrow> u32 res" where
  "out_queue_id_for_rank group_pos rank t =
     (if ports t = 0 then Inl Div_By_Zero else Inr (rank * ports t + group_pos mod ports t))"

definition out_insert_node :: "u32 \<Rightarrow> u32 \<Rightarrow> out_list \<Rightarrow> tx_node \<Rightarrow> tx_node res" where
  "out_insert_node group_pos rank node t =
     rbind (out_queue_id_for_rank group_pos rank t) (\<lambda>list_id.
       let q = queues t (unat list_id)
       in Inr (t\<lparr>queues := (queues t)(unat list_id := q\<lparr>waiting := waiting q @ [node]\<rparr>)\<rparr>))"

definition self_send_check :: "u32 \<Rightarrow> tx_node \<Rightarrow> bool" where
  "self_send_check rank t \<longleftrightarrow> \<not> (rank = arts_global_rank_id t \<or> arts_global_rank_count t \<le> rank)"

definition size_send_check :: "u64 \<Rightarrow> unit res" where
  "size_send_check sz = (if sz = 0 then Inl ARTS_ERROR else Inr ())"

text \<open>
  A new item with room for the message, and the copy into it.  The size of the item is a
  32-bit number; where it overflows, the copy runs over the end of the item.
\<close>

abbreviation SIZEOF_OUT_LIST :: nat where "SIZEOF_OUT_LIST \<equiv> 56"

definition copy_message :: "u8 list \<Rightarrow> u32 \<Rightarrow> u8 list res" where
  "copy_message msg ln =
     (if length msg < unat ln \<or> 2 ^ 32 \<le> unat ln + SIZEOF_OUT_LIST then Inl Out_Of_Bounds
      else Inr (take (unat ln) msg))"

definition arts_remote_send_request_async :: "u32 \<Rightarrow> u32 \<Rightarrow> u8 list \<Rightarrow> u32 \<Rightarrow> tx_node \<Rightarrow> tx_node res" where
  "arts_remote_send_request_async group_pos rank msg ln t =
     (if \<not> self_send_check rank t then Inr t
      else rbind (copy_message msg ln) (\<lambda>bytes.
        out_insert_node group_pos rank
          \<lparr>offset = 0, len = ln, message = bytes, payload = None, payloadSize = 0, offsetPayload = 0, frees = False\<rparr> t))"

definition arts_remote_send_request_payload_async ::
  "u32 \<Rightarrow> u32 \<Rightarrow> u8 list \<Rightarrow> u32 \<Rightarrow> nat \<times> u8 list \<Rightarrow> u64 \<Rightarrow> tx_node \<Rightarrow> tx_node res" where
  "arts_remote_send_request_payload_async group_pos rank msg ln pl sz t =
     (if \<not> self_send_check rank t then Inr t
      else rbind (size_send_check (ucast ln)) (\<lambda>_. rbind (size_send_check sz) (\<lambda>_.
        rbind (copy_message msg ln) (\<lambda>bytes.
          out_insert_node group_pos rank
            \<lparr>offset = 0, len = ln, message = bytes, payload = Some pl, payloadSize = sz, offsetPayload = 0, frees = False\<rparr> t))))"

definition arts_remote_send_request_payload_async_free ::
  "u32 \<Rightarrow> u32 \<Rightarrow> u8 list \<Rightarrow> u32 \<Rightarrow> nat \<times> u8 list \<Rightarrow> u32 \<Rightarrow> u64 \<Rightarrow> bool \<Rightarrow> tx_node \<Rightarrow> tx_node res" where
  "arts_remote_send_request_payload_async_free group_pos rank msg ln pl off sz free_method t =
     (if \<not> self_send_check rank t then Inr t
      else rbind (size_send_check (ucast ln)) (\<lambda>_. rbind (size_send_check sz) (\<lambda>_.
        rbind (copy_message msg ln) (\<lambda>bytes.
          out_insert_node group_pos rank
            \<lparr>offset = 0, len = ln, message = bytes, payload = Some pl, payloadSize = sz, offsetPayload = off,
              frees = free_method\<rparr> t))))"

text \<open>
  \<^verbatim>\<open>arts_remote_async_send\<close>: rounds over the queues of the sender as long as one makes progress.
  A failed send ends the call.
\<close>

fun send_round :: "send_limits \<Rightarrow> nat list \<Rightarrow> tx_node \<Rightarrow> (tx_node \<times> bool \<times> bool) res" where
  "send_round m [] t = Inr (t, False, False)"
| "send_round m (i # is) t =
     rbind (send_queue m (queues t i)) (\<lambda>(q, st).
       let t = t\<lparr>queues := (queues t)(i := q)\<rparr> in
       if st = Abort then Inr (t, False, True)
       else rbind (send_round m is t) (\<lambda>(t, sent, ab). Inr (t, sent \<or> st = Progress, ab)))"

fun async_loop :: "nat \<Rightarrow> send_limits \<Rightarrow> nat list \<Rightarrow> bool \<Rightarrow> tx_node \<Rightarrow> (tx_node \<times> bool) res" where
  "async_loop 0 m is success t = Inl Out_Of_Fuel"
| "async_loop (Suc fuel) m is success t =
     rbind (send_round m is t) (\<lambda>(t, sent, ab).
       if ab then Inr (t, False)
       else if sent then async_loop fuel m is True t
       else Inr (t, success))"

definition arts_remote_async_send :: "nat \<Rightarrow> send_limits \<Rightarrow> nat \<Rightarrow> nat \<Rightarrow> tx_node \<Rightarrow> (tx_node \<times> bool) res" where
  "arts_remote_async_send fuel m thread_start thread_stop t = async_loop fuel m [thread_start..<thread_stop] False t"

section \<open>Receiving\<close>

text \<open>
  The buffer of one inbound connection, how much of a packet it holds between two calls, the
  packets that were handed to \<^verbatim>\<open>arts_server_process_packet\<close>, whether the connection was closed, and
  whether the runtime was told to stop.
\<close>

record rx_slot =
  bypass_buf :: "u8 list"
  re_recieve_res :: nat
  processed :: "u8 list list"
  closed :: bool
  halted :: bool

abbreviation PACKET_SIZE :: nat where "PACKET_SIZE \<equiv> 4194304"

definition new_slot :: "u8 list \<Rightarrow> rx_slot" where
  "new_slot mem = \<lparr>bypass_buf = take PACKET_SIZE mem, re_recieve_res = 0, processed = [], closed = False, halted = False\<rparr>"

text \<open>A packet is moved to the front of the buffer; bytes are received behind those already there.\<close>

definition to_front :: "nat \<Rightarrow> nat \<Rightarrow> rx_slot \<Rightarrow> rx_slot" where
  "to_front p n r =
     (if p \<noteq> 0 then r\<lparr>bypass_buf := take n (drop p (bypass_buf r)) @ drop n (bypass_buf r)\<rparr> else r)"

definition put_bytes :: "nat \<Rightarrow> u8 list \<Rightarrow> rx_slot \<Rightarrow> rx_slot" where
  "put_bytes i bytes r =
     r\<lparr>bypass_buf := take i (bypass_buf r) @ bytes @ drop (i + length bytes) (bypass_buf r)\<rparr>"

text \<open>
  A loop that receives until \<open>want\<close> bytes of the packet at \<open>p\<close> are there: it has them, stops for
  now with the packet at the front of the buffer, or the connection is closed.
\<close>

datatype fill_result = Full connection rx_slot nat nat | Later connection rx_slot | Closed connection rx_slot

definition arts_close_receive_socket_index :: "rx_slot \<Rightarrow> rx_slot" where
  "arts_close_receive_socket_index r = r\<lparr>re_recieve_res := 0, closed := True\<rparr>"

lemma RRECV_script:
  assumes "RRECV space c = (c', Got n, bytes)"
  shows "length (recv_script c') < length (recv_script c)"
  using assms by (auto simp: RRECV_def Let_def split: list.splits recv_result.splits if_splits)

function fill :: "nat \<Rightarrow> nat \<Rightarrow> nat \<Rightarrow> connection \<Rightarrow> rx_slot \<Rightarrow> fill_result" where
  "fill want p res c r =
     (if want \<le> res then Full c r p res
      else
        case RRECV (length (bypass_buf (to_front p res r)) - res) c of
          (c, Got n, bytes) \<Rightarrow> fill want 0 (res + n) c (put_bytes res bytes (to_front p res r))
        | (c, R_Block, _) \<Rightarrow> Later c ((to_front p res r)\<lparr>re_recieve_res := res\<rparr>)
        | (c, R_Eof, _) \<Rightarrow> Closed c ((arts_close_receive_socket_index (to_front p res r))\<lparr>halted := True\<rparr>)
        | (c, R_Error, _) \<Rightarrow> Closed c ((arts_close_receive_socket_index (to_front p res r))\<lparr>halted := True\<rparr>))"
  by pat_completeness auto

termination fill
  by (relation "measure (\<lambda>(_, _, _, c, _). length (recv_script c))") (auto dest: RRECV_script [OF sym])

declare fill.simps [simp del]

text \<open>
  The buffer is exchanged for a larger one when the packet does not fit; \<open>fresh\<close> is what the
  allocator finds in the new memory.
\<close>

definition grow_buffer :: "u8 \<Rightarrow> nat \<Rightarrow> rx_slot \<Rightarrow> rx_slot" where
  "grow_buffer fresh sz r =
     (if length (bypass_buf r) < sz then
        let new_buf_size = (if 2 ^ 28 < sz then sz else sz * 4)
        in r\<lparr>bypass_buf := bypass_buf r @ replicate (new_buf_size - length (bypass_buf r)) fresh\<rparr>
      else r)"

lemma fill_Full:
  assumes "fill want p res c r = Full c' r' p' res'"
  shows "want \<le> res'" "length (recv_script c') < length (recv_script c) \<or> c' = c \<and> res' = res"
  using assms
proof (induction want p res c r rule: fill.induct)
  case (1 want p res c r)
  case 1
  then show ?case by (subst (asm) fill.simps) (auto split: if_splits prod.splits recv_result.splits intro: "1.IH"(1) [OF _ sym refl])
  case 2
  show ?case
  proof (cases "want \<le> res")
    case True
    then show ?thesis using 2 by (simp add: fill.simps)
  next
    case False
    then obtain c1 n bytes where step: "RRECV (length (bypass_buf (to_front p res r)) - res) c = (c1, Got n, bytes)"
      "fill want 0 (res + n) c1 (put_bytes res bytes (to_front p res r)) = Full c' r' p' res'"
      using 2 by (subst (asm) fill.simps) (auto split: if_splits prod.splits recv_result.splits)
    from "1.IH"(2) [OF False step(1) [symmetric] refl refl step(2)] RRECV_script [OF step(1)] show ?thesis by auto
  qed
qed

text \<open>
  The loop over the packets in the buffer.  A packet whose header gives size zero would be
  processed for ever.  The flag tells whether the limit of packets ended the loop.
\<close>

function recv_packets :: "u8 \<Rightarrow> u32 \<Rightarrow> nat \<Rightarrow> nat \<Rightarrow> nat \<Rightarrow> connection \<Rightarrow> rx_slot \<Rightarrow> (connection \<times> rx_slot \<times> bool) res" where
  "recv_packets fresh packet_limit p res n c r =
     (if res = 0 then Inr (c, r, False)
      else case fill HEADER_SIZE p res c r of
        Later c r \<Rightarrow> Inr (c, r, False)
      | Closed c r \<Rightarrow> Inr (c, r, False)
      | Full c r p res \<Rightarrow>
          let sz = packet_size (drop p (bypass_buf r)); r = grow_buffer fresh sz r in
          case fill sz p res c r of
            Later c r \<Rightarrow> Inr (c, r, False)
          | Closed c r \<Rightarrow> Inr (c, r, False)
          | Full c r p res \<Rightarrow>
              let r = r\<lparr>processed := processed r @ [take sz (drop p (bypass_buf r))]\<rparr>; n = Suc n in
              if sz = 0 then Inl Spins_Forever
              else if packet_limit \<noteq> 0 \<and> unat packet_limit \<le> n \<and> sz < res then
                Inr (c, (to_front (p + sz) (res - sz) r)\<lparr>re_recieve_res := res - sz\<rparr>, True)
              else recv_packets fresh packet_limit (p + sz) (res - sz) n c r)"
  by pat_completeness auto


lemma packet_done:
  assumes "Full c1 r1 p1 res1 = fill w1 p res c r" "Full c2 r2 p2 res2 = fill sz p1 res1 c1 r3" "sz \<noteq> 0" "res \<noteq> 0"
  shows "length (recv_script c2) < length (recv_script c) \<or> length (recv_script c2) = length (recv_script c) \<and> res2 - sz < res"
  using fill_Full [OF assms(1) [symmetric]] fill_Full [OF assms(2) [symmetric]] assms(3,4) by auto

termination recv_packets
  by (relation "measures [\<lambda>(_, _, _, _, _, c, _). length (recv_script c), \<lambda>(_, _, _, res, _, _, _). res]")
    (simp_all add: packet_done [OF sym sym])


text \<open>
  The part of \<^verbatim>\<open>arts_server_try_to_receive\<close> for one connection with something to receive: the rest
  of the last call or a new receive, then the loop over the packets.
\<close>

definition receive_slot :: "u8 \<Rightarrow> u32 \<Rightarrow> connection \<Rightarrow> rx_slot \<Rightarrow> (connection \<times> rx_slot \<times> bool) res" where
  "receive_slot fresh packet_limit c r =
     (if re_recieve_res r = 0 then
        (case RRECV (length (bypass_buf r)) c of
           (c, Got n, bytes) \<Rightarrow> recv_packets fresh packet_limit 0 n 0 c (put_bytes 0 bytes r)
         | (c, R_Block, _) \<Rightarrow> Inr (c, r, False)
         | (c, R_Eof, _) \<Rightarrow> Inr (c, arts_close_receive_socket_index r, False)
         | (c, R_Error, _) \<Rightarrow> Inr (c, (arts_close_receive_socket_index r)\<lparr>halted := True\<rparr>, False))
      else recv_packets fresh packet_limit 0 (re_recieve_res r) 0 c (r\<lparr>re_recieve_res := 0\<rparr>))"

declare recv_packets.simps [simp del]

end
