(* ===== verification/Transport_Props.thy ===== *)
theory Transport_Props
  imports Transport
begin

text \<open>
  Correctness of the transport: whatever pieces the sockets take and give, the packets
  handed to the dispatcher at one end of a connection are the packets queued at the other
  end, whole and in order, and the loops of the sender end.
\<close>

section \<open>Packets\<close>

lemma le_bytes_length [simp]: "length (le_bytes n v) = n"
  by (induction n arbitrary: v) simp_all

lemma le_value_bytes: "v < 256 ^ n \<Longrightarrow> le_value (le_bytes n v) = v"
proof (induction n arbitrary: v)
  case (Suc n)
  then have "v div 256 < 256 ^ n" by (simp add: less_mult_imp_div_less mult.commute)
  moreover have "unat (of_nat (v mod 256) :: u8) = v mod 256" by (intro unat_of_nat_lt) simp
  ultimately show ?case using Suc.IH by simp
qed simp

lemma packet_size_fill:
  assumes "length p = HEADER_SIZE"
  shows "packet_size (arts_fill_packet_header me p sz mt @ body) = unat sz"
    "length (arts_fill_packet_header me p sz mt) = HEADER_SIZE"
proof -
  have "unat sz < 256 ^ 8" using unsigned_less [of sz] by simp
  then show "packet_size (arts_fill_packet_header me p sz mt @ body) = unat sz"
    by (simp add: packet_size_def arts_fill_packet_header_def le_value_bytes)
qed (use assms in \<open>simp add: arts_fill_packet_header_def\<close>)

definition framed :: "u8 list \<Rightarrow> bool" where
  "framed p \<longleftrightarrow> HEADER_SIZE \<le> length p \<and> packet_size p = length p"

lemma packet_size_prefix:
  assumes "take HEADER_SIZE a = take HEADER_SIZE b"
  shows "packet_size a = packet_size b"
proof -
  have "take 8 (drop 4 a) = drop 4 (take 12 (take HEADER_SIZE a))" by (simp add: drop_take)
  also have "\<dots> = take 8 (drop 4 b)" unfolding assms by (simp add: drop_take)
  finally show ?thesis by (simp add: packet_size_def)
qed

section \<open>Receiving\<close>

definition stream :: "connection \<Rightarrow> rx_slot \<Rightarrow> nat \<Rightarrow> nat \<Rightarrow> u8 list" where
  "stream c r p res = take res (drop p (bypass_buf r)) @ wire c"

lemma RRECV_Got:
  assumes "RRECV space c = (c', Got n, bytes)"
  shows "length bytes = n" "n \<le> space" "0 < n" "wire c = bytes @ wire c'"
proof -
  obtain k rs where k: "recv_script c = Got k # rs" "wire c \<noteq> []"
    using assms by (auto simp: RRECV_def split: list.splits recv_result.splits if_splits)
  define m where "m = min (max 1 k) (min MAX_RW (min space (length (wire c))))"
  have "RRECV space c = (c\<lparr>wire := drop m (wire c), recv_script := rs\<rparr>, (if m = 0 then R_Eof else Got m), take m (wire c))"
    unfolding RRECV_def k(1) m_def Let_def using k(2) by (simp only: list.case recv_result.case if_False)
  then have e: "c' = c\<lparr>wire := drop m (wire c), recv_script := rs\<rparr>" "m = n" "0 < m" "bytes = take m (wire c)"
    using assms by (auto split: if_splits)
  have "m \<le> length (wire c)" "m \<le> space" by (simp_all add: m_def)
  then show "length bytes = n" "n \<le> space" "0 < n" "wire c = bytes @ wire c'" using e by auto
qed

lemma RRECV_none:
  assumes "RRECV space c = (c', R_Block, bytes)"
  shows "wire c' = wire c"
  using assms by (auto simp: RRECV_def Let_def split: list.splits recv_result.splits if_splits)

lemma RRECV_stopped: "RRECV space c = (c', x) \<Longrightarrow> stopped c' = stopped c"
  by (auto simp: RRECV_def Let_def split: list.splits recv_result.splits if_splits)

lemma to_front_simps [simp]:
  "p + n \<le> length (bypass_buf r) \<Longrightarrow> length (bypass_buf (to_front p n r)) = length (bypass_buf r)"
  "p + n \<le> length (bypass_buf r) \<Longrightarrow> take n (bypass_buf (to_front p n r)) = take n (drop p (bypass_buf r))"
  "processed (to_front p n r) = processed r" "closed (to_front p n r) = closed r"
  "halted (to_front p n r) = halted r" "re_recieve_res (to_front p n r) = re_recieve_res r"
  by (simp_all add: to_front_def)

lemma put_bytes_simps [simp]:
  "i + length bytes \<le> length (bypass_buf r) \<Longrightarrow> length (bypass_buf (put_bytes i bytes r)) = length (bypass_buf r)"
  "i + length bytes \<le> length (bypass_buf r) \<Longrightarrow> take (i + length bytes) (bypass_buf (put_bytes i bytes r)) = take i (bypass_buf r) @ bytes"
  "processed (put_bytes i bytes r) = processed r" "closed (put_bytes i bytes r) = closed r"
  "halted (put_bytes i bytes r) = halted r" "re_recieve_res (put_bytes i bytes r) = re_recieve_res r"
  by (simp_all add: put_bytes_def)

text \<open>What a filling loop keeps: the bytes from the packet on, in order.\<close>

definition fill_ok :: "connection \<Rightarrow> rx_slot \<Rightarrow> nat \<Rightarrow> nat \<Rightarrow> fill_result \<Rightarrow> bool" where
  "fill_ok c r p res f \<longleftrightarrow>
     (case f of
        Full c' r' p' res' \<Rightarrow> p' + res' \<le> length (bypass_buf r') \<and> stream c' r' p' res' = stream c r p res \<and>
          length (bypass_buf r') = length (bypass_buf r) \<and> processed r' = processed r \<and> closed r' = closed r \<and>
          re_recieve_res r' = re_recieve_res r \<and> stopped c' = stopped c
      | Later c' r' \<Rightarrow> re_recieve_res r' \<le> length (bypass_buf r') \<and> stream c' r' 0 (re_recieve_res r') = stream c r p res \<and>
          length (bypass_buf r') = length (bypass_buf r) \<and> processed r' = processed r \<and> closed r' = closed r \<and> stopped c' = stopped c
      | Closed c' r' \<Rightarrow> length (bypass_buf r') = length (bypass_buf r) \<and> processed r' = processed r \<and> closed r' \<and> stopped c' = stopped c)"

lemma fill_ok_step:
  assumes fit: "p + res \<le> length (bypass_buf r)" and got: "RRECV (length (bypass_buf (to_front p res r)) - res) c = (c1, Got n, bytes)"
    and ok: "fill_ok c1 (put_bytes res bytes (to_front p res r)) 0 (res + n) f"
  shows "fill_ok c r p res f"
proof -
  note g = RRECV_Got [OF got]
  have room: "res + length bytes \<le> length (bypass_buf (to_front p res r))" using g(1,2) fit by simp
  have "take (res + n) (bypass_buf (put_bytes res bytes (to_front p res r))) = take res (drop p (bypass_buf r)) @ bytes"
    using put_bytes_simps(2) [OF room] fit unfolding g(1) by simp
  then have eq: "stream c1 (put_bytes res bytes (to_front p res r)) 0 (res + n) = stream c r p res"
    using g(4) by (simp add: stream_def)
  have same: "length (bypass_buf (put_bytes res bytes (to_front p res r))) = length (bypass_buf r)"
    using put_bytes_simps(1) [OF room] fit by simp
  show ?thesis using ok RRECV_stopped [OF got] unfolding fill_ok_def eq same by (cases f) simp_all
qed

lemma fill_keeps:
  assumes "p + res \<le> length (bypass_buf r)"
  shows "fill_ok c r p res (fill want p res c r)"
  using assms
proof (induction want p res c r rule: fill.induct)
  case (1 want p res c r)
  obtain c1 x bytes where rc: "RRECV (length (bypass_buf (to_front p res r)) - res) c = (c1, x, bytes)" by (metis prod_cases3)
  show ?case
  proof (cases "want \<le> res")
    case True
    then show ?thesis using "1.prems" by (subst fill.simps) (simp add: fill_ok_def)
  next
    case more: False
    note eq = fill.simps [of want p res c r, unfolded rc, simplified more if_False prod.case]
    note stop = RRECV_stopped [OF rc]
    show ?thesis
    proof (cases x)
      case (Got n)
      note g = RRECV_Got [OF rc [unfolded Got]]
      let ?r = "put_bytes res bytes (to_front p res r)"
      have "0 + (res + n) \<le> length (bypass_buf ?r)" using g(1,2,3) "1.prems" by simp
      from "1.IH" [OF more rc [symmetric] refl Got this]
      have "fill_ok c1 ?r 0 (res + n) (fill want 0 (res + n) c1 ?r)" .
      from fill_ok_step [OF "1.prems" rc [unfolded Got] this] show ?thesis unfolding eq Got by simp
    next
      case R_Block
      have "wire c1 = wire c" using rc unfolding R_Block by (rule RRECV_none)
      then show ?thesis using "1.prems" stop unfolding eq R_Block by (simp add: fill_ok_def stream_def)
    next
      case R_Eof
      then show ?thesis using "1.prems" stop unfolding eq R_Eof by (simp add: fill_ok_def arts_close_receive_socket_index_def)
    next
      case R_Error
      then show ?thesis using "1.prems" stop unfolding eq R_Error by (simp add: fill_ok_def arts_close_receive_socket_index_def)
    qed
  qed
qed

text \<open>Receiving never touches the flag of the sender.\<close>

lemma fill_stopped:
  "case fill want p res c r of Full c' _ _ _ \<Rightarrow> stopped c' = stopped c | Later c' _ \<Rightarrow> stopped c' = stopped c | Closed c' _ \<Rightarrow> stopped c' = stopped c"
proof (induction want p res c r rule: fill.induct)
  case (1 want p res c r)
  obtain c1 x bytes where x: "RRECV (length (bypass_buf (to_front p res r)) - res) c = (c1, x, bytes)" by (metis prod_cases3)
  note st = RRECV_stopped [OF x]
  show ?case
  proof (cases "want \<le> res")
    case False
    note eq = fill.simps [of want p res c r, unfolded x, simplified False if_False prod.case]
    show ?thesis unfolding eq using "1.IH" [OF False x [symmetric] refl] st by (cases x) (auto split: fill_result.splits)
  qed (simp add: fill.simps)
qed

lemma recv_packets_stopped:
  "recv_packets fresh limit p res n c r = Inr (c', r', b) \<Longrightarrow> stopped c' = stopped c"
proof (induction fresh limit p res n c r rule: recv_packets.induct)
  case (1 fresh limit p res n c r)
  note eq = recv_packets.simps [of fresh limit p res n c r]
  show ?case
  proof (cases "res = 0 \<or> (\<nexists>c1 r1 p1 res1. fill HEADER_SIZE p res c r = Full c1 r1 p1 res1)")
    case True
    then show ?thesis using "1.prems" fill_stopped [where want = HEADER_SIZE and p = p and res = res and c = c and r = r] unfolding eq by (auto split: if_splits fill_result.splits)
  next
    case False
    then obtain c1 r1 p1 res1 where full: "res \<noteq> 0" "fill HEADER_SIZE p res c r = Full c1 r1 p1 res1" by auto
    define sz where "sz = packet_size (drop p1 (bypass_buf r1))"
    define r2 where "r2 = grow_buffer fresh sz r1"
    note eq' = eq [unfolded full(2), simplified full(1) if_False fill_result.case Let_def, folded sz_def, folded r2_def]
    have st: "stopped c1 = stopped c" using fill_stopped [where want = HEADER_SIZE and p = p and res = res and c = c and r = r] full(2) by simp
    show ?thesis
    proof (cases "fill sz p1 res1 c1 r2")
      case (Full c2 r3 p2 res2)
      have "stopped c2 = stopped c1" using fill_stopped [where want = sz and p = p1 and res = res1 and c = c1 and r = r2] Full by simp
      then show ?thesis using "1.prems" "1.IH" [OF full sz_def r2_def Full refl refl] st unfolding eq' Full by (auto split: if_splits)
    qed (use "1.prems" st fill_stopped [where want = sz and p = p1 and res = res1 and c = c1 and r = r2] in \<open>auto simp: eq'\<close>)
  qed
qed

lemma receive_stopped:
  "receive_slot fresh limit c r = Inr (c', r', b) \<Longrightarrow> stopped c' = stopped c"
  by (auto simp: receive_slot_def dest!: recv_packets_stopped RRECV_stopped split: if_splits prod.splits recv_result.splits)

lemma grow_buffer_simps [simp]:
  "processed (grow_buffer f sz r) = processed r" "closed (grow_buffer f sz r) = closed r"
  "re_recieve_res (grow_buffer f sz r) = re_recieve_res r"
  "sz \<le> length (bypass_buf (grow_buffer f sz r))" "length (bypass_buf r) \<le> length (bypass_buf (grow_buffer f sz r))"
  "take n (drop p (bypass_buf (grow_buffer f sz r))) = take n (drop p (bypass_buf r))" if "p + n \<le> length (bypass_buf r)"
  using that by (auto simp: grow_buffer_def Let_def)

text \<open>The first packet of a stream is known from its header and cut by its size.\<close>

lemma next_packet:
  assumes fr: "\<forall>q\<in>set pkts. framed q" and s: "s @ rest = concat pkts" and "HEADER_SIZE \<le> length s"
  obtains q qs where "pkts = q # qs" "packet_size s = length q" "HEADER_SIZE \<le> length q"
proof (cases pkts)
  case Nil
  then show thesis using s assms(3) by simp
next
  case (Cons q qs)
  then have q: "framed q" using fr by simp
  have "take HEADER_SIZE s = take HEADER_SIZE (s @ rest)" using assms(3) by simp
  also have "\<dots> = take HEADER_SIZE q" unfolding s Cons using q by (simp add: framed_def)
  finally have "packet_size s = packet_size q" by (rule packet_size_prefix)
  then show thesis using that [OF Cons] q by (simp add: framed_def)
qed

lemma cut_packet:
  assumes "s @ rest = concat (q # qs)" "length q \<le> length s"
  shows "take (length q) s = q" "drop (length q) s @ rest = concat qs"
proof -
  have "take (length q) (s @ rest) = q" "drop (length q) (s @ rest) = concat qs" unfolding assms(1) by simp_all
  then show "take (length q) s = q" "drop (length q) s @ rest = concat qs" using assms(2) by simp_all
qed

text \<open>What a receiver has: the packets of the stream so far, and the rest still to come.\<close>

definition received :: "u8 list list \<Rightarrow> u8 list \<Rightarrow> connection \<Rightarrow> rx_slot \<Rightarrow> bool" where
  "received pkts future c r \<longleftrightarrow>
     (\<exists>ps. pkts = processed r @ ps \<and>
        (closed r \<or> re_recieve_res r \<le> length (bypass_buf r) \<and> stream c r 0 (re_recieve_res r) @ future = concat ps))"

text \<open>The packet at \<open>p\<close>, once its header is there, and what is left when it has been processed.\<close>

lemma packet_known:
  assumes fit: "p + res \<le> length (bypass_buf r)" "\<forall>q\<in>set ps. framed q" "stream c r p res @ future = concat ps"
    and full: "fill HEADER_SIZE p res c r = Full c1 r1 p1 res1" and r2: "r2 = grow_buffer fresh (packet_size (drop p1 (bypass_buf r1))) r1"
  obtains q qs where "ps = q # qs" "packet_size (drop p1 (bypass_buf r1)) = length q" "HEADER_SIZE \<le> length q"
    "p1 + res1 \<le> length (bypass_buf r2)" "stream c1 r2 p1 res1 = stream c r p res" "processed r2 = processed r"
    "re_recieve_res r2 = re_recieve_res r" "stopped c1 = stopped c"
proof -
  have ok: "p1 + res1 \<le> length (bypass_buf r1)" "stream c1 r1 p1 res1 = stream c r p res" "processed r1 = processed r"
    "re_recieve_res r1 = re_recieve_res r" "stopped c1 = stopped c"
    using fill_keeps [OF fit(1), of c HEADER_SIZE] full by (simp_all add: fill_ok_def)
  have h: "HEADER_SIZE \<le> res1" by (rule fill_Full(1) [OF full])
  have "take res1 (drop p1 (bypass_buf r1)) @ wire c1 @ future = concat ps"
    using fit(3) unfolding ok(2) [symmetric] by (simp add: stream_def)
  then obtain q qs where q: "ps = q # qs" "packet_size (take res1 (drop p1 (bypass_buf r1))) = length q" "HEADER_SIZE \<le> length q"
    using h ok(1) by (elim next_packet [OF fit(2)]) auto
  have "packet_size (take res1 (drop p1 (bypass_buf r1))) = packet_size (drop p1 (bypass_buf r1))"
    by (rule packet_size_prefix) (use h in simp)
  moreover have "p1 + res1 \<le> length (bypass_buf r2)" using ok(1) grow_buffer_simps(5) [OF ok(1)] unfolding r2 by (rule order_trans)
  moreover have "stream c1 r2 p1 res1 = stream c1 r1 p1 res1" unfolding stream_def r2 using ok(1) by simp
  ultimately show thesis using that q ok grow_buffer_simps(1,3) [OF ok(1)] unfolding r2 by simp
qed

lemma packet_cut:
  assumes "p + res \<le> length (bypass_buf r)" "stream c r p res @ future = concat (q # qs)"
    and full: "fill (length q) p res c r = Full c2 r2 p2 res2"
  shows "take (length q) (drop p2 (bypass_buf r2)) = q" "p2 + length q + (res2 - length q) \<le> length (bypass_buf r2)"
    "take (res2 - length q) (drop (p2 + length q) (bypass_buf r2)) @ wire c2 @ future = concat qs"
proof -
  have ok: "p2 + res2 \<le> length (bypass_buf r2)" "stream c2 r2 p2 res2 = stream c r p res"
    using fill_keeps [OF assms(1), of c "length q"] full by (simp_all add: fill_ok_def)
  have l: "length q \<le> res2" by (rule fill_Full(1) [OF full])
  have "take res2 (drop p2 (bypass_buf r2)) @ wire c2 @ future = concat (q # qs)"
    using assms(2) unfolding ok(2) [symmetric] by (simp add: stream_def)
  from cut_packet [OF this] have cut: "take (length q) (take res2 (drop p2 (bypass_buf r2))) = q"
    "drop (length q) (take res2 (drop p2 (bypass_buf r2))) @ wire c2 @ future = concat qs" using l ok(1) by simp_all
  show "take (length q) (drop p2 (bypass_buf r2)) = q" using cut(1) l by (simp add: min_def)
  show "p2 + length q + (res2 - length q) \<le> length (bypass_buf r2)" using ok(1) l by simp
  show "take (res2 - length q) (drop (p2 + length q) (bypass_buf r2)) @ wire c2 @ future = concat qs"
    using cut(2) by (simp add: drop_take add.commute)
qed

lemma recv_packets_ok:
  assumes "p + res \<le> length (bypass_buf r)" "\<forall>q\<in>set ps. framed q" "stream c r p res @ future = concat ps"
    "pkts = processed r @ ps" "re_recieve_res r = 0"
  shows "\<exists>c' r' b. recv_packets fresh limit p res n c r = Inr (c', r', b) \<and> received pkts future c' r' \<and> stopped c' = stopped c"
  using assms
proof (induction fresh limit p res n c r arbitrary: ps rule: recv_packets.induct)
  case (1 fresh limit p res n c r)
  note eq = recv_packets.simps [of fresh limit p res n c r]
  note hdr = fill_keeps [OF "1.prems"(1), of c HEADER_SIZE]
  show ?case
  proof (cases "res = 0")
    case True
    then show ?thesis using "1.prems" by (subst eq) (auto simp: received_def stream_def)
  next
    case busy: False
    show ?thesis
    proof (cases "fill HEADER_SIZE p res c r")
      case (Later c' r')
      then show ?thesis using hdr "1.prems" busy by (subst eq) (auto simp: fill_ok_def received_def)
    next
      case (Closed c' r')
      then show ?thesis using hdr "1.prems" busy by (subst eq) (auto simp: fill_ok_def received_def)
    next
      case (Full c1 r1 p1 res1)
      define sz where "sz = packet_size (drop p1 (bypass_buf r1))"
      define r2 where "r2 = grow_buffer fresh sz r1"
      obtain q qs where q: "ps = q # qs" "sz = length q" "HEADER_SIZE \<le> length q" "p1 + res1 \<le> length (bypass_buf r2)"
        "stream c1 r2 p1 res1 = stream c r p res" "processed r2 = processed r" "re_recieve_res r2 = re_recieve_res r" "stopped c1 = stopped c"
        using packet_known [OF "1.prems"(1-3) Full r2_def [unfolded sz_def]] unfolding sz_def by metis
      note body = fill_keeps [OF q(4), of c1 sz]
      note eq' = eq [unfolded Full, simplified busy if_False fill_result.case Let_def, folded sz_def, folded r2_def]
      show ?thesis
      proof (cases "fill sz p1 res1 c1 r2")
        case (Full c2 r3 p2 res2)
        define r4 where "r4 = r3\<lparr>processed := processed r3 @ [take sz (drop p2 (bypass_buf r3))]\<rparr>"
        have fit: "p1 + res1 \<le> length (bypass_buf r2)" "stream c1 r2 p1 res1 @ future = concat (q # qs)" using q "1.prems"(3) by simp_all
        note cut = packet_cut [OF fit Full [unfolded q(2)], folded q(2)]
        have r4: "pkts = processed r4 @ qs" "bypass_buf r4 = bypass_buf r3" "re_recieve_res r4 = 0" "stopped c2 = stopped c"
          using body Full q "1.prems"(4,5) cut(1) by (simp_all add: fill_ok_def r4_def)
        have sz: "sz \<noteq> 0" using q by auto
        have st: "stream c2 r4 (p2 + sz) (res2 - sz) @ future = concat qs" using cut(3) r4(2) by (simp add: stream_def)
        show ?thesis
        proof (cases "limit \<noteq> 0 \<and> unat limit \<le> Suc n \<and> sz < res2")
          case True
          then show ?thesis using r4 st cut(2) sz by (subst eq') (auto simp: Full received_def stream_def simp flip: r4_def)
        next
          case False
          have "\<forall>q\<in>set qs. framed q" using "1.prems"(2) q(1) by simp
          then show ?thesis
            using "1.IH" [OF busy \<open>fill HEADER_SIZE p res c r = fill_result.Full c1 r1 p1 res1\<close> sz_def r2_def Full r4_def refl sz False]
              cut(2) r4 st False sz by (subst eq') (auto simp: Full simp flip: r4_def)
        qed
      qed (use body "1.prems"(4) q "1.prems"(3) in \<open>auto simp: eq' fill_ok_def received_def\<close>)
    qed
  qed
qed

lemma receive_slot_ok:
  assumes rc: "received pkts future c r" "\<not> closed r" and fr: "\<forall>q\<in>set pkts. framed q"
  shows "\<exists>c' r' b. receive_slot fresh limit c r = Inr (c', r', b) \<and> received pkts future c' r' \<and> stopped c' = stopped c"
proof -
  obtain ps where ps: "pkts = processed r @ ps" "re_recieve_res r \<le> length (bypass_buf r)"
    "stream c r 0 (re_recieve_res r) @ future = concat ps" using rc by (auto simp: received_def)
  have frs: "\<forall>q\<in>set ps. framed q" using fr ps(1) by simp
  show ?thesis
  proof (cases "re_recieve_res r = 0")
    case False
    let ?r = "r\<lparr>re_recieve_res := 0\<rparr>"
    have "0 + re_recieve_res r \<le> length (bypass_buf ?r)" "stream c ?r 0 (re_recieve_res r) @ future = concat ps"
      "pkts = processed ?r @ ps" "re_recieve_res ?r = 0" using ps by (simp_all add: stream_def)
    from recv_packets_ok [OF this(1) frs this(2-4)] show ?thesis using False by (simp add: receive_slot_def)
  next
    case True
    obtain c1 x bytes where x: "RRECV (length (bypass_buf r)) c = (c1, x, bytes)" by (metis prod_cases3)
    show ?thesis
    proof (cases x)
      case (Got n)
      note g = RRECV_Got [OF x [unfolded Got]]
      let ?r = "put_bytes 0 bytes r"
      have room: "0 + length bytes \<le> length (bypass_buf r)" using g by simp
      have "0 + n \<le> length (bypass_buf ?r)" using put_bytes_simps(1) [OF room] g by simp
      moreover have "stream c1 ?r 0 n @ future = concat ps"
        using put_bytes_simps(2) [OF room] ps(3) True g by (simp add: stream_def)
      ultimately obtain c' r' b where "recv_packets fresh limit 0 n 0 c1 ?r = Inr (c', r', b)" "received pkts future c' r'" "stopped c' = stopped c1"
        using recv_packets_ok [OF _ frs, of 0 n ?r c1 future pkts fresh limit 0] ps(1) True by auto
      then show ?thesis using True x Got RRECV_stopped [OF x] by (simp add: receive_slot_def)
    next
      case R_Block
      then have "wire c1 = wire c" using x RRECV_none by blast
      then show ?thesis using True x R_Block rc RRECV_stopped [OF x] by (auto simp: receive_slot_def received_def stream_def)
    qed (use True x rc ps RRECV_stopped [OF x] in \<open>auto simp: receive_slot_def received_def arts_close_receive_socket_index_def\<close>)
  qed
qed

section \<open>Sending\<close>

lemma RSEND_other:
  assumes "RSEND bytes c = (c', x)" "x = S_Block"
  shows "wire c' = wire c" "stopped c' = stopped c"
  using assms by (auto simp: RSEND_def Let_def split: list.splits send_result.splits)

lemma RSEND_stopped: "RSEND bytes c = (c', x) \<Longrightarrow> stopped c' = stopped c"
  by (auto simp: RSEND_def Let_def split: list.splits send_result.splits)

text \<open>
  A send returns with an error and the runtime told to stop, or has put the bytes up to those
  that are left on the wire.
\<close>

definition sent_upto :: "u8 list \<Rightarrow> connection \<Rightarrow> connection \<Rightarrow> u64 \<Rightarrow> bool" where
  "sent_upto bytes c c' rem \<longleftrightarrow>
     (rem = -1 \<and> stopped c') \<or>
     (unat rem \<le> length bytes \<and> stopped c' = stopped c \<and> wire c' = wire c @ take (length bytes - unat rem) bytes)"

lemma sent_upto_trans:
  assumes "n \<le> length bytes" "wire c1 = wire c @ take n bytes" "stopped c1 = stopped c" "sent_upto (drop n bytes) c1 c' rem"
  shows "sent_upto bytes c c' rem"
proof (cases "rem = -1 \<and> stopped c'")
  case False
  then have b: "unat rem \<le> length bytes - n" "stopped c' = stopped c" "wire c' = wire c @ take n bytes @ take (length bytes - n - unat rem) (drop n bytes)"
    using assms by (auto simp: sent_upto_def)
  have "take n bytes @ take (length bytes - n - unat rem) (drop n bytes) = take (length bytes - unat rem) bytes"
    using b(1) assms(1) by (simp flip: take_add)
  then show ?thesis using b by (auto simp: sent_upto_def)
qed (simp add: sent_upto_def)

lemma send_loop_ok:
  assumes "unat tot + unat ln \<le> length msg" "unat tot + unat ln < 2 ^ 64"
  shows "\<exists>c' rem. send_loop mb mi msg tot ln its c = Inr (c', rem) \<and> sent_upto (take (unat ln) (drop (unat tot) msg)) c c' rem"
  using assms
proof (induction mb mi msg tot ln its c rule: send_loop.induct)
  case (1 mb mi msg tot ln its c)
  let ?bytes = "take (unat ln) (drop (unat tot) msg)"
  note eq = send_loop.simps [of mb mi msg tot ln its c]
  obtain c1 x where x: "RSEND ?bytes c = (c1, x)" by (metis surj_pair)
  have inb: "\<not> length msg < unat tot + unat ln" using "1.prems" by simp
  show ?case
  proof (cases "ln = 0")
    case True
    then show ?thesis by (subst eq) (simp add: sent_upto_def)
  next
    case ln: False
    note eq' = eq [unfolded x, simplified ln inb if_False prod.case]
    show ?thesis
    proof (cases x)
      case (Sent n)
      note sx = RSEND_Sent [OF x [unfolded Sent]]
      show ?thesis
      proof (cases "n = 0")
        case True
        then show ?thesis unfolding eq' Sent by (simp add: sent_upto_def)
      next
        case n: False
        have le: "n \<le> unat ln" using sx(1) by simp
        have rem: "unat (ln - of_nat n) = unat ln - n" using n le by (simp add: sent_less)
        have on: "unat (of_nat n :: u64) = n" using sx(4) by (simp add: unat_of_nat_lt)
        have tot: "unat (tot + of_nat n) = unat tot + n"
          using unat_add_lt [of tot "of_nat n"] "1.prems" le on by simp
        have now: "sent_upto ?bytes c c1 (ln - of_nat n)"
          using sx(2,3) le rem "1.prems"(1) by (simp add: sent_upto_def)
        have later: "\<exists>c' rem. send_loop mb mi msg (tot + of_nat n) (ln - of_nat n) (Suc its) c1 = Inr (c', rem) \<and> sent_upto ?bytes c c' rem"
          if "\<not> (ln - of_nat n \<noteq> 0 \<and> mb \<noteq> 0 \<and> mb \<le> tot + of_nat n)" "\<not> (ln - of_nat n \<noteq> 0 \<and> mi \<noteq> 0 \<and> unat mi \<le> Suc its)" "\<not> 1000000 < Suc its"
        proof -
          have "unat (tot + of_nat n) + unat (ln - of_nat n) \<le> length msg" unfolding tot rem using "1.prems"(1) le by simp
          moreover have "unat (tot + of_nat n) + unat (ln - of_nat n) < 2 ^ 64" unfolding tot rem using "1.prems"(2) le by simp
          ultimately have "\<exists>c' rem'. send_loop mb mi msg (tot + of_nat n) (ln - of_nat n) (Suc its) c1 = Inr (c', rem') \<and>
              sent_upto (take (unat (ln - of_nat n)) (drop (unat (tot + of_nat n)) msg)) c1 c' rem'"
            by (rule "1.IH" [OF ln inb x [symmetric] Sent n refl refl refl that])
          then
          obtain c' rem' where r: "send_loop mb mi msg (tot + of_nat n) (ln - of_nat n) (Suc its) c1 = Inr (c', rem')"
            "sent_upto (take (unat ln - n) (drop (unat tot + n) msg)) c1 c' rem'" unfolding tot rem by auto
          have "take (unat ln - n) (drop (unat tot + n) msg) = drop n ?bytes" by (simp add: drop_take add.commute)
          then show ?thesis using r sent_upto_trans [OF sx(1-3)] by auto
        qed
        then show ?thesis unfolding eq' Sent using n now by (auto simp: Let_def)
      qed
    next
      case S_Block
      show ?thesis unfolding eq' S_Block using RSEND_other [OF x S_Block] "1.prems"(1) by (simp add: sent_upto_def)
    next
      case S_Error
      then show ?thesis unfolding eq' S_Error by (simp add: sent_upto_def)
    qed
  qed
qed

text \<open>A queued message and the bytes it still has to send.\<close>

definition out_ok :: "out_list \<Rightarrow> bool" where
  "out_ok out \<longleftrightarrow>
     unat (offset out) + unat (len out) \<le> length (message out) \<and> length (message out) < 2 ^ 32 \<and>
     (case payload out of
        None \<Rightarrow> True
      | Some (_, b) \<Rightarrow> unat (offsetPayload out) + unat (payloadSize out) \<le> length b \<and>
          unat (offsetPayload out) + unat (payloadSize out) < 2 ^ 32 \<and> payloadSize out \<noteq> 0)"

definition payload_bytes :: "out_list \<Rightarrow> u8 list" where
  "payload_bytes out =
     (case payload out of None \<Rightarrow> [] | Some (_, b) \<Rightarrow> take (unat (payloadSize out)) (drop (unat (offsetPayload out)) b))"

definition out_bytes :: "out_list \<Rightarrow> u8 list" where
  "out_bytes out = take (unat (len out)) (drop (unat (offset out)) (message out)) @ payload_bytes out"

lemma outD:
  assumes "out_ok out"
  shows "unat (offset out) + unat (len out) \<le> length (message out)" "length (message out) < 2 ^ 32"
    "payload out = Some (a, b) \<Longrightarrow> unat (offsetPayload out) + unat (payloadSize out) \<le> length b"
    "payload out = Some (a, b) \<Longrightarrow> unat (offsetPayload out) + unat (payloadSize out) < 2 ^ 32"
  using assms by (auto simp: out_ok_def)

lemma out_room:
  assumes "out_ok out"
  shows "unat (len out) \<le> length (message out) - unat (offset out)"
    "payload out = Some (a, b) \<Longrightarrow> unat (payloadSize out) \<le> length b - unat (offsetPayload out)"
  using assms by (auto simp: out_ok_def)

lemma unat_len32: "unat (w :: u32) < 2 ^ 32"
  by (rule order_less_le_trans [OF unsigned_less]) simp

lemma unat_len64: "unat (ucast (w :: u32) :: u64) = unat w"
  by (rule unat_ucast_up) simp

lemma out_length:
  assumes "out_ok out"
  shows "length (out_bytes out) = unat (len out) + (if payload out = None then 0 else unat (payloadSize out))"
    "unat (out_pending_length out) = length (out_bytes out)" "length (out_bytes out) < 2 ^ 33"
proof -
  show l: "length (out_bytes out) = unat (len out) + (if payload out = None then 0 else unat (payloadSize out))"
    using assms by (auto simp: out_ok_def out_bytes_def payload_bytes_def split: option.splits)
  show b: "length (out_bytes out) < 2 ^ 33" unfolding l using assms by (auto simp: out_ok_def)
  show "unat (out_pending_length out) = length (out_bytes out)"
    using b unfolding l by (auto simp: out_pending_length_def unat_len64 unat_add_lt)
qed

lemma connected_same: "connected c = (c', up) \<Longrightarrow> wire c' = wire c \<and> stopped c' = stopped c"
  by (auto simp: connected_def split: list.splits)

lemma sent_none: "unat ln = length bytes \<Longrightarrow> wire c' = wire c \<Longrightarrow> stopped c' = stopped c \<Longrightarrow> sent_upto bytes c c' ln"
  by (simp add: sent_upto_def)

text \<open>
  A message goes out up to what is left.  An error while the message itself is sent, with a
  payload behind it, is taken for progress: the result is one less than the payload.
\<close>

definition message_sent :: "out_list \<Rightarrow> connection \<Rightarrow> connection \<Rightarrow> u64 \<Rightarrow> bool" where
  "message_sent out c c' rem \<longleftrightarrow>
     (rem = -1 \<or> unat rem \<le> length (out_bytes out)) \<and> (stopped c \<longrightarrow> stopped c') \<and>
     (\<not> stopped c' \<longrightarrow> unat rem \<le> length (out_bytes out) \<and> wire c' = wire c @ take (length (out_bytes out) - unat rem) (out_bytes out))"

lemma sent_upto_message:
  "sent_upto (out_bytes out) c c' rem \<Longrightarrow> message_sent out c c' rem"
  by (auto simp: sent_upto_def message_sent_def)

lemma actual_send_ok:
  assumes "unat ln \<le> length msg"
  shows "\<exists>c' rem. arts_actual_send mb mi msg ln c = Inr (c', rem) \<and> sent_upto (take (unat ln) msg) c c' rem"
  using send_loop_ok [of 0 ln "msg" mb mi 0 c] assms unsigned_less [of ln] by (simp add: arts_actual_send_def)

text \<open>The bytes of the message are left in part: the payload is still to come.\<close>

lemma head_left:
  assumes ok: "out_ok out" "payload out \<noteq> None" and h: "sent_upto (take (unat (len out)) (drop (unat (offset out)) (message out))) c c' rem"
  shows "message_sent out c c' (rem + payloadSize out)"
proof (cases "rem = -1 \<and> stopped c'")
  case True
  have "1 \<le> unat (payloadSize out)" using ok by (auto simp: out_ok_def Suc_le_eq unat_gt_0 split: option.splits)
  then have "unat (payloadSize out - 1) = unat (payloadSize out) - 1" by (simp add: unat_sub_le)
  then show ?thesis using True out_length(1) [OF ok(1)] ok(2) by (auto simp: message_sent_def)
next
  case False
  have ll: "length (take (unat (len out)) (drop (unat (offset out)) (message out))) = unat (len out)"
    using out_room(1) [OF ok(1)] by simp
  then have b: "unat rem \<le> unat (len out)" "stopped c' = stopped c"
    "wire c' = wire c @ take (unat (len out) - unat rem) (take (unat (len out)) (drop (unat (offset out)) (message out)))"
    using h False unfolding sent_upto_def ll by auto
  have l: "length (out_bytes out) = unat (len out) + unat (payloadSize out)" using out_length(1) [OF ok(1)] ok(2) by simp
  have "unat (rem + payloadSize out) = unat rem + unat (payloadSize out)"
    using b(1) l out_length(3) [OF ok(1)] by (intro unat_add_lt) simp
  then show ?thesis using b l ll by (simp add: message_sent_def out_bytes_def)
qed

lemma send_message_ok:
  assumes ok: "out_ok out"
  shows "\<exists>c' rem. send_message m out c = Inr (c', rem) \<and> message_sent out c c' rem"
proof -
  obtain c1 up where up: "connected c = (c1, up)" by (metis surj_pair)
  note same = connected_same [OF up]
  have to: "message_sent out c c' rem" if "message_sent out c1 c' rem" for c' rem using that same by (simp add: message_sent_def)
  let ?from = "drop (unat (offset out)) (message out)"
  have "unat (ucast (len out) :: u64) \<le> length ?from" using out_room(1) [OF ok] by (simp add: unat_len64)
  from actual_send_ok [OF this, of "max_bytes m" "max_iters m" c1]
  obtain c2 rem where h: "arts_actual_send (max_bytes m) (max_iters m) ?from (ucast (len out)) c1 = Inr (c2, rem)"
    "sent_upto (take (unat (len out)) ?from) c1 c2 rem" unfolding unat_len64 by blast
  show ?thesis
  proof (cases "payload out")
    case None
    have "message_sent out c c1 (ucast (len out))"
      using out_length(1) [OF ok] None by (intro to sent_upto_message sent_none) (simp_all add: unat_len64)
    moreover have "message_sent out c c2 rem" using h(2) None by (intro to sent_upto_message) (simp add: out_bytes_def payload_bytes_def)
    ultimately show ?thesis using up h(1) None by (cases up) (simp_all add: send_message_def arts_remote_send_request_def)
  next
    case (Some ab)
    obtain a b where ab: "ab = (a, b)" by (cases ab)
    let ?pl = "drop (unat (offsetPayload out)) b"
    have pb: "payload_bytes out = take (unat (payloadSize out)) ?pl" by (simp add: payload_bytes_def Some ab)
    have "unat (payloadSize out) \<le> length ?pl" using out_room(2) [OF ok Some [unfolded ab]] by simp
    from actual_send_ok [OF this, of "max_bytes m" "max_iters m" c2]
    obtain c3 rem3 where p: "arts_actual_send (max_bytes m) (max_iters m) ?pl (payloadSize out) c2 = Inr (c3, rem3)"
      "sent_upto (payload_bytes out) c2 c3 rem3" unfolding pb by blast
    have "message_sent out c c1 (ucast (len out) + payloadSize out)"
      by (intro to head_left [OF ok] sent_none) (use out_room(1) [OF ok] Some in \<open>simp_all add: unat_len64\<close>)
    moreover have "message_sent out c c2 (rem + payloadSize out)" by (intro to head_left [OF ok _ h(2)]) (simp add: Some)
    moreover have "message_sent out c c3 rem3" if "rem = 0"
    proof -
      have w: "wire c2 = wire c1 @ take (unat (len out)) (out_bytes out)" "stopped c2 = stopped c1"
        using h(2) that ok by (auto simp: sent_upto_def out_bytes_def out_ok_def)
      have d: "drop (unat (len out)) (out_bytes out) = payload_bytes out" "unat (len out) \<le> length (out_bytes out)"
        using out_room(1) [OF ok] by (simp_all add: out_bytes_def)
      show ?thesis by (rule to [OF sent_upto_message [OF sent_upto_trans [OF d(2) w p(2) [folded d(1)]]]])
    qed
    moreover have "send_message m out c = (if up then if rem = 0 then Inr (c3, rem3) else Inr (c2, rem + payloadSize out)
        else Inr (c1, ucast (len out) + payloadSize out))"
      using up h(1) p(1) by (simp add: send_message_def Some ab arts_remote_send_payload_request_def)
    ultimately show ?thesis by (simp split: if_splits)
  qed
qed

text \<open>What is stored after a partial send is the message without the bytes that went out.\<close>

lemma unat_low32: "unat (w :: u64) < 2 ^ 32 \<Longrightarrow> unat (ucast w :: u32) = unat w"
  by (simp add: unsigned_ucast_eq take_bit_nat_eq_self)

lemma advance32:
  assumes "unat (off :: u32) + k < 2 ^ 32" "unat (w :: u64) = k"
  shows "unat (ucast (ucast off + w) :: u32) = unat off + k"
proof -
  have "unat (ucast off + w) = unat off + k" using assms by (subst unat_add_lt) (simp_all add: unat_len64)
  then show ?thesis using assms(1) by (simp add: unat_low32)
qed

lemma partial_plain:
  assumes ok: "out_ok out" and rem: "unat rem \<le> length (out_bytes out)" and pl: "payload out = None"
  shows "out_ok (partial_send_store out rem)"
    "out_bytes (partial_send_store out rem) = drop (length (out_bytes out) - unat rem) (out_bytes out)"
proof -
  have l: "length (out_bytes out) = unat (len out)" using out_length(1) [OF ok] pl by simp
  have r: "unat (ucast rem :: u32) = unat rem" using rem l unat_len32 [of "len out"] by (intro unat_low32) simp
  have d: "unat (ucast (len out) - rem) = unat (len out) - unat rem" using rem l by (simp add: unat_sub_le unat_len64)
  have o': "unat (ucast (ucast (offset out) + (ucast (len out) - rem)) :: u32) = unat (offset out) + (unat (len out) - unat rem)"
    by (rule advance32 [OF _ d]) (use outD(1,2) [OF ok] in simp)
  show "out_ok (partial_send_store out rem)" using ok pl o' r rem l by (simp add: partial_send_store_def out_ok_def)
  show "out_bytes (partial_send_store out rem) = drop (length (out_bytes out) - unat rem) (out_bytes out)"
    using pl o' r rem unfolding l by (simp add: partial_send_store_def out_bytes_def payload_bytes_def drop_take add.commute)
qed

lemma partial_payload:
  assumes ok: "out_ok out" and rem: "unat rem \<le> length (out_bytes out)" "rem \<noteq> 0" and pl: "payload out = Some (a, b)"
  shows "out_ok (partial_send_store out rem)"
    "out_bytes (partial_send_store out rem) = drop (length (out_bytes out) - unat rem) (out_bytes out)"
proof -
  let ?n = "unat (len out)" let ?k = "unat (payloadSize out)"
  have l: "length (out_bytes out) = ?n + ?k" using out_length(1) [OF ok] pl by simp
  have sum: "unat (ucast (len out) + payloadSize out) = ?n + ?k"
    using l out_length(3) [OF ok] by (subst unat_add_lt) (simp_all add: unat_len64)
  have sent: "unat (ucast (len out) + payloadSize out - rem) = ?n + ?k - unat rem"
    using rem(1) l sum by (simp add: unat_sub_le)
  have head: "length (take ?n (drop (unat (offset out)) (message out))) = ?n" using out_room(1) [OF ok] by simp
  have cond: "ucast (len out) \<le> ucast (len out) + payloadSize out - rem \<longleftrightarrow> unat rem \<le> ?k"
    unfolding word_le_nat_alt sent unat_len64 using rem(1) l by auto
  have "out_ok (partial_send_store out rem) \<and>
      out_bytes (partial_send_store out rem) = drop (?n + ?k - unat rem) (out_bytes out)"
  proof (cases "unat rem \<le> ?k")
    case True
    have "unat (ucast (ucast (offsetPayload out) + (payloadSize out - rem)) :: u32) = unat (offsetPayload out) + (?k - unat rem)"
      by (rule advance32) (use outD(4) [OF ok pl] True in \<open>simp_all add: unat_sub_le\<close>)
    then show ?thesis using True cond ok pl rem(2) head
      by (simp add: partial_send_store_def out_ok_def out_bytes_def payload_bytes_def drop_take add.commute)
  next
    case False
    have d: "unat (rem - payloadSize out) = unat rem - ?k" using False by (simp add: unat_sub_le)
    have le: "unat rem - ?k \<le> ?n" using rem(1) l by simp
    have c: "unat (ucast (rem - payloadSize out) :: u32) = unat rem - ?k"
      using d le unat_len32 [of "len out"] by (subst unat_low32) simp_all
    have o': "unat (ucast (ucast (offset out) + (ucast (len out) - (rem - payloadSize out))) :: u32) = unat (offset out) + (?n - (unat rem - ?k))"
      by (rule advance32) (use outD(1,2) [OF ok] d le in \<open>simp_all add: unat_sub_le unat_len64\<close>)
    have off: "unat (offset out) + (?n - (unat rem - ?k)) + (unat rem - ?k) \<le> length (message out)" using outD(1) [OF ok] le by simp
    have eq: "?n + ?k - unat rem = ?n - (unat rem - ?k)" using False le by simp
    define out' where "out' = partial_send_store out rem"
    have st: "out' = out\<lparr>offset := ucast (ucast (offset out) + (ucast (len out) - (rem - payloadSize out))), len := ucast (rem - payloadSize out)\<rparr>"
      using False cond pl by (simp add: out'_def partial_send_store_def)
    have "drop (?n - (unat rem - ?k)) (take ?n (drop (unat (offset out)) (message out)))
        = take (unat rem - ?k) (drop (unat (offset out) + (?n - (unat rem - ?k))) (message out))"
      using le by (simp add: drop_take add.commute)
    moreover have "out_bytes out' = take (unat rem - ?k) (drop (unat (offset out) + (?n - (unat rem - ?k))) (message out)) @ payload_bytes out"
      unfolding st out_bytes_def payload_bytes_def by (simp add: c o' pl)
    moreover have "drop (?n - (unat rem - ?k)) (out_bytes out) = drop (?n - (unat rem - ?k)) (take ?n (drop (unat (offset out)) (message out))) @ payload_bytes out"
      unfolding out_bytes_def drop_append head by simp
    moreover have "out_ok out'" using ok pl off c o' unfolding st by (simp add: out_ok_def)
    ultimately show ?thesis unfolding eq out'_def by (simp only:)
  qed
  then show "out_ok (partial_send_store out rem)"
    "out_bytes (partial_send_store out rem) = drop (length (out_bytes out) - unat rem) (out_bytes out)" using l by simp_all
qed

section \<open>Queues\<close>

definition q_list :: "out_queue \<Rightarrow> out_list list" where
  "q_list q = (case out_resend q of None \<Rightarrow> [] | Some out \<Rightarrow> [out]) @ waiting q"

definition q_bytes :: "out_queue \<Rightarrow> u8 list" where
  "q_bytes q = concat (map out_bytes (q_list q))"

definition q_ok :: "out_queue \<Rightarrow> bool" where
  "q_ok q \<longleftrightarrow> (\<forall>out\<in>set (q_list q). out_ok out)"

text \<open>The payloads a queue has freed or has to free.\<close>

definition to_free :: "out_list \<Rightarrow> nat list" where
  "to_free out = (case payload out of Some (a, _) \<Rightarrow> if frees out then [a] else [] | None \<Rightarrow> [])"

definition q_given :: "out_queue \<Rightarrow> nat list" where
  "q_given q = freed q @ concat (map to_free (q_list q))"

lemma free_payload_simps [simp]:
  "freed (free_payload out q) = freed q @ to_free out" "waiting (free_payload out q) = waiting q"
  "conn (free_payload out q) = conn q" "out_resend (free_payload out q) = out_resend q"
  by (simp_all add: free_payload_def to_free_def split: option.splits)

lemma send_queue_empty: "q_list q = [] \<Longrightarrow> send_queue m q = Inr (q, Idle)"
  by (simp add: q_list_def send_queue_def out_pop_node_def split: option.splits)

lemma send_queue_pick:
  assumes q: "q_list q = out # outs" and s: "send_message m out (conn q) = Inr (c, rem)"
  shows "\<exists>q'. send_queue m q = Inr (q', if rem = -1 then Abort else if rem < out_pending_length out then Progress else Idle) \<and>
    conn q' = c \<and> freed q' = freed q @ (if rem = 0 \<or> rem = -1 then to_free out else []) \<and>
    q_list q' = (if rem = 0 \<or> rem = -1 then outs else partial_send_store out rem # outs)"
proof (cases "out_resend q")
  case None
  then have "waiting q = out # outs" using q by (simp add: q_list_def)
  then show ?thesis using None s by (simp add: send_queue_def out_pop_node_def q_list_def Let_def)
next
  case (Some o1)
  then have "o1 = out" "waiting q = outs" using q by (simp_all add: q_list_def)
  then show ?thesis using Some s by (simp add: send_queue_def q_list_def Let_def)
qed

lemma take_drop_append: "take n xs @ drop n xs @ ys = xs @ ys"
  by (simp flip: append_assoc)

lemma partial_send_store_ok:
  assumes "out_ok out" "unat rem \<le> length (out_bytes out)" "rem \<noteq> 0"
  shows "out_ok (partial_send_store out rem)" "to_free (partial_send_store out rem) = to_free out"
    "out_bytes (partial_send_store out rem) = drop (length (out_bytes out) - unat rem) (out_bytes out)"
proof -
  show "out_ok (partial_send_store out rem)" "out_bytes (partial_send_store out rem) = drop (length (out_bytes out) - unat rem) (out_bytes out)"
    using partial_plain [OF assms(1,2)] partial_payload [OF assms] by (cases "payload out"; force)+
  show "to_free (partial_send_store out rem) = to_free out" by (simp add: partial_send_store_def to_free_def Let_def split: option.splits)
qed

text \<open>
  What a sender does to a queue: no message is damaged, the payloads stay accounted for, and
  as long as no send has failed the bytes on the wire and in the queue are the same.
\<close>

definition q_moves :: "out_queue \<Rightarrow> out_queue \<Rightarrow> bool" where
  "q_moves q q' \<longleftrightarrow>
     q_ok q' \<and> q_given q' = q_given q \<and> (stopped (conn q) \<longrightarrow> stopped (conn q')) \<and> length (q_bytes q') \<le> length (q_bytes q) \<and>
     (\<not> stopped (conn q') \<longrightarrow> wire (conn q') @ q_bytes q' = wire (conn q) @ q_bytes q)"

lemma send_queue_ok:
  assumes ok: "q_ok q"
  shows "\<exists>q' st. send_queue m q = Inr (q', st) \<and> q_moves q q' \<and> (st = Progress \<longrightarrow> length (q_bytes q') < length (q_bytes q))"
proof (cases "q_list q")
  case Nil
  then show ?thesis using ok by (simp add: send_queue_empty q_moves_def)
next
  case (Cons out outs)
  then have out: "out_ok out" and outs: "\<forall>out\<in>set outs. out_ok out" using ok by (simp_all add: q_ok_def)
  obtain c rem where s: "send_message m out (conn q) = Inr (c, rem)" "message_sent out (conn q) c rem"
    using send_message_ok [OF out] by blast
  obtain q' where q': "send_queue m q = Inr (q', if rem = -1 then Abort else if rem < out_pending_length out then Progress else Idle)"
    "conn q' = c" "freed q' = freed q @ (if rem = 0 \<or> rem = -1 then to_free out else [])"
    "q_list q' = (if rem = 0 \<or> rem = -1 then outs else partial_send_store out rem # outs)"
    using send_queue_pick [OF Cons s(1)] by blast
  have bytes: "q_bytes q = out_bytes out @ concat (map out_bytes outs)" by (simp add: q_bytes_def Cons)
  have less: "rem < out_pending_length out \<longleftrightarrow> unat rem < length (out_bytes out)"
    by (simp add: word_less_nat_alt out_length(2) [OF out])
  have m1: "unat (-1 :: u64) = 2 ^ 64 - 1" by (simp add: unsigned_minus_1_eq_mask mask_eq_exp_minus_1)
  show ?thesis
  proof (cases "rem = 0 \<or> rem = -1")
    case True
    then have b: "q_bytes q' = concat (map out_bytes outs)" using q'(4) by (simp add: q_bytes_def)
    have "wire c @ q_bytes q' = wire (conn q) @ q_bytes q" if "\<not> stopped c"
      using s(2) that True out_length(3) [OF out] m1 by (auto simp: message_sent_def b bytes)
    then show ?thesis using True q' s(2) outs out_length(3) [OF out] m1
      by (auto simp: q_moves_def q_ok_def q_given_def Cons b bytes less message_sent_def)
  next
    case False
    then have r: "unat rem \<le> length (out_bytes out)" "rem \<noteq> 0" using s(2) by (auto simp: message_sent_def)
    note store = partial_send_store_ok [OF out r]
    have b: "q_bytes q' = drop (length (out_bytes out) - unat rem) (out_bytes out) @ concat (map out_bytes outs)"
      using q'(4) False store(3) by (simp add: q_bytes_def)
    have "wire c @ q_bytes q' = wire (conn q) @ q_bytes q" if "\<not> stopped c"
      using s(2) that by (simp add: message_sent_def b bytes take_drop_append)
    then show ?thesis using False q' s(2) outs store r
      by (auto simp: q_moves_def q_ok_def q_given_def Cons b bytes less message_sent_def)
  qed
qed

definition t_moves :: "tx_node \<Rightarrow> tx_node \<Rightarrow> bool" where
  "t_moves t t' \<longleftrightarrow>
     arts_global_rank_id t' = arts_global_rank_id t \<and> arts_global_rank_count t' = arts_global_rank_count t \<and> ports t' = ports t \<and>
     (\<forall>i. q_moves (queues t i) (queues t' i))"

definition t_ok :: "tx_node \<Rightarrow> bool" where
  "t_ok t \<longleftrightarrow> (\<forall>i. q_ok (queues t i))"

lemma q_moves_trans: "q_moves a b \<Longrightarrow> q_moves b c \<Longrightarrow> q_moves a c"
  by (auto simp: q_moves_def)

lemma t_moves_refl: "t_ok t \<Longrightarrow> t_moves t t"
  by (simp add: t_moves_def t_ok_def q_moves_def)

lemma t_moves_trans: "t_moves a b \<Longrightarrow> t_moves b c \<Longrightarrow> t_moves a c"
  by (auto simp: t_moves_def intro: q_moves_trans)

lemma t_moves_ok: "t_moves t t' \<Longrightarrow> t_ok t'"
  by (simp add: t_moves_def t_ok_def q_moves_def)

lemma t_moves_length: "t_moves t t' \<Longrightarrow> length (q_bytes (queues t' i)) \<le> length (q_bytes (queues t i))"
  by (simp add: t_moves_def q_moves_def)

lemma t_moves_one:
  assumes "t_ok t" "q_moves (queues t i) q"
  shows "t_moves t (t\<lparr>queues := (queues t)(i := q)\<rparr>)"
  using assms t_moves_refl [OF assms(1)] by (simp add: t_moves_def)

lemma send_round_ok:
  assumes "t_ok t"
  shows "\<exists>t' sent ab. send_round m is t = Inr (t', sent, ab) \<and> t_moves t t' \<and>
    (sent \<longrightarrow> (\<exists>i\<in>set is. length (q_bytes (queues t' i)) < length (q_bytes (queues t i))))"
  using assms
proof (induction "is" arbitrary: t)
  case Nil
  then show ?case by (auto simp: t_moves_refl)
next
  case (Cons i "is")
  obtain q st where q: "send_queue m (queues t i) = Inr (q, st)" "q_moves (queues t i) q"
    "st = Progress \<longrightarrow> length (q_bytes q) < length (q_bytes (queues t i))"
    using send_queue_ok Cons.prems by (metis t_ok_def)
  define t1 where "t1 = t\<lparr>queues := (queues t)(i := q)\<rparr>"
  have m1: "t_moves t t1" unfolding t1_def by (rule t_moves_one [OF Cons.prems q(2)])
  obtain t' sent ab where r: "send_round m is t1 = Inr (t', sent, ab)" "t_moves t1 t'"
    "sent \<longrightarrow> (\<exists>i\<in>set is. length (q_bytes (queues t' i)) < length (q_bytes (queues t1 i)))"
    using Cons.IH [OF t_moves_ok [OF m1]] by blast
  have "length (q_bytes (queues t' i)) < length (q_bytes (queues t i))" if "st = Progress"
    using q(3) that t_moves_length [OF r(2), of i] by (simp add: t1_def)
  moreover have "length (q_bytes (queues t' j)) < length (q_bytes (queues t j))"
    if "length (q_bytes (queues t' j)) < length (q_bytes (queues t1 j))" for j
    using that t_moves_length [OF m1, of j] by simp
  ultimately show ?case using q(1) r t_moves_trans [OF m1 r(2)] m1 by (auto simp: t1_def [symmetric])
qed

definition pending :: "nat list \<Rightarrow> tx_node \<Rightarrow> nat" where
  "pending is t = (\<Sum>i\<in>set is. length (q_bytes (queues t i)))"

lemma async_loop_ok:
  assumes "t_ok t" "pending is t < fuel"
  shows "\<exists>t' b. async_loop fuel m is success t = Inr (t', b)"
  using assms
proof (induction fuel arbitrary: t success)
  case (Suc fuel)
  obtain t1 sent ab where r: "send_round m is t = Inr (t1, sent, ab)" "t_moves t t1"
    "sent \<longrightarrow> (\<exists>i\<in>set is. length (q_bytes (queues t1 i)) < length (q_bytes (queues t i)))"
    using send_round_ok [OF Suc.prems(1)] by blast
  have "pending is t1 < pending is t" if sent
    unfolding pending_def using r(3) that t_moves_length [OF r(2)] by (intro sum_strict_mono_ex1) auto
  then show ?case using r(1) Suc.IH [OF t_moves_ok [OF r(2)], of True] Suc.prems(2) by auto
qed simp

lemma async_loop_moves:
  assumes "t_ok t" "async_loop fuel m is success t = Inr (t', b)"
  shows "t_moves t t'"
  using assms
proof (induction fuel arbitrary: t success)
  case (Suc fuel)
  obtain t1 sent ab where r: "send_round m is t = Inr (t1, sent, ab)" "t_moves t t1"
    using send_round_ok [OF Suc.prems(1)] by blast
  show ?case using Suc.prems(2) r Suc.IH [OF t_moves_ok [OF r(2)], of True] t_moves_trans [OF r(2)] by (auto split: if_splits)
qed simp

section \<open>Both ends\<close>

text \<open>
  A rank that sends, and at the other end of each of its connections the buffer of the
  receiver.  \<open>queued\<close> and \<open>handed\<close> record, for each queue, the messages and the payloads to
  free that the callers passed.
\<close>

record transport =
  tx :: tx_node
  slots :: "nat \<Rightarrow> rx_slot"
  queued :: "nat \<Rightarrow> u8 list list"
  handed :: "nat \<Rightarrow> nat list"

definition transport_start :: "u32 \<Rightarrow> u32 \<Rightarrow> u32 \<Rightarrow> (nat \<Rightarrow> u8 list) \<Rightarrow> transport" where
  "transport_start rank rank_count port_count mem =
     \<lparr>tx = out_init rank rank_count port_count, slots = (\<lambda>i. new_slot (mem i)), queued = (\<lambda>_. []), handed = (\<lambda>_. [])\<rparr>"

definition record_message :: "nat \<Rightarrow> u8 list \<Rightarrow> nat list \<Rightarrow> transport \<Rightarrow> transport" where
  "record_message i bytes frs s =
     s\<lparr>queued := (queued s)(i := queued s i @ [bytes]), handed := (handed s)(i := handed s i @ frs)\<rparr>"

text \<open>The sockets of the sender follow other scripts from now on.\<close>

definition with_scripts :: "(nat \<Rightarrow> send_result list \<times> bool list) \<Rightarrow> tx_node \<Rightarrow> tx_node" where
  "with_scripts f t =
     t\<lparr>queues := (\<lambda>i. (queues t i)\<lparr>conn := (conn (queues t i))\<lparr>send_script := fst (f i), connects := snd (f i)\<rparr>\<rparr>)\<rparr>"

text \<open>
  Steps: a message is queued, alone or with a payload behind it, with the size of both in its
  header; the sender runs; a receiver runs.
\<close>

inductive transport_step :: "send_limits \<Rightarrow> u32 \<Rightarrow> transport \<Rightarrow> transport \<Rightarrow> bool" for m limit where
  queue_message: "self_send_check rank (tx s) \<Longrightarrow> framed (take (unat ln) msg) \<Longrightarrow>
    out_queue_id_for_rank g rank (tx s) = Inr i \<Longrightarrow> arts_remote_send_request_async g rank msg ln (tx s) = Inr t \<Longrightarrow>
    transport_step m limit s (record_message (unat i) (take (unat ln) msg) [] (s\<lparr>tx := t\<rparr>))"
| queue_payload: "self_send_check rank (tx s) \<Longrightarrow> framed (take (unat ln) msg @ take (unat sz) (drop (unat off) bytes)) \<Longrightarrow>
    unat off + unat sz \<le> length bytes \<Longrightarrow> unat off + unat sz < 2 ^ 32 \<Longrightarrow>
    out_queue_id_for_rank g rank (tx s) = Inr i \<Longrightarrow>
    arts_remote_send_request_payload_async_free g rank msg ln (a, bytes) off sz frs (tx s) = Inr t \<Longrightarrow>
    transport_step m limit s
      (record_message (unat i) (take (unat ln) msg @ take (unat sz) (drop (unat off) bytes)) (if frs then [a] else []) (s\<lparr>tx := t\<rparr>))"
| send: "arts_remote_async_send fuel m thread_start thread_stop (with_scripts f (tx s)) = Inr (t, b) \<Longrightarrow>
    transport_step m limit s (s\<lparr>tx := t\<rparr>)"
| receive: "\<not> closed (slots s i) \<Longrightarrow>
    receive_slot fresh limit ((conn (queues (tx s) i))\<lparr>recv_script := rs\<rparr>) (slots s i) = Inr (c, r, again) \<Longrightarrow>
    transport_step m limit s
      (s\<lparr>tx := (tx s)\<lparr>queues := (queues (tx s))(i := (queues (tx s) i)\<lparr>conn := c\<rparr>)\<rparr>, slots := (slots s)(i := r)\<rparr>)"

text \<open>
  The invariant of one connection: what was queued and what was handed over is all in one
  place or the other, unless a send has failed.
\<close>

definition link_ok :: "transport \<Rightarrow> nat \<Rightarrow> bool" where
  "link_ok s i \<longleftrightarrow>
     q_ok (queues (tx s) i) \<and> (\<forall>p\<in>set (queued s i). framed p) \<and> q_given (queues (tx s) i) = handed s i \<and>
     (\<not> stopped (conn (queues (tx s) i)) \<longrightarrow>
        received (queued s i) (q_bytes (queues (tx s) i)) (conn (queues (tx s) i)) (slots s i))"

lemma start_link: "link_ok (transport_start rank n k mem) i"
  by (simp add: link_ok_def transport_start_def out_init_def new_queue_def q_ok_def q_list_def q_given_def q_bytes_def
      received_def stream_def new_slot_def)

text \<open>A message added at the end of a queue.\<close>

lemma received_more:
  "received pkts future c r \<Longrightarrow> received (pkts @ [p]) (future @ p) c r"
  by (auto simp: received_def)

lemma link_add:
  assumes ok: "link_ok s i" and new: "out_ok node" "framed (out_bytes node)"
    and q: "queues t = (queues (tx s))(i := (queues (tx s) i)\<lparr>waiting := waiting (queues (tx s) i) @ [node]\<rparr>)"
  shows "link_ok (record_message i (out_bytes node) (to_free node) (s\<lparr>tx := t\<rparr>)) i"
proof -
  have l: "q_list (queues t i) = q_list (queues (tx s) i) @ [node]" "freed (queues t i) = freed (queues (tx s) i)"
    "conn (queues t i) = conn (queues (tx s) i)" unfolding q by (simp_all add: q_list_def)
  then show ?thesis using ok new received_more
    by (auto simp: link_ok_def record_message_def q_ok_def q_given_def q_bytes_def)
qed

lemma link_other:
  assumes "link_ok s j" "queues t j = queues (tx s) j" "j \<noteq> i"
  shows "link_ok (record_message i bytes frs (s\<lparr>tx := t\<rparr>)) j"
  using assms by (simp add: link_ok_def record_message_def)

text \<open>What the calls that queue a message add, and where.\<close>

lemma insert_node:
  assumes "out_insert_node g rank node t = Inr t'" "out_queue_id_for_rank g rank t = Inr i"
  shows "queues t' = (queues t)(unat i := (queues t (unat i))\<lparr>waiting := waiting (queues t (unat i)) @ [node]\<rparr>)"
  using assms by (auto simp: out_insert_node_def Let_def)

lemma message_node:
  assumes "arts_remote_send_request_async g rank msg ln t = Inr t'" "self_send_check rank t" "out_queue_id_for_rank g rank t = Inr i"
  obtains node where "out_ok node" "out_bytes node = take (unat ln) msg" "to_free node = []"
    "queues t' = (queues t)(unat i := (queues t (unat i))\<lparr>waiting := waiting (queues t (unat i)) @ [node]\<rparr>)"
proof -
  let ?node = "\<lparr>offset = 0, len = ln, message = take (unat ln) msg, payload = None, payloadSize = 0, offsetPayload = 0, frees = False\<rparr>"
  have "unat ln \<le> length msg" "unat ln + SIZEOF_OUT_LIST < 2 ^ 32" and ins: "out_insert_node g rank ?node t = Inr t'"
    using assms by (auto simp: arts_remote_send_request_async_def copy_message_def split: if_splits)
  then have "out_ok ?node" "out_bytes ?node = take (unat ln) msg" "to_free ?node = []"
    by (simp_all add: out_ok_def out_bytes_def payload_bytes_def to_free_def)
  then show thesis using that insert_node [OF ins assms(3)] by blast
qed

lemma payload_node:
  assumes "arts_remote_send_request_payload_async_free g rank msg ln (a, bytes) off sz frs t = Inr t'" "self_send_check rank t"
    "out_queue_id_for_rank g rank t = Inr i" "unat off + unat sz \<le> length bytes" "unat off + unat sz < 2 ^ 32"
  obtains node where "out_ok node" "out_bytes node = take (unat ln) msg @ take (unat sz) (drop (unat off) bytes)"
    "to_free node = (if frs then [a] else [])"
    "queues t' = (queues t)(unat i := (queues t (unat i))\<lparr>waiting := waiting (queues t (unat i)) @ [node]\<rparr>)"
proof -
  let ?node = "\<lparr>offset = 0, len = ln, message = take (unat ln) msg, payload = Some (a, bytes), payloadSize = sz, offsetPayload = off, frees = frs\<rparr>"
  have "unat ln \<le> length msg" "unat ln + SIZEOF_OUT_LIST < 2 ^ 32" "sz \<noteq> 0" and ins: "out_insert_node g rank ?node t = Inr t'"
    using assms(1,2) by (auto simp: arts_remote_send_request_payload_async_free_def copy_message_def size_send_check_def split: if_splits)
  then have "out_ok ?node" "out_bytes ?node = take (unat ln) msg @ take (unat sz) (drop (unat off) bytes)" "to_free ?node = (if frs then [a] else [])"
    using assms(4,5) by (simp_all add: out_ok_def out_bytes_def payload_bytes_def to_free_def)
  then show thesis using that insert_node [OF ins assms(3)] by blast
qed

lemma payload_async_is_free:
  "arts_remote_send_request_payload_async g rank msg ln pl sz t = arts_remote_send_request_payload_async_free g rank msg ln pl 0 sz False t"
  by (simp add: arts_remote_send_request_payload_async_def arts_remote_send_request_payload_async_free_def)

lemma scripts_same:
  "q_list (queues (with_scripts f t) i) = q_list (queues t i)" "freed (queues (with_scripts f t) i) = freed (queues t i)"
  "wire (conn (queues (with_scripts f t) i)) = wire (conn (queues t i))"
  "stopped (conn (queues (with_scripts f t) i)) = stopped (conn (queues t i))"
  by (simp_all add: with_scripts_def q_list_def)

lemma t_ok_links: "(\<forall>i. link_ok s i) \<Longrightarrow> t_ok (with_scripts f (tx s))"
  by (simp add: t_ok_def link_ok_def q_ok_def scripts_same)

lemma received_moves:
  assumes "received pkts future c r" "wire c' @ future' = wire c @ future"
  shows "received pkts future' c' r"
  using assms by (auto simp: received_def stream_def)

lemma link_send:
  assumes ok: "\<forall>i. link_ok s i" and "arts_remote_async_send fuel m a z (with_scripts f (tx s)) = Inr (t, b)"
  shows "link_ok (s\<lparr>tx := t\<rparr>) i"
proof -
  have "t_moves (with_scripts f (tx s)) t"
    using assms(2) async_loop_moves [OF t_ok_links [OF ok]] by (simp add: arts_remote_async_send_def)
  then have mv: "q_moves (queues (with_scripts f (tx s)) i) (queues t i)" by (simp add: t_moves_def)
  have l: "link_ok s i" using ok ..
  show ?thesis using l mv received_moves
    by (auto simp: link_ok_def q_moves_def q_given_def q_bytes_def scripts_same)
qed

lemma link_receive:
  assumes ok: "link_ok s i" and "\<not> closed (slots s i)"
    "receive_slot fresh limit ((conn (queues (tx s) i))\<lparr>recv_script := rs\<rparr>) (slots s i) = Inr (c, r, again)"
  shows "link_ok (s\<lparr>tx := (tx s)\<lparr>queues := (queues (tx s))(i := (queues (tx s) i)\<lparr>conn := c\<rparr>)\<rparr>, slots := (slots s)(i := r)\<rparr>) i"
proof -
  let ?c = "(conn (queues (tx s) i))\<lparr>recv_script := rs\<rparr>"
  have "received (queued s i) (q_bytes (queues (tx s) i)) c r \<and> stopped c = stopped ?c" if "\<not> stopped ?c"
  proof -
    have "received (queued s i) (q_bytes (queues (tx s) i)) ?c (slots s i)" "\<forall>p\<in>set (queued s i). framed p"
      using ok that by (simp_all add: link_ok_def received_def stream_def)
    from receive_slot_ok [OF this(1) assms(2) this(2), of fresh limit] show ?thesis using assms(3) by auto
  qed
  moreover have "stopped c" if "stopped ?c" using receive_stopped [OF assms(3)] that by simp
  ultimately show ?thesis using ok by (auto simp: link_ok_def q_ok_def q_given_def q_bytes_def q_list_def)
qed

lemma link_same: "link_ok s j \<Longrightarrow> queues t j = queues (tx s) j \<Longrightarrow> j \<noteq> i \<Longrightarrow> link_ok (s\<lparr>tx := t, slots := (slots s)(i := r)\<rparr>) j"
  by (simp add: link_ok_def)

lemma transport_step_ok:
  assumes "transport_step m limit s s'" and ok: "\<forall>i. link_ok s i"
  shows "link_ok s' j"
  using assms(1)
proof cases
  case (queue_message rank ln msg g i t)
  obtain node where n: "out_ok node" "out_bytes node = take (unat ln) msg" "to_free node = []"
    "queues t = (queues (tx s))(unat i := (queues (tx s) (unat i))\<lparr>waiting := waiting (queues (tx s) (unat i)) @ [node]\<rparr>)"
    using message_node [OF queue_message(5,2,4)] by metis
  have "link_ok s'  (unat i)" using link_add [OF ok [rule_format] n(1) _ n(4)] queue_message(1,3) n(2,3) by simp
  moreover have "link_ok s' j" if "j \<noteq> unat i" using link_other [OF ok [rule_format] _ that] n(4) that queue_message(1) by simp
  ultimately show ?thesis by (cases "j = unat i") simp_all
next
  case (queue_payload rank ln msg sz off bytes g i a frs t)
  obtain node where n: "out_ok node" "out_bytes node = take (unat ln) msg @ take (unat sz) (drop (unat off) bytes)"
    "to_free node = (if frs then [a] else [])"
    "queues t = (queues (tx s))(unat i := (queues (tx s) (unat i))\<lparr>waiting := waiting (queues (tx s) (unat i)) @ [node]\<rparr>)"
    using payload_node [OF queue_payload(7,2,6,4,5)] by metis
  have "link_ok s' (unat i)" using link_add [OF ok [rule_format] n(1) _ n(4)] queue_payload(1,3) n(2,3) by simp
  moreover have "link_ok s' j" if "j \<noteq> unat i" using link_other [OF ok [rule_format] _ that] n(4) that queue_payload(1) by simp
  ultimately show ?thesis by (cases "j = unat i") simp_all
next
  case (send fuel a z f t b)
  then show ?thesis using link_send [OF ok] by simp
next
  case (receive i fresh rs c r again)
  then show ?thesis using link_receive [OF ok [rule_format] receive(2,3)] link_same [OF ok [rule_format], where j = j and i = i] by (cases "j = i") simp_all
qed

lemma received_prefix: "received pkts future c r \<Longrightarrow> prefix (processed r) pkts"
  by (auto simp: received_def)

lemma received_all:
  assumes "received pkts future c r" "\<not> closed r" "wire c = []" "re_recieve_res r = 0" "future = []" "\<forall>p\<in>set pkts. framed p"
  shows "processed r = pkts"
proof -
  obtain ps where ps: "pkts = processed r @ ps" "concat ps = []" using assms by (auto simp: received_def stream_def)
  have "ps = []" using ps assms(6) by (cases ps) (auto simp: framed_def)
  then show ?thesis using ps by simp
qed

lemma transport_reach_ok:
  assumes "(transport_step m limit)\<^sup>*\<^sup>* (transport_start rank n k mem) s"
  shows "\<forall>i. link_ok s i"
  using assms
proof induction
  case base
  show ?case using start_link by blast
next
  case (step y z)
  then show ?case using transport_step_ok by blast
qed

text \<open>
  Two defects of the sender.  An error while the message in front of a payload is sent is taken
  for progress: the message counts as sent and the payload goes on with its second byte.
  The offset into a payload has 32 bits and wraps around at four gigabytes.
\<close>

lemma message_error_taken_for_progress:
  assumes q: "out_resend q = Some out" and out: "out_ok out" "payload out = Some (a, b)" "len out \<noteq> 0" "1 < unat (payloadSize out)"
    and c: "send_script (conn q) = [S_Error]" "connects (conn q) = []"
  shows "\<exists>q' o'. send_queue m q = Inr (q', Progress) \<and> stopped (conn q') \<and> wire (conn q') = wire (conn q) \<and>
    out_resend q' = Some o' \<and> len o' = 0 \<and> payloadSize o' = payloadSize out - 1"
proof -
  let ?c = "(conn q)\<lparr>send_script := [], stopped := True\<rparr>"
  have ne: "(ucast (len out) :: u64) \<noteq> 0" using out(3) unat_len64 [of "len out"] by (metis unsigned_0 unsigned_eq_0_iff)
  have "arts_actual_send (max_bytes m) (max_iters m) (drop (unat (offset out)) (message out)) (ucast (len out)) (conn q) = Inr (?c, -1)"
    using ne out_room(1) [OF out(1)] c(1) by (simp add: arts_actual_send_def send_loop.simps [of _ _ _ 0] RSEND_def unat_len64)
  then have s: "send_message m out (conn q) = Inr (?c, payloadSize out - 1)"
    using c(2) by (simp add: send_message_def out(2) arts_remote_send_payload_request_def connected_def)
  have r: "unat (payloadSize out - 1) = unat (payloadSize out) - 1" using out(4) by (simp add: unat_sub_le)
  then have nz: "payloadSize out - 1 \<noteq> 0" "payloadSize out - 1 \<noteq> -1" using out(4) by auto
  have less: "payloadSize out - 1 < out_pending_length out"
    using r out(2,4) by (simp add: word_less_nat_alt out_length(2) [OF out(1)] out_length(1) [OF out(1)])
  have "unat (ucast (len out) + (1 :: u64)) = unat (len out) + 1"
    using unat_len32 [of "len out"] by (subst unat_add_lt) (simp_all add: unat_len64)
  then have "(ucast (len out) :: u64) \<le> ucast (len out) + 1" by (simp add: word_le_nat_alt unat_len64)
  then have "len (partial_send_store out (payloadSize out - 1)) = 0" "payloadSize (partial_send_store out (payloadSize out - 1)) = payloadSize out - 1"
    by (simp_all add: partial_send_store_def out(2) add.commute)
  then show ?thesis using q s nz less by (simp add: send_queue_def Let_def)
qed

lemma payload_offset_wraps:
  assumes "payload out \<noteq> None" "len out = 0" "offsetPayload out = 0" "payloadSize out = 2 ^ 33"
  shows "offsetPayload (partial_send_store out (2 ^ 32)) = 0" "payloadSize (partial_send_store out (2 ^ 32)) = 2 ^ 32"
  using assms by (simp_all add: partial_send_store_def Let_def)

text \<open>A run: a packet is queued, sent in two pieces and received.\<close>

definition demo_packet :: "u8 list" where
  "demo_packet = arts_fill_packet_header 0 (replicate HEADER_SIZE 0) 32 1"

lemma demo_framed: "framed demo_packet" "length demo_packet = 32"
  using packet_size_fill(1) [of "replicate HEADER_SIZE 0" 0 32 1 "[]"] packet_size_fill(2) [of "replicate HEADER_SIZE 0" 0 32 1]
  by (simp_all add: framed_def demo_packet_def)

lemma receive_one:
  assumes p: "framed p" "length p \<le> length (bypass_buf r)" "length p \<le> MAX_RW" and r: "re_recieve_res r = 0"
    and c: "wire c = p" "recv_script c = [Got (length p)]"
  shows "\<exists>c' r'. receive_slot fresh 0 c r = Inr (c', r', False) \<and> wire c' = [] \<and> re_recieve_res r' = 0 \<and> closed r' = closed r \<and> stopped c' = stopped c"
proof -
  have ne: "p \<noteq> []" "length p \<noteq> 0" "HEADER_SIZE \<le> length p" using p(1) by (auto simp: framed_def)
  have g: "RRECV (length (bypass_buf r)) c = (c\<lparr>wire := [], recv_script := []\<rparr>, Got (length p), p)"
    using p ne c by (auto simp: RRECV_def Let_def)
  have b: "bypass_buf (put_bytes 0 p r) = p @ drop (length p) (bypass_buf r)" by (simp add: put_bytes_def)
  have sz: "packet_size (p @ drop (length p) (bypass_buf r)) = length p"
    using packet_size_prefix [of "p @ drop (length p) (bypass_buf r)" p] p(1) ne by (simp add: framed_def)
  have grow: "grow_buffer fresh (length p) (put_bytes 0 p r) = put_bytes 0 p r" using p(2) by (simp add: grow_buffer_def b)
  show ?thesis using ne r
    by (simp add: receive_slot_def g recv_packets.simps [of fresh 0 0 "length p"] fill.simps b sz grow recv_packets.simps [of fresh 0 _ 0])
qed

definition demo_start :: transport where
  "demo_start = transport_start 0 2 1 (\<lambda>_. replicate PACKET_SIZE 0)"

definition demo_queue :: "connection \<Rightarrow> out_list list \<Rightarrow> out_queue" where
  "demo_queue c outs = new_queue\<lparr>waiting := outs, conn := c\<rparr>"

definition demo_tx :: "out_queue \<Rightarrow> tx_node" where
  "demo_tx q = (out_init 0 2 1)\<lparr>queues := (\<lambda>_. new_queue)(1 := q)\<rparr>"

definition demo_node :: out_list where
  "demo_node = \<lparr>offset = 0, len = 32, message = demo_packet, payload = None, payloadSize = 0, offsetPayload = 0, frees = False\<rparr>"

abbreviation no_limits :: send_limits where "no_limits \<equiv> \<lparr>max_bytes = 0, max_iters = 0\<rparr>"

lemma demo_queued:
  "transport_step no_limits 0 demo_start (record_message 1 demo_packet [] (demo_start\<lparr>tx := demo_tx (new_queue\<lparr>waiting := [demo_node]\<rparr>)\<rparr>))"
proof -
  have "arts_remote_send_request_async 0 1 demo_packet 32 (tx demo_start) = Inr (demo_tx (new_queue\<lparr>waiting := [demo_node]\<rparr>))"
    by (simp add: arts_remote_send_request_async_def demo_start_def transport_start_def out_init_def self_send_check_def
        copy_message_def demo_framed out_insert_node_def out_queue_id_for_rank_def demo_tx_def demo_node_def new_queue_def fun_eq_iff word_le_nat_alt)
  moreover have "out_queue_id_for_rank 0 1 (tx demo_start) = Inr 1" "self_send_check 1 (tx demo_start)"
    by (simp_all add: demo_start_def transport_start_def out_init_def out_queue_id_for_rank_def self_send_check_def word_le_nat_alt)
  ultimately have "transport_step no_limits 0 demo_start
      (record_message (unat (1 :: u32)) (take (unat (32 :: u32)) demo_packet) [] (demo_start\<lparr>tx := demo_tx (new_queue\<lparr>waiting := [demo_node]\<rparr>)\<rparr>))"
    using demo_framed by (intro queue_message) simp_all
  then show ?thesis by (simp add: demo_framed)
qed

lemma demo_message_sent:
  assumes "send_script c = [Sent 10, Sent 22]" "connects c = []"
  shows "send_message no_limits demo_node c = Inr (c\<lparr>wire := wire c @ demo_packet, send_script := []\<rparr>, 0)"
proof -
  let ?c = "c\<lparr>wire := wire c @ take 10 demo_packet, send_script := [Sent 22]\<rparr>"
  have "send_loop 0 0 demo_packet 10 22 1 ?c = Inr (c\<lparr>wire := wire c @ demo_packet, send_script := []\<rparr>, 0)"
    using demo_framed(2) by (subst send_loop.simps) (simp add: RSEND_def send_loop.simps [of _ _ _ _ 0])
  then have "send_loop 0 0 demo_packet 0 32 0 c = Inr (c\<lparr>wire := wire c @ demo_packet, send_script := []\<rparr>, 0)"
    using assms(1) demo_framed(2) by (subst send_loop.simps) (simp add: RSEND_def)
  then show ?thesis using assms(2)
    by (simp add: send_message_def demo_node_def arts_remote_send_request_def connected_def arts_actual_send_def)
qed

lemma demo_sent:
  "\<exists>t. arts_remote_async_send (Suc (Suc 0)) no_limits 1 2 (with_scripts (\<lambda>_. ([Sent 10, Sent 22], [])) (demo_tx (new_queue\<lparr>waiting := [demo_node]\<rparr>)))
      = Inr (t, True) \<and> waiting (queues t 1) = [] \<and> out_resend (queues t 1) = None \<and>
        wire (conn (queues t 1)) = demo_packet \<and> \<not> stopped (conn (queues t 1))"
proof -
  let ?c = "(conn new_queue)\<lparr>send_script := [Sent 10, Sent 22], connects := []\<rparr>"
  let ?q = "new_queue\<lparr>waiting := [demo_node], conn := ?c\<rparr>"
  let ?q' = "new_queue\<lparr>waiting := [], conn := ?c\<lparr>wire := demo_packet, send_script := []\<rparr>\<rparr>"
  have m: "send_message no_limits demo_node ?c = Inr (?c\<lparr>wire := demo_packet, send_script := []\<rparr>, 0)"
    using demo_message_sent [of ?c] by (simp add: new_queue_def)
  have pend: "0 < out_pending_length demo_node" by (simp add: out_pending_length_def demo_node_def word_less_nat_alt)
  have q: "send_queue no_limits ?q = Inr (?q', Progress)"
    using m pend by (simp add: send_queue_def out_pop_node_def free_payload_def new_queue_def demo_node_def Let_def)
  have q': "send_queue no_limits ?q' = Inr (?q', Idle)" by (simp add: send_queue_empty q_list_def new_queue_def)
  have "[1..<2] = [1 :: nat]" by (simp add: upt_rec)
  moreover have "queues (with_scripts (\<lambda>_. ([Sent 10, Sent 22], [])) (demo_tx (new_queue\<lparr>waiting := [demo_node]\<rparr>))) 1 = ?q"
    by (simp add: with_scripts_def demo_tx_def new_queue_def)
  ultimately show ?thesis using q q' by (simp add: arts_remote_async_send_def) (simp add: new_queue_def)
qed

lemma demo_delivery:
  "\<exists>s. (transport_step no_limits 0)\<^sup>*\<^sup>* demo_start s \<and> queued s 1 = [demo_packet] \<and> \<not> stopped (conn (queues (tx s) 1)) \<and>
     \<not> closed (slots s 1) \<and> waiting (queues (tx s) 1) = [] \<and> out_resend (queues (tx s) 1) = None \<and>
     wire (conn (queues (tx s) 1)) = [] \<and> re_recieve_res (slots s 1) = 0"
proof -
  let ?s1 = "record_message 1 demo_packet [] (demo_start\<lparr>tx := demo_tx (new_queue\<lparr>waiting := [demo_node]\<rparr>)\<rparr>)"
  obtain t where t: "arts_remote_async_send (Suc (Suc 0)) no_limits 1 2 (with_scripts (\<lambda>_. ([Sent 10, Sent 22], [])) (tx ?s1)) = Inr (t, True)"
    "waiting (queues t 1) = []" "out_resend (queues t 1) = None" "wire (conn (queues t 1)) = demo_packet" "\<not> stopped (conn (queues t 1))"
    using demo_sent by (auto simp: record_message_def)
  let ?s2 = "?s1\<lparr>tx := t\<rparr>"
  let ?c = "(conn (queues (tx ?s2) 1))\<lparr>recv_script := [Got (length demo_packet)]\<rparr>"
  have slot: "slots ?s2 1 = new_slot (replicate PACKET_SIZE 0)" by (simp add: record_message_def demo_start_def transport_start_def)
  have "length (bypass_buf (slots ?s2 1)) = PACKET_SIZE" "re_recieve_res (slots ?s2 1) = 0" "\<not> closed (slots ?s2 1)"
    unfolding slot by (simp_all add: new_slot_def)
  moreover from this obtain c r where r: "receive_slot 0 0 ?c (slots ?s2 1) = Inr (c, r, False)" "wire c = []" "re_recieve_res r = 0" "\<not> closed r" "\<not> stopped c"
    using receive_one [OF demo_framed(1), of "slots ?s2 1" ?c 0] demo_framed(2) t(4,5) by auto
  ultimately have "transport_step no_limits 0 ?s2 (?s2\<lparr>tx := (tx ?s2)\<lparr>queues := (queues (tx ?s2))(1 := (queues (tx ?s2) 1)\<lparr>conn := c\<rparr>)\<rparr>, slots := (slots ?s2)(1 := r)\<rparr>)"
    (is "transport_step _ _ _ ?s3") by (intro receive) auto
  moreover have "transport_step no_limits 0 ?s1 ?s2" by (rule send [OF t(1)])
  ultimately have "(transport_step no_limits 0)\<^sup>*\<^sup>* demo_start ?s3" using demo_queued by (meson rtranclp.intros)
  moreover have "queued ?s3 1 = [demo_packet]" by (simp add: record_message_def demo_start_def transport_start_def)
  ultimately show ?thesis using t r by (intro exI [of _ ?s3]) simp
qed

section \<open>Properties\<close>



text \<open>
  C40.  The sender never gets stuck in its rounds: in every reachable state a call of
  \<^verbatim>\<open>arts_remote_async_send\<close> returns, after at most as many rounds as there are bytes to send, and
  one more.
\<close>

theorem async_send_returns:
  assumes "(transport_step m limit)\<^sup>*\<^sup>* (transport_start rank n k mem) s"
    "(\<Sum>i=a..<z. length (q_bytes (queues (tx s) i))) < fuel"
  shows "\<exists>t b. arts_remote_async_send fuel m a z (with_scripts f (tx s)) = Inr (t, b)"
proof -
  have "t_ok (with_scripts f (tx s))" by (rule t_ok_links [OF transport_reach_ok [OF assms(1)]])
  moreover have "pending [a..<z] (with_scripts f (tx s)) < fuel" using assms(2) by (simp add: pending_def q_bytes_def scripts_same)
  ultimately show ?thesis unfolding arts_remote_async_send_def by (rule async_loop_ok)
qed

theorem async_send_returns_witness:
  "\<exists>t b. arts_remote_async_send 33 no_limits 1 2 (with_scripts (\<lambda>_. ([Sent 3], []))
     (tx (record_message 1 demo_packet [] (demo_start\<lparr>tx := demo_tx (new_queue\<lparr>waiting := [demo_node]\<rparr>)\<rparr>)))) = Inr (t, b)"
proof -
  let ?s = "record_message 1 demo_packet [] (demo_start\<lparr>tx := demo_tx (new_queue\<lparr>waiting := [demo_node]\<rparr>)\<rparr>)"
  have r: "(transport_step no_limits 0)\<^sup>*\<^sup>* (transport_start 0 2 1 (\<lambda>_. replicate PACKET_SIZE 0)) ?s"
    using demo_queued unfolding demo_start_def by blast
  have "queues (tx ?s) 1 = new_queue\<lparr>waiting := [demo_node]\<rparr>" by (simp add: record_message_def demo_tx_def)
  then have "q_bytes (queues (tx ?s) 1) = demo_packet"
    by (simp add: q_bytes_def q_list_def new_queue_def out_bytes_def payload_bytes_def demo_node_def demo_framed(2))
  moreover have "{1..<2} = {1 :: nat}" by auto
  ultimately have "(\<Sum>i=1..<2. length (q_bytes (queues (tx ?s) i))) < 33" using demo_framed(2) by simp
  then show ?thesis by (rule async_send_returns [OF r])
qed

end
