(* ===== verification/Spec2Isabelle.thy ===== *)
theory Spec2Isabelle
  imports Guid Atomics Array_List Link_List Deque_Concurrent Deque_Priority Route_Table Event_Props Epoch_Cluster Frontier_Props Csr_Props Edt_Pool Edt_Start Transport_Props
begin

text \<open>
  Verification of the ARTS runtime.

  \<^bold>\<open>The program.\<close>  ARTS runs event-driven tasks (EDTs) on the ranks of a cluster.  A task has
  dependency slots and starts when each has been signalled.  Tasks, events, data blocks and
  epochs are named by 64-bit GUIDs, which the route table of a rank maps to memory.
  Events signal tasks; frontiers order the accesses to a data block; epochs detect that
  all tasks of a region are done, across ranks.  Ready tasks wait in work-stealing deques.
  Ranks exchange packets over sockets.  A library on top loads distributed graphs.
  Paths below are those under \<^verbatim>\<open>src/libs/src\<close>, headers those under \<^verbatim>\<open>src/libs/include\<close>.

  \<^bold>\<open>Conventions.\<close>  \<^verbatim>\<open>Prelude\<close> has the machine integers (words of their C width), the errors
  and their propagation, and shared facts on words and lists.  A definition that carries the
  name of a C function models that function; helpers model a part of one, such as
  the body of a loop.  Code that can abort, run out of an array, divide by zero or
  dereference NULL returns an error value there.  State is passed explicitly; what a component
  asks others to do (signals, messages, frees) is recorded in the state in the order of the
  calls.  Concurrent code is a step relation in which each access to shared memory is
  a step and threads interleave freely; memory is sequentially consistent.

  \<^bold>\<open>Components.\<close>
  \<^item> \<^verbatim>\<open>Guid\<close> (\<^verbatim>\<open>core/gas/guid.c\<close>, \<^verbatim>\<open>gas/guid.h\<close>): the packed layout, the key generator of each
    worker before and after the parallel start, reservation of ranges.  GUIDs are never
    issued twice, ranges and indices are inverse.
  \<^item> \<^verbatim>\<open>Atomics\<close> (\<^verbatim>\<open>core/utils/atomics.c\<close>): the primitives, the spin lock with back-off and the
    reader-writer lock.  Mutual exclusion, bounded waiting on a free lock.
  \<^item> \<^verbatim>\<open>Array_List\<close>, \<^verbatim>\<open>Link_List\<close> (\<^verbatim>\<open>core/utils\<close>): the chunked list refines a sequence, the linked
    list a queue (locales \<^verbatim>\<open>append_sequence\<close> and \<^verbatim>\<open>fifo_queue\<close>, interpreted on the code); its
    loops end.
  \<^item> \<^verbatim>\<open>Deque\<close>, \<^verbatim>\<open>Deque_Concurrent\<close>, \<^verbatim>\<open>Deque_Priority\<close> (\<^verbatim>\<open>core/utils/deque*.c\<close>): run alone, the deque
    is a list (locale \<^verbatim>\<open>steal_deque\<close>); with an owner and thieves nothing is lost or taken twice,
    while the steal of a half is shown to take items twice.  The priority deque serves
    the least priority value first.
  \<^item> \<^verbatim>\<open>Oo_List\<close> (\<^verbatim>\<open>core/gas/out_of_order_list.c\<close>): operations on a GUID that does not exist yet are
    kept and replayed once, in order.
  \<^item> \<^verbatim>\<open>Route_Item\<close>, \<^verbatim>\<open>Route_Table\<close> (\<^verbatim>\<open>core/gas/route_table.c\<close>): the lock word of an entry and the chain of
    growing hash tables.  A lookup after an insert finds the entry and disturbs no other
    (locale \<^verbatim>\<open>guid_store\<close>); searches stay in bounds; entries are freed with their last reference.
    Three defects of deletion and reservation are proved.
  \<^item> \<^verbatim>\<open>Event\<close>, \<^verbatim>\<open>Event_Props\<close> (\<^verbatim>\<open>core/sync/event.c\<close>): latch events with blocks of dependents, channel
    events with versions.  A latch signals each dependent once; a channel pairs payloads
    and consumers in order; nested satisfactions end.
  \<^item> \<^verbatim>\<open>Epoch\<close>, \<^verbatim>\<open>Epoch_Props\<close>, \<^verbatim>\<open>Epoch_Cluster\<close> (\<^verbatim>\<open>core/sync/termination.c\<close>, its handlers in
    \<^verbatim>\<open>core/remote/handler.c\<close>): counters, phases and the reduction over the ranks.  An epoch ends only
    when no task is left on any rank, and it does end.
  \<^item> \<^verbatim>\<open>Frontier\<close>, \<^verbatim>\<open>Frontier_Props\<close> (\<^verbatim>\<open>core/memory/frontier.c\<close>, parts of \<^verbatim>\<open>core/remote/handler.c\<close> and
    \<^verbatim>\<open>core/memory/db.c\<close>): the list of frontiers with their packed locks.  Accesses wait for earlier
    writes, waiting tasks are served once and in order.  Two defects of requests from other
    ranks are proved.
  \<^item> \<^verbatim>\<open>Edt_Pool\<close> (\<^verbatim>\<open>core/compute/edt.c\<close>): the thread-local pools of task memory.  A task always has
    as much memory as its header says and shares it with no other.
  \<^item> \<^verbatim>\<open>Edt_Start\<close> (\<^verbatim>\<open>core/compute/edt.c\<close>, \<^verbatim>\<open>core/gas/out_of_order.c\<close>, \<^verbatim>\<open>core/gas/out_of_order_list.c\<close>): a task
    is created under a reserved GUID while other threads signal its slots.  It starts at most
    once, with all its data, and it does start unless the creator gives up on a lock;
    that giving up loses signals is proved too.
  \<^item> \<^verbatim>\<open>Transport\<close>, \<^verbatim>\<open>Transport_Props\<close> (\<^verbatim>\<open>core/transport/protocol.c\<close>, \<^verbatim>\<open>core/transport/socket.c\<close>): outbound
    queues, partial sends and the reassembly of packets.  Packets arrive whole and in order
    for any behaviour of the sockets short of a failure; the sender's rounds end.
  \<^item> \<^verbatim>\<open>Block_Distribution\<close>, \<^verbatim>\<open>Csr\<close>, \<^verbatim>\<open>Csr_Props\<close> (\<^verbatim>\<open>graph/distribution\<close>, \<^verbatim>\<open>graph/datastructures\<close>): the
    distribution of vertices over blocks, edge vectors, and partitions in compressed
    sparse rows.  A graph loaded from a file has the edges of the file.  The sorting of
    the C library is a parameter of which only sortedness and permutation are assumed.

  \<^bold>\<open>Bounds and fuel.\<close>  Loops recurse on their data where they can.  A recursion through
  events takes fuel; one unit for each event that can still fire is shown to be enough.  The
  rounds of the sender take fuel; the number of bytes to send and one is shown to be enough.  Word sizes are those of the code; where a property needs that a
  counter does not wrap around, the bound is a hypothesis.  The run of a task's start is
  bounded by a number that depends on its slots and the 1000 attempts of the code.

  \<^bold>\<open>Not modelled.\<close>  The scheduler's loops, start-up, configuration, topology, counters and memory
  allocation, which call the operating system or other libraries; CUDA and RDMA code; the
  parts of the task interface, the data blocks, the out-of-order dispatch and the remote
  handlers that only pass arguments on to the modelled components; connection set-up.
  Weak memory orders are not modelled, nor time.
\<close>

end
